(* ===== verification/Prelude.thy ===== *)
theory Prelude
  imports Main "HOL-Library.Word"
begin

unbundle bit_operations_syntax

section \<open>Shared vocabulary of the development\<close>

text \<open>
  Types and generic lemmas that every component uses: machine integers at their width,
  big-endian byte encodings (the order in which the protocol code writes integers),
  reads through a pointer that may run past the end of an object, the exceptions the
  code throws, and the collections \<open>wire_simps\<close> (encodings) and \<open>frame_simps\<close>
  (fields an operation leaves alone).
\<close>

named_theorems wire_simps \<open>facts about encoded messages\<close>
named_theorems frame_simps \<open>fields that an operation does not change\<close>

type_synonym byte = "8 word"
type_synonym u16 = "16 word"
type_synonym u32 = "32 word"
type_synonym u64 = "64 word"

text \<open>
  The exceptions that the modelled code or the standard library functions it calls can
  throw, none of which is caught above the functions modelled here, and executions to which
  the language gives no meaning (\<open>Undefined\<close>: the use of an invalidated iterator).
  \<open>Out_of_fuel\<close> is the value of a loop that may not end when its fuel is used up.
\<close>

datatype exn =
    Runtime_error string
  | Out_of_range
  | Invalid_argument
  | Undefined string
  | Out_of_fuel

type_synonym 'a res = "exn + 'a"

definition res_bind :: "'a res \<Rightarrow> ('a \<Rightarrow> 'b res) \<Rightarrow> 'b res" where
  "res_bind r f = (case r of Inl e \<Rightarrow> Inl e | Inr x \<Rightarrow> f x)"

lemma res_bind_simps [simp]:
  "res_bind (Inl e) f = Inl e"
  "res_bind (Inr x) f = f x"
  by (simp_all add: res_bind_def)

lemma res_bind_eq_Inr:
  "res_bind r f = Inr y \<longleftrightarrow> (\<exists>x. r = Inr x \<and> f x = Inr y)"
  by (cases r) auto

subsection \<open>Big-endian encodings\<close>

text \<open>\<open>be n w\<close> is the value \<open>w\<close> in \<open>n\<close> bytes, most significant byte first.\<close>

primrec be :: "nat \<Rightarrow> 'a::len word \<Rightarrow> byte list" where
  "be 0 w = []"
| "be (Suc n) w = ucast (drop_bit (8 * n) w) # be n w"

definition of_be :: "byte list \<Rightarrow> 'a::len word" where
  "of_be bs = foldl (\<lambda>acc b. push_bit 8 acc OR ucast b) 0 bs"

lemma length_be [simp]: "length (be n w) = n"
  by (induction n) auto

lemma be_neq_Nil [simp]: "be n w = [] \<longleftrightarrow> n = 0"
  by (cases n) auto

lemma push_take_step:
  fixes acc w :: "'a::len word"
  shows "push_bit (8 * n) (push_bit 8 acc OR ucast (ucast (drop_bit (8 * n) w) :: byte))
           OR take_bit (8 * n) w
         = push_bit (8 * Suc n) acc OR take_bit (8 * Suc n) w"
proof (rule bit_word_eqI)
  fix i assume "i < LENGTH('a)"
  then show "bit (push_bit (8 * n) (push_bit 8 acc OR ucast (ucast (drop_bit (8 * n) w) :: byte))
           OR take_bit (8 * n) w) i
         \<longleftrightarrow> bit (push_bit (8 * Suc n) acc OR take_bit (8 * Suc n) w) i"
    by (auto simp: bit_simps add.commute [of "8 * n" 8])
qed

lemma foldl_be:
  fixes acc w :: "'a::len word"
  shows "foldl (\<lambda>acc b. push_bit 8 acc OR ucast b) acc (be n w)
         = push_bit (8 * n) acc OR take_bit (8 * n) w"
proof (induction n arbitrary: acc)
  case 0
  then show ?case by simp
next
  case (Suc n)
  then show ?case by (simp only: be.simps foldl.simps push_take_step)
qed

lemma of_be_be:
  fixes w :: "'a::len word"
  assumes "LENGTH('a) \<le> 8 * n"
  shows "of_be (be n w) = w"
proof -
  have "of_be (be n w) = take_bit (8 * n) w"
    by (simp add: of_be_def foldl_be)
  also have "\<dots> = w"
    using assms by (simp add: take_bit_word_eq_self)
  finally show ?thesis .
qed

lemma of_be_widths [simp, wire_simps]:
  "of_be (be (Suc 0) (v1 :: 8 word)) = v1"
  "of_be (be 2 (v2 :: 16 word)) = v2"
  "of_be (be 4 (v4 :: 32 word)) = v4"
  "of_be (be 8 (v8 :: 64 word)) = v8"
  by (simp_all add: of_be_be del: be.simps)

text \<open>Every list of \<open>n\<close> bytes is the encoding of the value it spells.\<close>

lemma be_push_bit_or:
  fixes w :: "'a::len word"
  assumes "8 * Suc n \<le> LENGTH('a)"
  shows "be (Suc n) (push_bit 8 w OR ucast (b :: byte)) = be n w @ [b]"
  using assms
proof (induction n)
  case 0
  then show ?case by (auto intro!: bit_word_eqI simp: bit_simps)
next
  case (Suc n)
  have "ucast (drop_bit (8 * Suc n) (push_bit 8 w OR ucast b)) = (ucast (drop_bit (8 * n) w) :: byte)"
    using Suc.prems by (intro bit_word_eqI) (auto simp: bit_simps dest: bit_imp_le_length)
  moreover from Suc have "be (Suc n) (push_bit 8 w OR ucast b) = be n w @ [b]"
    by simp
  ultimately show ?case
    by (simp only: be.simps(2) [of "Suc n"]) simp
qed

lemma of_be_snoc: "of_be (bs @ [b]) = push_bit 8 (of_be bs) OR ucast b"
  by (simp add: of_be_def)

lemma be_of_be:
  assumes "length bs = n" "8 * n \<le> LENGTH('a::len)"
  shows "be n (of_be bs :: 'a word) = bs"
  using assms
proof (induction bs arbitrary: n rule: rev_induct)
  case Nil
  then show ?case by simp
next
  case (snoc b bs)
  then obtain m where m: "n = Suc m" "length bs = m" by auto
  with snoc show ?case by (simp only: of_be_snoc be_push_bit_or) simp
qed

subsection \<open>Strings, byte strings and raw memory\<close>

text \<open>
  A \<open>std::string\<close> is a \<^typ>\<open>string\<close>; the code moves between strings and byte arrays with
  \<open>reinterpret_cast\<close>, which keeps the bytes.
\<close>

definition bytes_of :: "string \<Rightarrow> byte list" where
  "bytes_of s = map of_char s"

definition string_of :: "byte list \<Rightarrow> string" where
  "string_of bs = map (\<lambda>b. char_of (unat b)) bs"

lemma length_bytes_of [simp]: "length (bytes_of s) = length s"
  by (simp add: bytes_of_def)

lemma length_string_of [simp]: "length (string_of bs) = length bs"
  by (simp add: string_of_def)

lemma unat_of_char: "unat (of_char c :: byte) = of_char c"
proof -
  have "(of_char c :: byte) = word_of_nat (of_char c)"
    by (simp add: of_nat_of_char)
  moreover have "(of_char c :: nat) < 256"
    using nat_of_char_less_256 [of c] by simp
  ultimately show ?thesis by (simp add: unat_of_nat)
qed

lemma string_of_bytes_of [simp]: "string_of (bytes_of s) = s"
  by (simp add: string_of_def bytes_of_def comp_def unat_of_char)

lemma bytes_of_string_of [simp]: "bytes_of (string_of bs) = bs"
proof -
  have "(of_char (char_of (unat b) :: char) :: byte) = b" for b :: byte
  proof -
    have "of_nat (of_char (char_of (unat b))) = (of_nat (unat b mod 256) :: byte)"
      by (simp only: of_char_of)
    also have "unat b mod 256 = unat b"
      using unsigned_less [where 'a = nat, of b] by simp
    finally show ?thesis unfolding of_nat_of_char by simp
  qed
  then show ?thesis by (simp add: string_of_def bytes_of_def comp_def)
qed

text \<open>
  \<open>read_mem oob xs n\<close> reads \<open>n\<close> consecutive bytes through a pointer to an object that holds
  \<open>xs\<close>. The language gives no meaning to a read past the object; \<open>oob\<close> stands for whatever
  the machine returns there, and the theorems hold for every \<open>oob\<close>.
\<close>

definition read_mem :: "(nat \<Rightarrow> byte) \<Rightarrow> byte list \<Rightarrow> nat \<Rightarrow> byte list" where
  "read_mem oob xs n = map (\<lambda>i. if i < length xs then xs ! i else oob i) [0..<n]"

lemma length_read_mem [simp]: "length (read_mem oob xs n) = n"
  by (simp add: read_mem_def)

lemma read_mem_in_range:
  "n \<le> length xs \<Longrightarrow> read_mem oob xs n = take n xs"
  by (rule nth_equalityI) (auto simp: read_mem_def)

end
