(* ===== verification/Byte_Buffer.thy ===== *)
theory Byte_Buffer
  imports Prelude
begin

section \<open>The byte buffer the program is built on\<close>

text \<open>
  \<open>mul::byte_buffer\<close> comes from a git submodule (\<open>extern/mul\<close>) whose files are not part of
  the repository, so it is a parameter of the model: a record of its operations over an
  unknown buffer type \<open>'b\<close>, passed to every definition that uses a buffer. A pointer
  obtained from a buffer is the function from offsets to the bytes it points at.
  \<open>bb_store\<close> is what a system call does that fills memory through \<open>get_write()\<close>.

  \<open>bb_laws\<close> states what the call sites in \<open>src/\<close> rely on: writes append at the end of the
  readable bytes, reads consume from the front, peeks look without consuming, integers are
  in network byte order, \<open>reset\<close> empties the buffer. Nothing is said of a read that asks for
  more bytes than there are. \<open>list_buffer\<close> is one buffer that satisfies the laws; the
  witnesses use it.
\<close>

record 'b byte_buffer_api =
  bb_new :: 'b
  bb_sized :: "nat \<Rightarrow> 'b"
  bb_reset :: "'b \<Rightarrow> 'b"
  bb_get_read :: "'b \<Rightarrow> nat \<Rightarrow> byte"
  bb_get_read_available :: "'b \<Rightarrow> nat"
  bb_get_write_available :: "'b \<Rightarrow> nat"
  bb_store :: "byte list \<Rightarrow> 'b \<Rightarrow> 'b"
  bb_inc_read :: "nat \<Rightarrow> 'b \<Rightarrow> 'b"
  bb_inc_write :: "nat \<Rightarrow> 'b \<Rightarrow> 'b"
  bb_write :: "byte list \<Rightarrow> 'b \<Rightarrow> 'b"
  bb_write_8 :: "byte \<Rightarrow> 'b \<Rightarrow> 'b"
  bb_write_16 :: "u16 \<Rightarrow> 'b \<Rightarrow> 'b"
  bb_write_32 :: "u32 \<Rightarrow> 'b \<Rightarrow> 'b"
  bb_write_64 :: "u64 \<Rightarrow> 'b \<Rightarrow> 'b"
  bb_read :: "nat \<Rightarrow> 'b \<Rightarrow> (nat \<Rightarrow> byte) \<times> 'b"
  bb_read_8 :: "'b \<Rightarrow> byte \<times> 'b"
  bb_read_16 :: "'b \<Rightarrow> u16 \<times> 'b"
  bb_read_32 :: "'b \<Rightarrow> u32 \<times> 'b"
  bb_read_64 :: "'b \<Rightarrow> u64 \<times> 'b"
  bb_peek_8 :: "nat \<Rightarrow> 'b \<Rightarrow> byte"
  bb_peek_32 :: "'b \<Rightarrow> u32"

text \<open>The bytes at a pointer, and the readable bytes of a buffer.\<close>

definition at_ptr :: "(nat \<Rightarrow> byte) \<Rightarrow> nat \<Rightarrow> nat \<Rightarrow> byte list" where
  "at_ptr p off n = map p [off..<off + n]"

definition rd :: "'b byte_buffer_api \<Rightarrow> 'b \<Rightarrow> byte list" where
  "rd B b = at_ptr (bb_get_read B b) 0 (bb_get_read_available B b)"

lemma length_at_ptr [simp]: "length (at_ptr p off n) = n"
  by (simp add: at_ptr_def)

lemma bb_avail [simp]: "bb_get_read_available B b = length (rd B b)"
  by (simp add: rd_def)

lemma at_ptr_rd:
  assumes "off + n \<le> bb_get_read_available B b"
  shows "at_ptr (bb_get_read B b) off n = take n (drop off (rd B b))"
  using assms by (intro nth_equalityI) (auto simp: at_ptr_def rd_def simp del: bb_avail)

lemma at_ptr_all [simp]: "at_ptr (bb_get_read B b) 0 (length (rd B b)) = rd B b"
  by (simp add: at_ptr_rd)

definition bb_laws :: "'b byte_buffer_api \<Rightarrow> bool" where
  "bb_laws B \<longleftrightarrow>
     rd B (bb_new B) = [] \<and>
     (\<forall>n. rd B (bb_sized B n) = [] \<and> bb_get_write_available B (bb_sized B n) = n) \<and>
     (\<forall>b. rd B (bb_reset B b) = []) \<and>
     (\<forall>b xs. length xs \<le> bb_get_write_available B b \<longrightarrow>
        rd B (bb_inc_write B (length xs) (bb_store B xs b)) = rd B b @ xs) \<and>
     (\<forall>b n. n \<le> length (rd B b) \<longrightarrow> rd B (bb_inc_read B n b) = drop n (rd B b)) \<and>
     (\<forall>b xs. rd B (bb_write B xs b) = rd B b @ xs) \<and>
     (\<forall>b v. rd B (bb_write_8 B v b) = rd B b @ [v]) \<and>
     (\<forall>b v. rd B (bb_write_16 B v b) = rd B b @ be 2 v) \<and>
     (\<forall>b v. rd B (bb_write_32 B v b) = rd B b @ be 4 v) \<and>
     (\<forall>b v. rd B (bb_write_64 B v b) = rd B b @ be 8 v) \<and>
     (\<forall>b n. n \<le> length (rd B b) \<longrightarrow>
        at_ptr (fst (bb_read B n b)) 0 n = take n (rd B b) \<and>
        rd B (snd (bb_read B n b)) = drop n (rd B b)) \<and>
     (\<forall>b. 1 \<le> length (rd B b) \<longrightarrow>
        fst (bb_read_8 B b) = hd (rd B b) \<and> rd B (snd (bb_read_8 B b)) = tl (rd B b)) \<and>
     (\<forall>b. 2 \<le> length (rd B b) \<longrightarrow>
        fst (bb_read_16 B b) = of_be (take 2 (rd B b)) \<and>
        rd B (snd (bb_read_16 B b)) = drop 2 (rd B b)) \<and>
     (\<forall>b. 4 \<le> length (rd B b) \<longrightarrow>
        fst (bb_read_32 B b) = of_be (take 4 (rd B b)) \<and>
        rd B (snd (bb_read_32 B b)) = drop 4 (rd B b)) \<and>
     (\<forall>b. 8 \<le> length (rd B b) \<longrightarrow>
        fst (bb_read_64 B b) = of_be (take 8 (rd B b)) \<and>
        rd B (snd (bb_read_64 B b)) = drop 8 (rd B b)) \<and>
     (\<forall>b off. off < length (rd B b) \<longrightarrow> bb_peek_8 B off b = rd B b ! off) \<and>
     (\<forall>b. 4 \<le> length (rd B b) \<longrightarrow> bb_peek_32 B b = of_be (take 4 (rd B b)))"

lemma bb_rd:
  assumes "bb_laws B"
  shows "rd B (bb_new B) = []"
    and "rd B (bb_sized B n) = []"
    and "rd B (bb_reset B b) = []"
    and "rd B (bb_write B xs b) = rd B b @ xs"
    and "rd B (bb_write_8 B v8 b) = rd B b @ [v8]"
    and "rd B (bb_write_16 B v16 b) = rd B b @ be 2 v16"
    and "rd B (bb_write_32 B v32 b) = rd B b @ be 4 v32"
    and "rd B (bb_write_64 B v64 b) = rd B b @ be 8 v64"
  using assms by (auto simp: bb_laws_def)

lemma bb_consume:
  assumes "bb_laws B"
  shows "n \<le> length (rd B b) \<Longrightarrow> rd B (bb_inc_read B n b) = drop n (rd B b)"
    and "n \<le> length (rd B b) \<Longrightarrow> at_ptr (fst (bb_read B n b)) 0 n = take n (rd B b)"
    and "n \<le> length (rd B b) \<Longrightarrow> rd B (snd (bb_read B n b)) = drop n (rd B b)"
    and "1 \<le> length (rd B b) \<Longrightarrow> fst (bb_read_8 B b) = hd (rd B b)"
    and "1 \<le> length (rd B b) \<Longrightarrow> rd B (snd (bb_read_8 B b)) = tl (rd B b)"
    and "2 \<le> length (rd B b) \<Longrightarrow> fst (bb_read_16 B b) = of_be (take 2 (rd B b))"
    and "2 \<le> length (rd B b) \<Longrightarrow> rd B (snd (bb_read_16 B b)) = drop 2 (rd B b)"
    and "4 \<le> length (rd B b) \<Longrightarrow> fst (bb_read_32 B b) = of_be (take 4 (rd B b))"
    and "4 \<le> length (rd B b) \<Longrightarrow> rd B (snd (bb_read_32 B b)) = drop 4 (rd B b)"
    and "8 \<le> length (rd B b) \<Longrightarrow> fst (bb_read_64 B b) = of_be (take 8 (rd B b))"
    and "8 \<le> length (rd B b) \<Longrightarrow> rd B (snd (bb_read_64 B b)) = drop 8 (rd B b)"
  using assms by (simp_all add: bb_laws_def)

lemma bb_peek:
  assumes "bb_laws B"
  shows "off < length (rd B b) \<Longrightarrow> bb_peek_8 B off b = rd B b ! off"
    and "4 \<le> length (rd B b) \<Longrightarrow> bb_peek_32 B b = of_be (take 4 (rd B b))"
  using assms by (simp_all add: bb_laws_def)

lemma bb_fill:
  assumes "bb_laws B" "length xs \<le> bb_get_write_available B b"
  shows "rd B (bb_inc_write B (length xs) (bb_store B xs b)) = rd B b @ xs"
  using assms by (simp add: bb_laws_def)

text \<open>
  One buffer that satisfies the laws: the readable bytes, the bytes stored past them but
  not yet published by \<open>inc_write\<close>, and the capacity.
\<close>

type_synonym lbuf = "byte list \<times> byte list \<times> nat"

definition list_buffer :: "lbuf byte_buffer_api" where
  "list_buffer = \<lparr>
     bb_new = ([], [], 0),
     bb_sized = (\<lambda>n. ([], [], n)),
     bb_reset = (\<lambda>(xs, ys, c). ([], [], c)),
     bb_get_read = (\<lambda>(xs, ys, c) i. if i < length xs then xs ! i else 0),
     bb_get_read_available = (\<lambda>(xs, ys, c). length xs),
     bb_get_write_available = (\<lambda>(xs, ys, c). c - length xs),
     bb_store = (\<lambda>zs (xs, ys, c). (xs, zs, c)),
     bb_inc_read = (\<lambda>n (xs, ys, c). (drop n xs, ys, c)),
     bb_inc_write = (\<lambda>n (xs, ys, c). (xs @ take n ys, drop n ys, c)),
     bb_write = (\<lambda>zs (xs, ys, c). (xs @ zs, ys, c)),
     bb_write_8 = (\<lambda>v (xs, ys, c). (xs @ [v], ys, c)),
     bb_write_16 = (\<lambda>v (xs, ys, c). (xs @ be 2 v, ys, c)),
     bb_write_32 = (\<lambda>v (xs, ys, c). (xs @ be 4 v, ys, c)),
     bb_write_64 = (\<lambda>v (xs, ys, c). (xs @ be 8 v, ys, c)),
     bb_read = (\<lambda>n (xs, ys, c). (\<lambda>i. if i < length xs then xs ! i else 0, (drop n xs, ys, c))),
     bb_read_8 = (\<lambda>(xs, ys, c). (hd (xs @ [0]), (tl xs, ys, c))),
     bb_read_16 = (\<lambda>(xs, ys, c). (of_be (take 2 xs), (drop 2 xs, ys, c))),
     bb_read_32 = (\<lambda>(xs, ys, c). (of_be (take 4 xs), (drop 4 xs, ys, c))),
     bb_read_64 = (\<lambda>(xs, ys, c). (of_be (take 8 xs), (drop 8 xs, ys, c))),
     bb_peek_8 = (\<lambda>off (xs, ys, c). if off < length xs then xs ! off else 0),
     bb_peek_32 = (\<lambda>(xs, ys, c). of_be (take 4 xs)) \<rparr>"

lemma list_buffer_rd [simp]: "rd list_buffer (xs, ys, c) = xs"
  by (rule nth_equalityI) (auto simp: rd_def at_ptr_def list_buffer_def)

lemma list_buffer_read_ptr:
  "n \<le> length xs \<Longrightarrow> at_ptr (\<lambda>i. if i < length xs then xs ! i else 0) 0 n = take n xs"
  by (rule nth_equalityI) (auto simp: at_ptr_def)

lemma list_buffer_fields [simp]:
  "bb_new list_buffer = ([], [], 0)"
  "bb_sized list_buffer n = ([], [], n)"
  "bb_reset list_buffer (xs, ys, c) = ([], [], c)"
  "bb_get_write_available list_buffer (xs, ys, c) = c - length xs"
  "bb_store list_buffer zs (xs, ys, c) = (xs, zs, c)"
  "bb_inc_read list_buffer n (xs, ys, c) = (drop n xs, ys, c)"
  "bb_inc_write list_buffer n (xs, ys, c) = (xs @ take n ys, drop n ys, c)"
  "bb_write list_buffer zs (xs, ys, c) = (xs @ zs, ys, c)"
  "bb_write_8 list_buffer v8 (xs, ys, c) = (xs @ [v8], ys, c)"
  "bb_write_16 list_buffer v16 (xs, ys, c) = (xs @ be 2 v16, ys, c)"
  "bb_write_32 list_buffer v32 (xs, ys, c) = (xs @ be 4 v32, ys, c)"
  "bb_write_64 list_buffer v64 (xs, ys, c) = (xs @ be 8 v64, ys, c)"
  "bb_read list_buffer n (xs, ys, c)
     = (\<lambda>i. if i < length xs then xs ! i else 0, (drop n xs, ys, c))"
  "bb_read_8 list_buffer (xs, ys, c) = (hd (xs @ [0]), (tl xs, ys, c))"
  "bb_read_16 list_buffer (xs, ys, c) = (of_be (take 2 xs), (drop 2 xs, ys, c))"
  "bb_read_32 list_buffer (xs, ys, c) = (of_be (take 4 xs), (drop 4 xs, ys, c))"
  "bb_read_64 list_buffer (xs, ys, c) = (of_be (take 8 xs), (drop 8 xs, ys, c))"
  "bb_peek_8 list_buffer off (xs, ys, c) = (if off < length xs then xs ! off else 0)"
  "bb_peek_32 list_buffer (xs, ys, c) = of_be (take 4 xs)"
  by (simp_all add: list_buffer_def)

lemma list_buffer_laws: "bb_laws list_buffer"
  unfolding bb_laws_def
  by (auto simp: list_buffer_read_ptr hd_append)

end
