(* ===== verification/Libtorrent.thy ===== *)
theory Libtorrent
  imports Prelude
begin

section \<open>The parts of libtorrent the client computes with\<close>

text \<open>
  The layout of a torrent: pieces, files and the map from a block of a piece to slices of
  files (\<open>file_storage\<close>), the paths of the files, and the hexadecimal form of a hash. The
  client calls these on every block it requests or writes, so they are translated from
  \<open>extern/libtorrent/src\<close> rather than assumed. Assertions are compiled out of the release
  build and are not modelled. \<open>hash_for_piece\<close>, the info hash and the tracker list are
  fields: they are data of the torrent file.
\<close>

text \<open>\<open>int\<close> conversions of the 32-bit \<open>int\<close> type, as gcc does them.\<close>

definition cint :: "int \<Rightarrow> int" where
  "cint x = signed_take_bit 31 x"

lemma cint_id [simp]: "- (2 ^ 31) \<le> x \<Longrightarrow> x < 2 ^ 31 \<Longrightarrow> cint x = x"
  by (simp add: cint_def signed_take_bit_int_eq_self)

subsection \<open>Files and pieces\<close>

record file_entry =
  fe_offset :: int
  fe_size :: int
  fe_no_root_dir :: bool
  fe_path_index :: int
  fe_name :: string
  fe_pad_file :: bool

record file_storage =
  fs_name :: string
  fs_paths :: "string list"
  fs_files :: "file_entry list"
  fs_total_size :: int
  fs_num_pieces :: int
  fs_piece_length :: int

record torrent_info =
  ti_files :: file_storage
  ti_hash_for_piece :: "int \<Rightarrow> byte list"
  ti_info_hash :: "byte list"
  ti_trackers :: "string list"

definition piece_size :: "file_storage \<Rightarrow> int \<Rightarrow> int" where
  "piece_size fs index =
     (if index = fs_num_pieces fs - 1
      then cint (fs_total_size fs - (fs_num_pieces fs - 1) * fs_piece_length fs)
      else fs_piece_length fs)"

record file_slice =
  sl_file_index :: nat
  sl_offset :: int
  sl_size :: int

text \<open>
  The loop of \<open>map_block\<close>: \<open>k\<close> is the index of the file the iterator stands on, the list
  holds the files from there on.
\<close>

fun map_block_loop :: "nat \<Rightarrow> file_entry list \<Rightarrow> int \<Rightarrow> int \<Rightarrow> file_slice list" where
  "map_block_loop k [] file_offset sz = []"
| "map_block_loop k (f # fs) file_offset sz =
     (if sz > 0 then
        (if file_offset < fe_size f then
           (let n = min (fe_size f - file_offset) sz in
            \<lparr>sl_file_index = k, sl_offset = file_offset, sl_size = n\<rparr>
              # map_block_loop (Suc k) fs (file_offset + n - fe_size f) (sz - n))
         else map_block_loop (Suc k) fs (file_offset - fe_size f) sz)
      else [])"

definition map_block :: "file_storage \<Rightarrow> int \<Rightarrow> int \<Rightarrow> int \<Rightarrow> file_slice list" where
  "map_block fs piece offset sz =
     (if fs_files fs = [] then []
      else
        let target = (piece * fs_piece_length fs + offset) mod 2 ^ 48;
            sz = (if target + sz > fs_total_size fs
                    then cint (fs_total_size fs - target) else sz);
            k = length (takeWhile (\<lambda>f. \<not> target < fe_offset f) (fs_files fs)) - 1
        in map_block_loop k (drop k (fs_files fs))
             (target - fe_offset (fs_files fs ! k)) sz)"

definition append_path :: "string \<Rightarrow> string \<Rightarrow> string" where
  "append_path branch leaf =
     (if branch = [] \<or> branch = ''.'' then leaf
      else if leaf = [] then branch
      else (if last branch \<noteq> CHR ''/'' then branch @ ''/'' else branch) @ leaf)"

definition file_path :: "file_storage \<Rightarrow> nat \<Rightarrow> string" where
  "file_path fs index =
     (let fe = fs_files fs ! index; save_path = '''' in
      if fe_path_index fe = -2 then fe_name fe
      else if fe_path_index fe = -1 then append_path save_path (fe_name fe)
      else if fe_no_root_dir fe
      then append_path (append_path save_path (fs_paths fs ! nat (fe_path_index fe))) (fe_name fe)
      else append_path
             (append_path (append_path save_path (fs_name fs))
                (fs_paths fs ! nat (fe_path_index fe)))
             (fe_name fe))"

definition file_name :: "file_storage \<Rightarrow> nat \<Rightarrow> string" where
  "file_name fs index = fe_name (fs_files fs ! index)"

definition file_size :: "file_storage \<Rightarrow> nat \<Rightarrow> int" where
  "file_size fs index = fe_size (fs_files fs ! index)"

definition file_range :: "file_storage \<Rightarrow> nat list" where
  "file_range fs = [0..<length (fs_files fs)]"

definition hex_chars :: string where
  "hex_chars = ''0123456789abcdef''"

fun to_hex :: "byte list \<Rightarrow> string" where
  "to_hex [] = []"
| "to_hex (b # bs) =
     hex_chars ! unat (drop_bit 4 b) # hex_chars ! unat (b AND 0xf) # to_hex bs"

lemma length_to_hex [simp]: "length (to_hex bs) = 2 * length bs"
  by (induction bs) auto

subsection \<open>Well-formed storages\<close>

text \<open>The files lie one after the other and the pieces cut the whole into equal parts.\<close>

fun contiguous :: "int \<Rightarrow> file_entry list \<Rightarrow> bool" where
  "contiguous pos [] = True"
| "contiguous pos (f # fs) \<longleftrightarrow> fe_offset f = pos \<and> 0 \<le> fe_size f \<and> contiguous (pos + fe_size f) fs"

definition fs_ok :: "file_storage \<Rightarrow> bool" where
  "fs_ok fs \<longleftrightarrow>
     contiguous 0 (fs_files fs) \<and>
     fs_total_size fs = sum_list (map fe_size (fs_files fs)) \<and>
     0 < fs_total_size fs \<and> fs_total_size fs < 2 ^ 48 \<and>
     0 < fs_piece_length fs \<and> fs_piece_length fs < 2 ^ 31 \<and>
     0 < fs_num_pieces fs \<and> fs_num_pieces fs < 2 ^ 31 \<and>
     (fs_num_pieces fs - 1) * fs_piece_length fs < fs_total_size fs \<and>
     fs_total_size fs \<le> fs_num_pieces fs * fs_piece_length fs"

lemma piece_size_bounds:
  assumes "fs_ok fs"
  shows "0 < piece_size fs i \<and> piece_size fs i \<le> fs_piece_length fs"
proof -
  have "fs_total_size fs - (fs_num_pieces fs - 1) * fs_piece_length fs \<le> fs_piece_length fs"
    using assms by (simp add: fs_ok_def algebra_simps)
  then show ?thesis
    using assms by (auto simp: piece_size_def fs_ok_def)
qed

lemma piece_end_le_total:
  assumes "fs_ok fs" "0 \<le> i" "i < fs_num_pieces fs"
  shows "i * fs_piece_length fs + piece_size fs i \<le> fs_total_size fs"
proof (cases "i = fs_num_pieces fs - 1")
  case True
  have "fs_total_size fs - (fs_num_pieces fs - 1) * fs_piece_length fs < 2 ^ 31"
    using assms(1) by (simp add: fs_ok_def algebra_simps)
  then show ?thesis
    using True assms(1) by (simp add: piece_size_def fs_ok_def)
next
  case False
  then have "(i + 1) * fs_piece_length fs \<le> (fs_num_pieces fs - 1) * fs_piece_length fs"
    using assms by (intro mult_right_mono) (auto simp: fs_ok_def)
  then show ?thesis
    using False assms(1) by (simp add: piece_size_def fs_ok_def algebra_simps)
qed

lemma last_piece_end:
  assumes "fs_ok fs"
  shows "(fs_num_pieces fs - 1) * fs_piece_length fs + piece_size fs (fs_num_pieces fs - 1)
    = fs_total_size fs"
proof -
  let ?r = "fs_total_size fs - (fs_num_pieces fs - 1) * fs_piece_length fs"
  have "?r \<le> fs_piece_length fs" using assms by (simp add: fs_ok_def left_diff_distrib)
  then have "cint ?r = ?r" using assms by (intro cint_id) (auto simp: fs_ok_def)
  then show ?thesis by (simp add: piece_size_def)
qed

lemma contiguous_drop:
  "contiguous pos fs \<Longrightarrow> k \<le> length fs \<Longrightarrow>
     contiguous (pos + sum_list (map fe_size (take k fs))) (drop k fs)"
proof (induction fs arbitrary: pos k)
  case Nil
  then show ?case by simp
next
  case (Cons f fs)
  then show ?case
    by (cases k) (simp_all add: add.assoc [symmetric])
qed

lemma contiguous_sizes: "contiguous pos fs \<Longrightarrow> f \<in> set fs \<Longrightarrow> 0 \<le> fe_size f"
  by (induction fs arbitrary: pos) auto

lemma contiguous_sum_nonneg: "contiguous pos fs \<Longrightarrow> 0 \<le> sum_list (map fe_size fs)"
  by (rule sum_list_nonneg) (auto dest: contiguous_sizes)

subsection \<open>A block of the torrent and the file slices it maps to\<close>

text \<open>
  The torrent positions a slice covers. The slices of a block, read one after the other,
  cover the positions of the block, each once and in order.
\<close>

definition slice_range :: "file_entry list \<Rightarrow> file_slice \<Rightarrow> int list" where
  "slice_range fs s =
     (let g = fe_offset (fs ! sl_file_index s) + sl_offset s in [g .. g + sl_size s - 1])"

definition slice_ok :: "file_entry list \<Rightarrow> file_slice \<Rightarrow> bool" where
  "slice_ok fs s \<longleftrightarrow>
     sl_file_index s < length fs \<and> 0 \<le> sl_offset s \<and> 0 < sl_size s \<and>
     sl_offset s + sl_size s \<le> fe_size (fs ! sl_file_index s)"

lemma upto_join:
  fixes a b c :: int
  assumes "a \<le> b + 1" "b \<le> c"
  shows "[a..b] @ [b + 1..c] = [a..c]"
proof (cases "b = c")
  case True
  then show ?thesis by simp
next
  case False
  with assms show ?thesis using upto_split1 [of a "b + 1" c] by simp
qed

lemma map_block_loop_ranges:
  assumes "drop k F = fs" "contiguous pos fs" "0 \<le> fo" "0 \<le> sz"
    and "fo + sz \<le> sum_list (map fe_size fs)"
  shows "concat (map (slice_range F) (map_block_loop k fs fo sz)) = [pos + fo .. pos + fo + sz - 1]"
  using assms
proof (induction k fs fo sz arbitrary: pos rule: map_block_loop.induct)
  case (1 k fo sz)
  then show ?case by simp
next
  case (2 k f fs fo sz)
  have F: "F ! k = f" and D: "drop (Suc k) F = fs"
    using "2.prems"(1) by (metis nth_via_drop, metis list.sel(3) drop_Suc tl_drop)
  have C: "contiguous (pos + fe_size f) fs" "fe_offset f = pos" "0 \<le> fe_size f"
    using "2.prems"(2) by auto
  note S = contiguous_sum_nonneg [OF C(1)]
  let ?n = "min (fe_size f - fo) sz"
  consider "sz \<le> 0" | "0 < sz" "fe_size f \<le> fo" | "0 < sz" "fo < fe_size f" "?n = sz"
    | "0 < sz" "fo < fe_size f" "?n = fe_size f - fo"
    by linarith
  then show ?case
  proof cases
    case 1
    then show ?thesis by simp
  next
    case 2
    have "concat (map (slice_range F) (map_block_loop (Suc k) fs (fo - fe_size f) sz))
        = [pos + fe_size f + (fo - fe_size f) .. pos + fe_size f + (fo - fe_size f) + sz - 1]"
      using "2.prems" 2 D C by (intro "2.IH"(2)) auto
    with 2 show ?thesis by simp
  next
    case 3
    then have "map_block_loop (Suc k) fs (fo + ?n - fe_size f) (sz - ?n) = []"
      by (cases fs) simp_all
    with 3 F C show ?thesis by (simp add: slice_range_def Let_def)
  next
    case 4
    have "concat (map (slice_range F) (map_block_loop (Suc k) fs (fo + ?n - fe_size f) (sz - ?n)))
        = [pos + fe_size f + (fo + ?n - fe_size f) .. pos + fe_size f + (fo + ?n - fe_size f) + (sz - ?n) - 1]"
      using "2.prems" 4 D C S by (intro "2.IH"(1)) auto
    moreover have "slice_range F \<lparr>sl_file_index = k, sl_offset = fo, sl_size = ?n\<rparr>
        = [pos + fo .. pos + fe_size f - 1]"
      using 4 F C by (simp add: slice_range_def Let_def)
    moreover have "fe_size f - fo \<le> sz" using 4 by linarith
    ultimately show ?thesis
      using 4 upto_join [of "pos + fo" "pos + fe_size f - 1" "pos + fo + sz - 1"]
      by (simp add: Let_def ac_simps)
  qed
qed

lemma map_block_loop_slices:
  assumes "drop k F = fs" "0 \<le> fo" "\<forall>f\<in>set fs. 0 \<le> fe_size f"
  shows "\<forall>s\<in>set (map_block_loop k fs fo sz). slice_ok F s"
  using assms
proof (induction k fs fo sz rule: map_block_loop.induct)
  case (1 k fo sz)
  then show ?case by simp
next
  case (2 k f fs fo sz)
  have F: "F ! k = f" and D: "drop (Suc k) F = fs" and L: "k < length F"
    using "2.prems"(1)
    by (metis nth_via_drop, metis list.sel(3) drop_Suc tl_drop, metis drop_eq_Nil leI list.distinct(1))
  show ?case
  proof (cases "0 < sz \<and> fo < fe_size f")
    case True
    let ?n = "min (fe_size f - fo) sz"
    have "\<forall>s\<in>set (map_block_loop (Suc k) fs (fo + ?n - fe_size f) (sz - ?n)). slice_ok F s"
    proof (cases "?n = sz")
      case True
      then show ?thesis by (cases fs) simp_all
    next
      case False
      with "2.prems" D \<open>0 < sz \<and> fo < fe_size f\<close> show ?thesis
        by (intro "2.IH"(1)) auto
    qed
    with True F L "2.prems"(2) show ?thesis by (simp add: slice_ok_def Let_def)
  next
    case False
    with "2.prems" D show ?thesis using "2.IH"(2) by auto
  qed
qed

text \<open>The file that \<open>upper_bound\<close> and the decrement find holds the target position.\<close>

lemma upper_bound_file:
  assumes "contiguous 0 F" "F \<noteq> []" "0 \<le> t" "t < sum_list (map fe_size F)"
    and k: "k = length (takeWhile (\<lambda>f. \<not> t < fe_offset f) F) - 1"
  shows "k < length F" "contiguous (fe_offset (F ! k)) (drop k F)" "fe_offset (F ! k) \<le> t"
    and "fe_offset (F ! k) + sum_list (map fe_size (drop k F)) = sum_list (map fe_size F)"
proof -
  let ?p = "\<lambda>f. \<not> t < fe_offset f"
  have "takeWhile ?p F \<noteq> []"
    using assms(1-3) by (cases F) auto
  then have klt: "k < length (takeWhile ?p F)"
    using k by simp
  then show kF: "k < length F"
    using length_takeWhile_le [of ?p F] by simp
  have "?p (F ! k)"
    using nth_mem [OF klt] takeWhile_nth [OF klt] set_takeWhileD by fastforce
  then show "fe_offset (F ! k) \<le> t" by simp
  have C: "contiguous (sum_list (map fe_size (take k F))) (drop k F)"
    using contiguous_drop [OF assms(1), of k] kF by simp
  then have off: "fe_offset (F ! k) = sum_list (map fe_size (take k F))"
    using kF by (simp add: Cons_nth_drop_Suc [symmetric])
  with C show "contiguous (fe_offset (F ! k)) (drop k F)" by simp
  have "sum_list (map fe_size (take k F)) + sum_list (map fe_size (drop k F))
      = sum_list (map fe_size (take k F @ drop k F))"
    by (simp del: append_take_drop_id)
  with off show "fe_offset (F ! k) + sum_list (map fe_size (drop k F)) = sum_list (map fe_size F)"
    by simp
qed

text \<open>The number of bytes of a block that lie inside the torrent.\<close>

definition clip :: "file_storage \<Rightarrow> int \<Rightarrow> int \<Rightarrow> int" where
  "clip fs t sz = min sz (fs_total_size fs - t)"

lemma map_block_spec:
  assumes "fs_ok fs" and t: "t = piece * fs_piece_length fs + off"
    and "0 \<le> t" "t < fs_total_size fs" "0 \<le> sz" "sz < 2 ^ 31"
  shows "concat (map (slice_range (fs_files fs)) (map_block fs piece off sz))
           = [t .. t + clip fs t sz - 1]"
    and "\<forall>s\<in>set (map_block fs piece off sz). slice_ok (fs_files fs) s"
proof -
  let ?F = "fs_files fs"
  define k where "k = length (takeWhile (\<lambda>f. \<not> t < fe_offset f) ?F) - 1"
  have ok: "contiguous 0 ?F" "t < sum_list (map fe_size ?F)" "t < 2 ^ 48" "?F \<noteq> []"
    using assms by (auto simp: fs_ok_def)
  note ub = upper_bound_file [OF ok(1) ok(4) \<open>0 \<le> t\<close> ok(2) k_def]
  have sz': "(if t + sz > fs_total_size fs then cint (fs_total_size fs - t) else sz) = clip fs t sz"
    using assms by (auto simp: clip_def min_def)
  have mb: "map_block fs piece off sz
      = map_block_loop k (drop k ?F) (t - fe_offset (?F ! k)) (clip fs t sz)"
    using ok \<open>0 \<le> t\<close> by (simp add: map_block_def Let_def t [symmetric] sz' k_def)
  have tot: "fs_total_size fs = sum_list (map fe_size ?F)"
    using assms(1) by (simp add: fs_ok_def)
  have "0 \<le> clip fs t sz" "t + clip fs t sz \<le> fs_total_size fs"
    using assms by (auto simp: clip_def)
  then show "concat (map (slice_range ?F) (map_block fs piece off sz)) = [t .. t + clip fs t sz - 1]"
    using map_block_loop_ranges [OF refl ub(2), of "t - fe_offset (?F ! k)" "clip fs t sz"] ub tot
    by (simp add: mb)
  show "\<forall>s\<in>set (map_block fs piece off sz). slice_ok ?F s"
    using map_block_loop_slices [OF refl, of "t - fe_offset (?F ! k)" k ?F "clip fs t sz"] ub
      contiguous_sizes [OF ok(1)] set_drop_subset [of k ?F]
    by (auto simp: mb)
qed

end
