(* ===== verification/File_Handler.thy ===== *)
theory File_Handler
  imports Byte_Buffer Libtorrent
begin

section \<open>Output files\<close>

text \<open>
  \<open>src/file_handler.cpp\<close>: one output stream per file of the torrent. A \<open>std::ofstream\<close> is the
  contents of the file, the write position and whether the stream has failed; a failed
  stream ignores every later call.
\<close>

record ofstream =
  of_data :: "byte list"
  of_pos :: int
  of_fail :: bool

definition ofs_open :: "bool \<Rightarrow> ofstream" where
  "ofs_open ok = \<lparr>of_data = [], of_pos = 0, of_fail = (\<not> ok)\<rparr>"

definition seekp :: "int \<Rightarrow> ofstream \<Rightarrow> ofstream" where
  "seekp pos f =
     (if of_fail f then f
      else if pos < 0 then f\<lparr>of_fail := True\<rparr>
      else f\<lparr>of_pos := pos\<rparr>)"

text \<open>Bytes written past the end leave a hole of zeros behind.\<close>

definition overwrite :: "byte list \<Rightarrow> nat \<Rightarrow> byte list \<Rightarrow> byte list" where
  "overwrite xs p ys = take p (xs @ replicate (p - length xs) 0) @ ys @ drop (p + length ys) xs"

definition ofs_write :: "byte list \<Rightarrow> ofstream \<Rightarrow> ofstream" where
  "ofs_write bs f =
     (if of_fail f then f
      else f\<lparr>of_data := overwrite (of_data f) (nat (of_pos f)) bs,
             of_pos := of_pos f + int (length bs)\<rparr>)"

record file_handler =
  fh_index :: nat
  fh_file :: ofstream

definition file_handler_ctor :: "(string \<Rightarrow> bool) \<Rightarrow> nat \<Rightarrow> torrent_info \<Rightarrow> file_handler" where
  "file_handler_ctor open_ok index info =
     (let file = ofs_open (open_ok (file_path (ti_files info) index));
          file = seekp (file_size (ti_files info) index - 1) file
      in \<lparr>fh_index = index, fh_file = ofs_write [0] file\<rparr>)"

text \<open>
  The first overload of \<open>write\<close>, which nothing calls. The offset is computed in
  \<open>uint32_t\<close>; the remainder by zero is undefined.
\<close>

definition file_handler_write_key ::
  "'b byte_buffer_api \<Rightarrow> torrent_info \<Rightarrow> file_handler \<Rightarrow> u32 \<times> u32 \<Rightarrow> 'b \<Rightarrow> file_handler res" where
  "file_handler_write_key B info fh pos data =
     (let piece_len = fs_piece_length (ti_files info);
          file_len = fs_total_size (ti_files info);
          offset = word_of_int piece_len * fst pos + snd pos :: u32;
          rest = (file_len - uint offset) mod 2 ^ 64
      in if rest = 0 then Inl (Undefined ''remainder by zero'')
         else
           let write_len = nat (int (bb_get_read_available B data) mod rest)
           in Inr (fh\<lparr>fh_file := ofs_write (at_ptr (bb_get_read B data) 0 write_len)
                       (seekp (uint offset) (fh_file fh))\<rparr>))"

definition file_handler_write ::
  "'b byte_buffer_api \<Rightarrow> file_handler \<Rightarrow> 'b \<Rightarrow> int \<Rightarrow> int \<Rightarrow> file_handler \<times> 'b" where
  "file_handler_write B fh data offset sz =
     (let file = seekp offset (fh_file fh);
          (p, data) = bb_read B (nat sz) data
      in (fh\<lparr>fh_file := ofs_write (at_ptr p 0 (nat sz)) file\<rparr>, data))"

subsection \<open>Writing inside a file of its final size\<close>

text \<open>\<open>splice xs p ys\<close> replaces the bytes of \<open>xs\<close> from \<open>p\<close> on by \<open>ys\<close>.\<close>

definition splice :: "'a list \<Rightarrow> nat \<Rightarrow> 'a list \<Rightarrow> 'a list" where
  "splice xs p ys = take p xs @ ys @ drop (p + length ys) xs"

lemma length_splice [simp]: "p + length ys \<le> length xs \<Longrightarrow> length (splice xs p ys) = length xs"
  by (simp add: splice_def)

lemma splice_Nil [simp]: "splice xs p [] = xs"
  by (simp add: splice_def)

lemma overwrite_splice: "p + length ys \<le> length xs \<Longrightarrow> overwrite xs p ys = splice xs p ys"
  by (simp add: overwrite_def splice_def)

lemma splice_splice:
  "p + length ys + length zs \<le> length xs \<Longrightarrow>
     splice (splice xs p ys) (p + length ys) zs = splice xs p (ys @ zs)"
  by (simp add: splice_def ac_simps)

lemma splice_append1:
  "p + length ys \<le> length xs \<Longrightarrow> splice (xs @ us) p ys = splice xs p ys @ us"
  by (simp add: splice_def)

lemma splice_append2:
  "length us = n \<Longrightarrow> splice (us @ xs) (n + p) ys = us @ splice xs p ys"
  by (simp add: splice_def)

lemma nth_splice:
  assumes "p + length ys \<le> length xs" "i < length xs"
  shows "splice xs p ys ! i = (if p \<le> i \<and> i < p + length ys then ys ! (i - p) else xs ! i)"
  using assms by (auto simp: splice_def nth_append min_def)

text \<open>
  A handler is ready when its file has the given size and, unless that is zero, its stream
  works. (The constructor seeks to position -1 of an empty file, which fails the stream.)
\<close>

definition fh_ready :: "int \<Rightarrow> file_handler \<Rightarrow> bool" where
  "fh_ready n fh \<longleftrightarrow>
     int (length (of_data (fh_file fh))) = n \<and> (0 < n \<longrightarrow> \<not> of_fail (fh_file fh))"

lemma file_handler_write_spec:
  assumes "bb_laws B" "fh_ready n fh" "0 \<le> off" "0 < sz" "off + sz \<le> n"
    and "nat sz \<le> length (rd B b)" and w: "file_handler_write B fh b off sz = (fh', b')"
  shows "fh_ready n fh'"
    and "of_data (fh_file fh') = splice (of_data (fh_file fh)) (nat off) (take (nat sz) (rd B b))"
    and "rd B b' = drop (nat sz) (rd B b)"
    and "fh_index fh' = fh_index fh"
proof -
  obtain p c where pc: "bb_read B (nat sz) b = (p, c)" by fastforce
  have p: "at_ptr p 0 (nat sz) = take (nat sz) (rd B b)" and c: "rd B c = drop (nat sz) (rd B b)"
    using bb_consume(2,3) [OF assms(1,6)] pc by simp_all
  have fit: "nat off + length (take (nat sz) (rd B b)) \<le> length (of_data (fh_file fh))"
    using assms(2-6) by (auto simp: fh_ready_def)
  have ok: "\<not> of_fail (fh_file fh)"
    using assms(2-5) by (simp add: fh_ready_def)
  have w': "fh' = fh\<lparr>fh_file := ofs_write (take (nat sz) (rd B b)) (seekp off (fh_file fh))\<rparr>" "b' = c"
    using w by (simp_all add: file_handler_write_def pc p)
  show "of_data (fh_file fh') = splice (of_data (fh_file fh)) (nat off) (take (nat sz) (rd B b))"
    using ok assms(3) fit by (simp add: w' ofs_write_def seekp_def overwrite_splice)
  then show "fh_ready n fh'"
    using ok assms(2,3) fit by (simp add: w' fh_ready_def ofs_write_def seekp_def)
  show "rd B b' = drop (nat sz) (rd B b)" "fh_index fh' = fh_index fh"
    by (simp_all add: w' c)
qed

lemma file_handler_ctor_ready:
  assumes "open_ok (file_path (ti_files info) i)" "0 \<le> file_size (ti_files info) i"
  shows "fh_ready (file_size (ti_files info) i) (file_handler_ctor open_ok i info)"
  using assms
  by (auto simp: file_handler_ctor_def fh_ready_def ofs_open_def seekp_def ofs_write_def
      overwrite_def Let_def)

end
