(* ===== verification/Msg_Factory.thy ===== *)
theory Msg_Factory
  imports Byte_Buffer Libtorrent
begin

section \<open>Protocol messages\<close>

text \<open>
  \<open>msg_factory\<close> writes the peer wire messages and the UDP tracker requests into a byte
  buffer; the constructor of \<open>message\<close> takes a received peer wire message apart. The
  definitions follow \<open>src/msg_factory.cpp\<close>, \<open>include/message.hpp\<close>, \<open>include/messages.hpp\<close> and
  \<open>include/bittorrent_protocol.hpp\<close>; the lemmas give the bytes of every message and show that
  a message written by the factory is read back as what was written.
\<close>

subsection \<open>Data\<close>

definition V1 :: string where
  "V1 = ''BitTorrent protocol''"

datatype message_id =
    KEEP_ALIVE | CHOKE | UNCHOKE | INTERESTED | NOT_INTERESTED | HAVE | BITFIELD
  | REQUEST | PIECE | CANCEL | PORT | UNKNOWN byte

fun id_code :: "message_id \<Rightarrow> byte" where
  "id_code KEEP_ALIVE = -1"
| "id_code CHOKE = 0"
| "id_code UNCHOKE = 1"
| "id_code INTERESTED = 2"
| "id_code NOT_INTERESTED = 3"
| "id_code HAVE = 4"
| "id_code BITFIELD = 5"
| "id_code REQUEST = 6"
| "id_code PIECE = 7"
| "id_code CANCEL = 8"
| "id_code PORT = 9"
| "id_code (UNKNOWN b) = b"

text \<open>
  \<open>static_cast<id>(buffer.peek_8(4))\<close>: a byte above 9 names no enumerator and reaches the
  \<open>default\<close> branch of every \<open>switch\<close>.
\<close>

definition id_of_byte :: "byte \<Rightarrow> message_id" where
  "id_of_byte b =
     (if b = 0 then CHOKE else if b = 1 then UNCHOKE else if b = 2 then INTERESTED
      else if b = 3 then NOT_INTERESTED else if b = 4 then HAVE else if b = 5 then BITFIELD
      else if b = 6 then REQUEST else if b = 7 then PIECE else if b = 8 then CANCEL
      else if b = 9 then PORT else UNKNOWN b)"

record msg_request =
  rq_index :: u32
  rq_begin :: u32
  rq_length :: u32

record 'b msg_piece =
  pc_index :: u32
  pc_begin :: u32
  pc_block :: 'b

record 'b message =
  msg_id :: message_id
  msg_payload :: 'b

subsection \<open>Hexadecimal strings\<close>

definition char_to_int :: "char \<Rightarrow> int" where
  "char_to_int input =
     (let c = of_char input in
      if of_char CHR ''0'' \<le> c \<and> c \<le> of_char CHR ''9'' then c - of_char CHR ''0''
      else if of_char CHR ''A'' \<le> c \<and> c \<le> of_char CHR ''F'' then c - of_char CHR ''A'' + 10
      else if of_char CHR ''a'' \<le> c \<and> c \<le> of_char CHR ''f'' then c - of_char CHR ''a'' + 10
      else 0)"

definition hex_str_to_byte_buff :: "string \<Rightarrow> byte list" where
  "hex_str_to_byte_buff hex =
     map (\<lambda>k. word_of_int (16 * char_to_int (hex ! (2 * k)) + char_to_int (hex ! (2 * k + 1))))
       [0..<length hex div 2]"

subsection \<open>The factory\<close>

definition handshake :: "'b byte_buffer_api \<Rightarrow> (nat \<Rightarrow> byte) \<Rightarrow> 'b \<Rightarrow> string \<Rightarrow> string \<Rightarrow> 'b" where
  "handshake B oob buffer peer_id info_hash =
     (let STR_LEN = word_of_nat (length V1) :: byte;
          buffer = bb_write_8 B STR_LEN buffer;
          buffer = bb_write B (read_mem oob (bytes_of V1) (unat STR_LEN)) buffer;
          buffer = bb_write_64 B 0 buffer;
          buffer = bb_write B (read_mem oob (hex_str_to_byte_buff info_hash) 20) buffer
      in bb_write B (read_mem oob (bytes_of peer_id) 20) buffer)"

definition new_handshake :: "'b byte_buffer_api \<Rightarrow> (nat \<Rightarrow> byte) \<Rightarrow> string \<Rightarrow> string \<Rightarrow> 'b" where
  "new_handshake B oob peer_id info_hash = handshake B oob (bb_new B) peer_id info_hash"

definition keep_alive :: "'b byte_buffer_api \<Rightarrow> 'b \<Rightarrow> 'b" where
  "keep_alive B buffer = bb_write_32 B 0 buffer"

definition choke :: "'b byte_buffer_api \<Rightarrow> 'b \<Rightarrow> 'b" where
  "choke B buffer = bb_write_8 B (id_code CHOKE) (bb_write_32 B 1 buffer)"

definition unchoke :: "'b byte_buffer_api \<Rightarrow> 'b \<Rightarrow> 'b" where
  "unchoke B buffer = bb_write_8 B (id_code UNCHOKE) (bb_write_32 B 1 buffer)"

definition interested :: "'b byte_buffer_api \<Rightarrow> 'b \<Rightarrow> 'b" where
  "interested B buffer = bb_write_8 B (id_code INTERESTED) (bb_write_32 B 1 buffer)"

definition new_interested :: "'b byte_buffer_api \<Rightarrow> 'b" where
  "new_interested B = interested B (bb_new B)"

definition not_interested :: "'b byte_buffer_api \<Rightarrow> 'b \<Rightarrow> 'b" where
  "not_interested B buffer = bb_write_8 B (id_code NOT_INTERESTED) (bb_write_32 B 1 buffer)"

definition request :: "'b byte_buffer_api \<Rightarrow> 'b \<Rightarrow> msg_request \<Rightarrow> 'b" where
  "request B buffer req =
     (let buffer = bb_write_32 B 13 buffer;
          buffer = bb_write_8 B (id_code REQUEST) buffer;
          buffer = bb_write_32 B (rq_index req) buffer;
          buffer = bb_write_32 B (rq_begin req) buffer
      in bb_write_32 B (rq_length req) buffer)"

definition new_request :: "'b byte_buffer_api \<Rightarrow> msg_request \<Rightarrow> 'b" where
  "new_request B req = request B (bb_new B) req"

definition piece :: "'b byte_buffer_api \<Rightarrow> 'b \<Rightarrow> 'b msg_piece \<Rightarrow> 'b" where
  "piece B buffer p =
     (let n = bb_get_read_available B (pc_block p);
          buffer = bb_write_32 B (word_of_nat (9 + n)) buffer;
          buffer = bb_write_8 B (id_code PIECE) buffer;
          buffer = bb_write_32 B (pc_index p) buffer;
          buffer = bb_write_32 B (pc_begin p) buffer
      in bb_write B (at_ptr (bb_get_read B (pc_block p)) 0 n) buffer)"

definition connect :: "'b byte_buffer_api \<Rightarrow> 'b \<Rightarrow> u32 \<Rightarrow> 'b" where
  "connect B buffer transaction_id =
     (let buffer = bb_write_64 B 0x41727101980 buffer;
          buffer = bb_write_32 B 0 buffer
      in bb_write_32 B transaction_id buffer)"

definition new_connect :: "'b byte_buffer_api \<Rightarrow> u32 \<Rightarrow> 'b" where
  "new_connect B transaction_id = connect B (bb_new B) transaction_id"

definition announce ::
  "'b byte_buffer_api \<Rightarrow> (nat \<Rightarrow> byte) \<Rightarrow> 'b \<Rightarrow> u64 \<Rightarrow> u32 \<Rightarrow> string \<Rightarrow> string \<Rightarrow> u64 \<Rightarrow> u32 \<Rightarrow> u16 \<Rightarrow> 'b" where
  "announce B oob buffer connection_id transaction_id info_hash peer_id left key port =
     (let buffer = bb_write_64 B connection_id buffer;
          buffer = bb_write_32 B 1 buffer;
          buffer = bb_write_32 B transaction_id buffer;
          buffer = bb_write B (read_mem oob (hex_str_to_byte_buff info_hash) 20) buffer;
          buffer = bb_write B (read_mem oob (bytes_of peer_id) 20) buffer;
          buffer = bb_write_64 B 0 buffer;
          buffer = bb_write_64 B left buffer;
          buffer = bb_write_64 B 0 buffer;
          buffer = bb_write_32 B 0 buffer;
          buffer = bb_write_32 B 0 buffer;
          buffer = bb_write_32 B key buffer;
          buffer = bb_write_32 B (-1) buffer
      in bb_write_16 B port buffer)"

subsection \<open>Taking a received message apart\<close>

definition message_ctor :: "'b byte_buffer_api \<Rightarrow> 'b \<Rightarrow> 'b message" where
  "message_ctor B buffer =
     (let mid = (if bb_peek_32 B buffer = 0 then KEEP_ALIVE else id_of_byte (bb_peek_8 B 4 buffer));
          payload = bb_new B;
          payload = (if mid \<noteq> KEEP_ALIVE
                     then bb_write B (at_ptr (bb_get_read B buffer) 5
                            (unat (bb_peek_32 B buffer - 1))) payload
                     else payload)
      in \<lparr>msg_id = mid, msg_payload = payload\<rparr>)"

subsection \<open>The bytes of the messages\<close>

text \<open>A peer wire message: the length prefix, the id, the payload.\<close>

definition frame :: "message_id \<Rightarrow> byte list \<Rightarrow> byte list" where
  "frame mid pl = be 4 (word_of_nat (Suc (length pl)) :: u32) @ id_code mid # pl"

lemma length_frame [simp]: "length (frame mid pl) = 5 + length pl"
  by (simp add: frame_def)

lemma rd_simple_messages:
  assumes "bb_laws B"
  shows "rd B (choke B b) = rd B b @ frame CHOKE []"
    and "rd B (unchoke B b) = rd B b @ frame UNCHOKE []"
    and "rd B (interested B b) = rd B b @ frame INTERESTED []"
    and "rd B (not_interested B b) = rd B b @ frame NOT_INTERESTED []"
    and "rd B (keep_alive B b) = rd B b @ be 4 (0 :: u32)"
  by (simp_all add: choke_def unchoke_def interested_def not_interested_def keep_alive_def
      frame_def bb_rd [OF assms] del: be.simps)

lemma rd_request:
  assumes "bb_laws B"
  shows "rd B (request B b req)
    = rd B b @ frame REQUEST (be 4 (rq_index req) @ be 4 (rq_begin req) @ be 4 (rq_length req))"
  by (simp add: request_def frame_def bb_rd [OF assms])

lemma rd_piece:
  assumes "bb_laws B"
  shows "rd B (piece B b p)
    = rd B b @ frame PIECE (be 4 (pc_index p) @ be 4 (pc_begin p) @ rd B (pc_block p))"
  by (simp add: piece_def frame_def bb_rd [OF assms] at_ptr_rd add.commute [of 9] add.assoc)

lemma rd_connect:
  assumes "bb_laws B"
  shows "rd B (connect B b t)
    = rd B b @ be 8 (0x41727101980 :: u64) @ be 4 (0 :: u32) @ be 4 t"
  by (simp add: connect_def bb_rd [OF assms] del: be.simps)

lemma rd_announce:
  assumes "bb_laws B"
  shows "rd B (announce B oob b cid tid info_hash peer_id left key port)
    = rd B b @ be 8 cid @ be 4 (1 :: u32) @ be 4 tid
      @ read_mem oob (hex_str_to_byte_buff info_hash) 20 @ read_mem oob (bytes_of peer_id) 20
      @ be 8 (0 :: u64) @ be 8 left @ be 8 (0 :: u64) @ be 4 (0 :: u32) @ be 4 (0 :: u32)
      @ be 4 key @ be 4 (-1 :: u32) @ be 2 port"
  by (simp add: announce_def bb_rd [OF assms] del: be.simps)

lemma rd_handshake:
  assumes "bb_laws B"
  shows "rd B (handshake B oob b peer_id info_hash)
    = rd B b @ 19 # bytes_of V1 @ be 8 (0 :: u64)
      @ read_mem oob (hex_str_to_byte_buff info_hash) 20 @ read_mem oob (bytes_of peer_id) 20"
  by (simp add: handshake_def Let_def bb_rd [OF assms] V1_def read_mem_in_range del: be.simps)

subsection \<open>Reading them back\<close>

lemma id_of_byte_code [simp]:
  "mid \<noteq> KEEP_ALIVE \<Longrightarrow> (\<forall>b. mid \<noteq> UNKNOWN b) \<Longrightarrow> id_of_byte (id_code mid) = mid"
  by (cases mid) (auto simp: id_of_byte_def)

lemma id_of_byte_not_KEEP_ALIVE [simp]: "id_of_byte b \<noteq> KEEP_ALIVE"
  by (simp add: id_of_byte_def)

text \<open>A received slice \<open>xs\<close> whose length prefix is right is an id and the bytes after it.\<close>

lemma message_ctor_rd:
  fixes n :: u32
  assumes "bb_laws B" and rd: "rd B b = be 4 n @ mid # pl"
    and n: "n = word_of_nat (Suc (length pl))" and fits: "Suc (length pl) < 2 ^ 32"
  shows "msg_id (message_ctor B b) = id_of_byte mid"
    and "rd B (msg_payload (message_ctor B b)) = pl"
proof -
  have pk: "bb_peek_32 B b = n" "bb_peek_8 B 4 b = mid"
    using rd by (simp_all add: bb_peek [OF assms(1)] nth_append)
  have un: "unat n = Suc (length pl)"
    using fits unfolding n by (subst unat_of_nat) (simp del: of_nat_Suc)
  then have n0: "n \<noteq> 0" by auto
  then have un1: "unat (n - 1) = length pl"
    using un by (simp add: unat_minus_one)
  show "msg_id (message_ctor B b) = id_of_byte mid"
    using n0 by (simp add: message_ctor_def pk)
  show "rd B (msg_payload (message_ctor B b)) = pl"
    using n0 un1 rd by (simp add: message_ctor_def pk bb_rd [OF assms(1)] at_ptr_rd)
qed

lemma message_ctor_frame:
  assumes "bb_laws B" "rd B b = frame mid pl" "Suc (length pl) < 2 ^ 32"
    and "mid \<noteq> KEEP_ALIVE" "\<forall>b. mid \<noteq> UNKNOWN b"
  shows "msg_id (message_ctor B b) = mid" "rd B (msg_payload (message_ctor B b)) = pl"
  using message_ctor_rd [OF assms(1) _ refl, of b pl "id_code mid"] assms(2-)
  by (simp_all add: frame_def)

lemma message_ctor_keep_alive:
  assumes "bb_laws B" "rd B b = be 4 (0 :: u32)"
  shows "msg_id (message_ctor B b) = KEEP_ALIVE" "rd B (msg_payload (message_ctor B b)) = []"
  using assms(2) by (simp_all add: message_ctor_def bb_peek [OF assms(1)] bb_rd [OF assms(1)] del: be.simps)

subsection \<open>The hexadecimal round trip\<close>

lemma char_to_int_hex_chars: "n < 16 \<Longrightarrow> char_to_int (hex_chars ! n) = int n"
proof -
  have "\<forall>n\<in>set [0..<16]. char_to_int (hex_chars ! n) = int n"
    by code_simp
  then show "n < 16 \<Longrightarrow> char_to_int (hex_chars ! n) = int n" by simp
qed

lemma low_nibble: "b AND 0xf = take_bit 4 b" for b :: byte
  by (simp add: take_bit_eq_mask mask_eq_exp_minus_1)

lemma nibbles: "16 * drop_bit 4 b + (b AND 0xf) = b" for b :: byte
  using bits_ident [of 4 b] by (simp add: low_nibble push_bit_eq_mult mult.commute)

lemma nibble_bounds: "unat (drop_bit 4 b) < 16" "unat (b AND 0xf) < 16" for b :: byte
proof -
  have "unat b < 256"
    using unsigned_less [where 'a = nat, of b] by simp
  then show "unat (drop_bit 4 b) < 16"
    by (simp only: unsigned_drop_bit_eq) (simp add: drop_bit_eq_div take_bit_eq_mod)
  show "unat (b AND 0xf) < 16"
    by (simp only: low_nibble unsigned_take_bit_eq) (simp add: take_bit_eq_mod)
qed

lemma hex_str_to_byte_buff_Cons:
  "hex_str_to_byte_buff (c # d # cs)
     = word_of_int (16 * char_to_int c + char_to_int d) # hex_str_to_byte_buff cs"
  by (simp add: hex_str_to_byte_buff_def upt_conv_Cons map_Suc_upt [symmetric] del: upt_Suc)

lemma hex_roundtrip_aux: "hex_str_to_byte_buff (to_hex bs) = bs"
proof (induction bs)
  case Nil
  then show ?case by (simp add: hex_str_to_byte_buff_def)
next
  case (Cons b bs)
  then show ?case
    by (simp add: hex_str_to_byte_buff_Cons char_to_int_hex_chars nibble_bounds nibbles)
qed

end
