(* ===== verification/Piece_Handler.thy ===== *)
theory Piece_Handler
  imports Complex_Main File_Handler Msg_Factory "HOL-Library.Multiset" "HOL-Library.Sublist"
begin

section \<open>The piece handler\<close>

text \<open>
  \<open>src/piece_handler.cpp\<close> and \<open>include/pieces.hpp\<close>: which peer has which piece, which blocks are
  queued for request, which have been received, and the files complete pieces are written
  to. The record \<open>externals\<close> holds what the code gets from outside: the byte buffer, SHA-1
  (\<open>lt::hasher\<close>, which hashes the concatenation of what it is fed), the order in which an
  \<open>unordered_set\<close> is walked, memory past the end of an object, and whether an output file
  can be opened. An \<open>unordered_map\<close> is a map; \<open>operator[]\<close> inserts a default entry
  (\<open>touch\<close>); an \<open>unordered_set\<close> is the list of its elements without repetition.
\<close>

record 'b externals =
  ex_bb :: "'b byte_buffer_api"
  ex_sha1 :: "byte list \<Rightarrow> byte list"
  ex_iter :: "u32 list \<Rightarrow> u32 list"
  ex_oob :: "nat \<Rightarrow> byte"
  ex_open_ok :: "string \<Rightarrow> bool"

definition iter_laws :: "'b externals \<Rightarrow> bool" where
  "iter_laws E \<longleftrightarrow> (\<forall>xs. mset (ex_iter E xs) = mset xs)"

subsection \<open>Data\<close>

type_synonym piece_received_key = "u32 \<times> u32"

record 'b received_block =
  rb_received :: bool
  rb_block :: 'b

record 'b piece_handler =
  ph_have :: "string \<rightharpoonup> u32 list"
  ph_requests :: "string \<rightharpoonup> msg_request list"
  ph_received :: "piece_received_key \<rightharpoonup> 'b received_block"
  ph_files :: "string \<rightharpoonup> file_handler"
  ph_written :: int

definition key_eq :: "piece_received_key \<Rightarrow> piece_received_key \<Rightarrow> bool" where
  "key_eq k k' \<longleftrightarrow> fst k = fst k' \<and> snd k = snd k'"

text \<open>\<open>std::hash\<close> of the key on a machine where \<open>std::hash<uint32_t>\<close> is the identity.\<close>

definition key_hash :: "piece_received_key \<Rightarrow> u64" where
  "key_hash k = (let h1 = ucast (fst k); h2 = ucast (snd k) in h1 XOR push_bit 1 h2)"

definition BLOCK_LEN :: int where
  "BLOCK_LEN = 2 ^ 14"

definition touch :: "'b byte_buffer_api \<Rightarrow> (piece_received_key \<rightharpoonup> 'b received_block)
    \<Rightarrow> piece_received_key \<Rightarrow> (piece_received_key \<rightharpoonup> 'b received_block)" where
  "touch B m k =
     (case m k of None \<Rightarrow> m(k \<mapsto> \<lparr>rb_received = False, rb_block = bb_new B\<rparr>) | Some _ \<Rightarrow> m)"

definition lookup_or :: "'v \<Rightarrow> ('k \<rightharpoonup> 'v) \<Rightarrow> 'k \<Rightarrow> 'v" where
  "lookup_or d m k = (case m k of None \<Rightarrow> d | Some v \<Rightarrow> v)"

definition block_at :: "'b byte_buffer_api \<Rightarrow> (piece_received_key \<rightharpoonup> 'b received_block)
    \<Rightarrow> piece_received_key \<Rightarrow> 'b received_block" where
  "block_at B m k = lookup_or \<lparr>rb_received = False, rb_block = bb_new B\<rparr> m k"

subsection \<open>Directories\<close>

text \<open>
  \<open>build_dirs\<close> inserts each directory into \<open>dirs\<close> when it creates it, so the list of
  directories is also the list of calls to \<open>mkdir\<close>, in order.
\<close>

function build_dirs_loop :: "string list \<Rightarrow> string \<Rightarrow> string \<Rightarrow> string list" where
  "build_dirs_loop dirs current_dir path =
     (if CHR ''/'' \<in> set path then
        let current_dir = current_dir @ takeWhile (\<lambda>c. c \<noteq> CHR ''/'') path;
            dirs = (if current_dir \<in> set dirs then dirs else dirs @ [current_dir])
        in build_dirs_loop dirs (current_dir @ ''/'') (tl (dropWhile (\<lambda>c. c \<noteq> CHR ''/'') path))
      else dirs)"
  by pat_completeness auto
termination
proof (relation "measure (\<lambda>(dirs, current_dir, path). length path)")
  fix dirs :: "string list" and current_dir path x xa
  assume "CHR ''/'' \<in> set path"
  then have "dropWhile (\<lambda>c. c \<noteq> CHR ''/'') path \<noteq> []" by (auto simp: dropWhile_eq_Nil_conv)
  then have "length (tl (dropWhile (\<lambda>c. c \<noteq> CHR ''/'') path))
      < length (dropWhile (\<lambda>c. c \<noteq> CHR ''/'') path)"
    by simp
  also have "\<dots> \<le> length path" by (rule length_dropWhile_le)
  finally show "((xa, x @ ''/'', tl (dropWhile (\<lambda>c. c \<noteq> CHR ''/'') path)), dirs, current_dir, path)
      \<in> measure (\<lambda>(dirs, current_dir, path). length path)"
    by simp
qed simp

declare build_dirs_loop.simps [simp del]

definition build_dirs :: "string list \<Rightarrow> string \<Rightarrow> string list" where
  "build_dirs dirs path = build_dirs_loop dirs '''' path"

definition build_dir_tree :: "file_storage \<Rightarrow> string list" where
  "build_dir_tree fs = foldl (\<lambda>dirs i. build_dirs dirs (file_path fs i)) [] (file_range fs)"

subsection \<open>Construction\<close>

text \<open>\<open>emplace\<close> does nothing when the key is present.\<close>

definition emplace :: "('k \<rightharpoonup> 'v) \<Rightarrow> 'k \<Rightarrow> 'v \<Rightarrow> ('k \<rightharpoonup> 'v)" where
  "emplace m k v = (case m k of None \<Rightarrow> m(k \<mapsto> v) | Some _ \<Rightarrow> m)"

definition piece_handler_ctor :: "'b externals \<Rightarrow> torrent_info \<Rightarrow> 'b piece_handler \<times> string list" where
  "piece_handler_ctor E info =
     (let fs = ti_files info;
          dirs = build_dir_tree fs;
          files = foldl (\<lambda>m i. emplace m (file_name fs i) (file_handler_ctor (ex_open_ok E) i info))
                    Map.empty (file_range fs)
      in (\<lparr>ph_have = Map.empty, ph_requests = Map.empty, ph_received = Map.empty,
           ph_files = files, ph_written = 0\<rparr>, dirs))"

subsection \<open>Requests\<close>

text \<open>
  \<open>std::ceil(piece_size / static_cast<double>(BLOCK_LEN))\<close>: the quotient of a 32-bit integer
  by a power of two is exact in double precision.
\<close>

definition blocks_per_piece :: "int \<Rightarrow> int" where
  "blocks_per_piece piece_sz = - ((- piece_sz) div BLOCK_LEN)"

definition block_len :: "int \<Rightarrow> nat \<Rightarrow> int" where
  "block_len piece_sz block_ind =
     (if int block_ind < blocks_per_piece piece_sz - 1 \<or> piece_sz mod BLOCK_LEN = 0
      then BLOCK_LEN else piece_sz mod BLOCK_LEN)"

definition block_begin :: "nat \<Rightarrow> u32" where
  "block_begin block_ind = word_of_nat block_ind * word_of_int BLOCK_LEN"

definition add_block ::
  "'b externals \<Rightarrow> string \<Rightarrow> u32 \<Rightarrow> int \<Rightarrow> nat \<Rightarrow> 'b piece_handler \<Rightarrow> 'b piece_handler" where
  "add_block E pid index piece_sz block_ind ph =
     (let key = (index, block_begin block_ind);
          ph = ph\<lparr>ph_received := touch (ex_bb E) (ph_received ph) key\<rparr>
      in if \<not> rb_received (block_at (ex_bb E) (ph_received ph) key)
         then ph\<lparr>ph_requests := (ph_requests ph)(pid \<mapsto> lookup_or [] (ph_requests ph) pid @
                  [\<lparr>rq_index = index, rq_begin = block_begin block_ind,
                    rq_length = word_of_int (block_len piece_sz block_ind)\<rparr>])\<rparr>
         else ph)"

definition add_to_queue ::
  "'b externals \<Rightarrow> torrent_info \<Rightarrow> string \<Rightarrow> u32 \<Rightarrow> 'b piece_handler \<Rightarrow> 'b piece_handler" where
  "add_to_queue E ti pid index ph =
     (let piece_sz = piece_size (ti_files ti) (sint index);
          ph = ph\<lparr>ph_requests := (ph_requests ph)(pid \<mapsto> lookup_or [] (ph_requests ph) pid)\<rparr>
      in fold (add_block E pid index piece_sz) [0..<nat (blocks_per_piece piece_sz)] ph)"

definition have_index ::
  "'b externals \<Rightarrow> torrent_info \<Rightarrow> string \<Rightarrow> u32 \<Rightarrow> 'b piece_handler \<Rightarrow> 'b piece_handler" where
  "have_index E ti pid index ph =
     (let have_set = lookup_or [] (ph_have ph) pid in
      if index \<notin> set have_set
      then add_to_queue E ti pid index (ph\<lparr>ph_have := (ph_have ph)(pid \<mapsto> have_set @ [index])\<rparr>)
      else ph\<lparr>ph_have := (ph_have ph)(pid \<mapsto> have_set)\<rparr>)"

text \<open>The bits of one byte of a bitfield, from the most significant one.\<close>

definition have_byte ::
  "'b externals \<Rightarrow> torrent_info \<Rightarrow> string \<Rightarrow> nat \<Rightarrow> byte \<Rightarrow> 'b piece_handler \<Rightarrow> 'b piece_handler" where
  "have_byte E ti pid index_offset bits ph =
     fold (\<lambda>i ph. if bit bits i
                  then have_index E ti pid (word_of_nat (index_offset * 8 + (8 - i - 1))) ph
                  else ph)
       (rev [0..<8]) ph"

text \<open>
  The loop over a bitfield reads one byte per round. Its fuel is the number of bytes the
  buffer holds at the start, and each round takes one of them.
\<close>

fun have_bitfield_loop ::
  "nat \<Rightarrow> 'b externals \<Rightarrow> torrent_info \<Rightarrow> string \<Rightarrow> nat \<Rightarrow> 'b \<Rightarrow> 'b piece_handler \<Rightarrow> 'b \<times> 'b piece_handler" where
  "have_bitfield_loop 0 E ti pid index_offset bitfield ph = (bitfield, ph)"
| "have_bitfield_loop (Suc fuel) E ti pid index_offset bitfield ph =
     (if bb_get_read_available (ex_bb E) bitfield > 0 then
        let (bits, bitfield) = bb_read_8 (ex_bb E) bitfield
        in have_bitfield_loop fuel E ti pid (Suc index_offset) bitfield
             (have_byte E ti pid index_offset bits ph)
      else (bitfield, ph))"

definition have_bitfield ::
  "'b externals \<Rightarrow> torrent_info \<Rightarrow> string \<Rightarrow> 'b \<Rightarrow> 'b piece_handler \<Rightarrow> 'b \<times> 'b piece_handler" where
  "have_bitfield E ti pid bitfield ph =
     have_bitfield_loop (bb_get_read_available (ex_bb E) bitfield) E ti pid 0 bitfield ph"

definition rebuild_queue ::
  "'b externals \<Rightarrow> torrent_info \<Rightarrow> string \<Rightarrow> 'b piece_handler \<Rightarrow> bool \<times> 'b piece_handler" where
  "rebuild_queue E ti pid ph =
     (let have_set = lookup_or [] (ph_have ph) pid;
          ph = ph\<lparr>ph_have := (ph_have ph)(pid \<mapsto> have_set)\<rparr>;
          ph = fold (add_to_queue E ti pid) (ex_iter E have_set) ph;
          ph = ph\<lparr>ph_requests := (ph_requests ph)(pid \<mapsto> lookup_or [] (ph_requests ph) pid)\<rparr>
      in (lookup_or [] (ph_requests ph) pid \<noteq> [], ph))"

text \<open>
  The \<open>do\<close> loop of \<open>get_piece_request\<close> on a queue that is not empty: the last request taken,
  whether its block has been received, what is left of the queue.
\<close>

fun pop_requests ::
  "'b byte_buffer_api \<Rightarrow> msg_request list \<Rightarrow> (piece_received_key \<rightharpoonup> 'b received_block)
     \<Rightarrow> bool \<times> msg_request \<times> msg_request list \<times> (piece_received_key \<rightharpoonup> 'b received_block)" where
  "pop_requests B [] m = (True, \<lparr>rq_index = 0, rq_begin = 0, rq_length = 0\<rparr>, [], m)"
| "pop_requests B (r # q) m =
     (let key = (rq_index r, rq_begin r);
          m = touch B m key;
          already = rb_received (block_at B m key)
      in if already \<and> q \<noteq> [] then pop_requests B q m else (already, r, q, m))"

definition get_piece_request ::
  "'b externals \<Rightarrow> torrent_info \<Rightarrow> string \<Rightarrow> 'b piece_handler \<Rightarrow> (bool \<times> msg_request) \<times> 'b piece_handler" where
  "get_piece_request E ti pid ph =
     (let ph = ph\<lparr>ph_requests := (ph_requests ph)(pid \<mapsto> lookup_or [] (ph_requests ph) pid)\<rparr>;
          (ok, ph) = (if lookup_or [] (ph_requests ph) pid = []
                      then rebuild_queue E ti pid ph else (True, ph))
      in if \<not> ok then ((False, \<lparr>rq_index = 0, rq_begin = 0, rq_length = 0\<rparr>), ph)
         else
           let (already, r, q, m) =
                 pop_requests (ex_bb E) (lookup_or [] (ph_requests ph) pid) (ph_received ph)
           in ((\<not> already, r),
               ph\<lparr>ph_requests := (ph_requests ph)(pid \<mapsto> q), ph_received := m\<rparr>))"

subsection \<open>Received blocks\<close>

definition is_done :: "torrent_info \<Rightarrow> 'b piece_handler \<Rightarrow> bool" where
  "is_done ti ph \<longleftrightarrow> ph_written ph \<ge> fs_num_pieces (ti_files ti)"

text \<open>The first loop of \<open>write_if_valid\<close>: \<open>None\<close> when a block is missing, else what was hashed.\<close>

fun hash_blocks ::
  "'b byte_buffer_api \<Rightarrow> u32 \<Rightarrow> nat list \<Rightarrow> byte list \<Rightarrow> (piece_received_key \<rightharpoonup> 'b received_block)
     \<Rightarrow> byte list option \<times> (piece_received_key \<rightharpoonup> 'b received_block)" where
  "hash_blocks B index [] hashed m = (Some hashed, m)"
| "hash_blocks B index (k # ks) hashed m =
     (let key = (index, block_begin k);
          m = touch B m key;
          block = block_at B m key
      in if \<not> rb_received block then (None, m)
         else hash_blocks B index ks
                (hashed @ at_ptr (bb_get_read B (rb_block block)) 0
                   (bb_get_read_available B (rb_block block))) m)"

text \<open>One slice of a block written to its file; the block's buffer is consumed.\<close>

definition write_slice ::
  "'b externals \<Rightarrow> torrent_info \<Rightarrow> piece_received_key \<Rightarrow> file_slice \<Rightarrow> 'b piece_handler \<Rightarrow> 'b piece_handler" where
  "write_slice E ti key sl ph =
     (let name = file_name (ti_files ti) (sl_file_index sl);
          block = block_at (ex_bb E) (ph_received ph) key
      in case ph_files ph name of
           None \<Rightarrow> ph
         | Some fh \<Rightarrow>
             (let (fh, b) = file_handler_write (ex_bb E) fh (rb_block block) (sl_offset sl) (sl_size sl)
              in ph\<lparr>ph_files := (ph_files ph)(name \<mapsto> fh),
                    ph_received := (ph_received ph)(key \<mapsto> block\<lparr>rb_block := b\<rparr>)\<rparr>))"

definition write_block ::
  "'b externals \<Rightarrow> torrent_info \<Rightarrow> u32 \<Rightarrow> nat \<Rightarrow> 'b piece_handler \<Rightarrow> 'b piece_handler" where
  "write_block E ti index k ph =
     (let key = (index, block_begin k);
          ph = ph\<lparr>ph_received := touch (ex_bb E) (ph_received ph) key\<rparr>
      in fold (write_slice E ti key)
           (map_block (ti_files ti) (sint (fst key)) (uint (snd key)) BLOCK_LEN) ph)"

definition write_if_valid ::
  "'b externals \<Rightarrow> torrent_info \<Rightarrow> u32 \<Rightarrow> 'b piece_handler \<Rightarrow> bool \<times> 'b piece_handler" where
  "write_if_valid E ti index ph =
     (let piece_sz = piece_size (ti_files ti) (sint index);
          ks = [0..<nat (blocks_per_piece piece_sz)];
          (hashed, m) = hash_blocks (ex_bb E) index ks [] (ph_received ph);
          ph = ph\<lparr>ph_received := m\<rparr>
      in case hashed of
           None \<Rightarrow> (False, ph)
         | Some bs \<Rightarrow>
             if ex_sha1 E bs = ti_hash_for_piece ti (sint index)
             then (let ph = fold (write_block E ti index) ks ph
                   in (True, ph\<lparr>ph_written := ph_written ph + 1\<rparr>))
             else (False, ph))"

text \<open>\<open>received\<close> also returns whether it calls \<open>session_.stop()\<close>.\<close>

definition received ::
  "'b externals \<Rightarrow> torrent_info \<Rightarrow> 'b \<Rightarrow> 'b piece_handler \<Rightarrow> bool \<times> 'b piece_handler" where
  "received E ti pc ph =
     (let B = ex_bb E;
          (index, pc) = bb_read_32 B pc;
          (begin, pc) = bb_read_32 B pc;
          key = (index, begin);
          ph = ph\<lparr>ph_received := touch B (ph_received ph) key\<rparr>;
          blk = block_at B (ph_received ph) key
      in if \<not> rb_received blk then
           (let b = bb_write B (at_ptr (bb_get_read B pc) 0 (bb_get_read_available B pc)) (rb_block blk);
                ph = ph\<lparr>ph_received :=
                  (ph_received ph)(key \<mapsto> \<lparr>rb_received = True, rb_block = b\<rparr>)\<rparr>;
                (ok, ph) = write_if_valid E ti index ph
            in (ok \<and> is_done ti ph, ph))
         else (False, ph))"

end
