(* ===== verification/Piece_Requests.thy ===== *)
theory Piece_Requests
  imports Piece_Handler
begin

section \<open>Requesting blocks\<close>

text \<open>
  What the operations of the piece handler that choose requests do: the blocks of a piece
  tile it, every queued request is for a block of a piece the peer has, and the request
  handed out is for a block that has not been received.
\<close>

subsection \<open>Which blocks have been received\<close>

definition rcvd :: "(piece_received_key \<rightharpoonup> 'b received_block) \<Rightarrow> piece_received_key \<Rightarrow> bool" where
  "rcvd m k \<longleftrightarrow> (case m k of None \<Rightarrow> False | Some b \<Rightarrow> rb_received b)"

lemma rb_received_block_at [simp]: "rb_received (block_at B m k) \<longleftrightarrow> rcvd m k"
  by (simp add: block_at_def lookup_or_def rcvd_def split: option.split)

lemma block_at_touch [simp]: "block_at B (touch B m k) = block_at B m"
  by (auto simp: block_at_def lookup_or_def touch_def fun_eq_iff split: option.split)

lemma rcvd_touch [simp]: "rcvd (touch B m k) = rcvd m"
  by (auto simp: rcvd_def touch_def fun_eq_iff split: option.split)

lemma rcvd_cong: "block_at B m = block_at B m' \<Longrightarrow> rcvd m = rcvd m'"
proof (rule ext)
  fix k assume "block_at B m = block_at B m'"
  then have "rb_received (block_at B m k) = rb_received (block_at B m' k)" by (simp only:)
  then show "rcvd m k = rcvd m' k" by (simp only: rb_received_block_at)
qed

definition queue :: "'b piece_handler \<Rightarrow> string \<Rightarrow> msg_request list" where
  "queue ph pid = lookup_or [] (ph_requests ph) pid"

definition haves :: "'b piece_handler \<Rightarrow> string \<Rightarrow> u32 list" where
  "haves ph pid = lookup_or [] (ph_have ph) pid"

abbreviation rq_key :: "msg_request \<Rightarrow> piece_received_key" where
  "rq_key r \<equiv> (rq_index r, rq_begin r)"

text \<open>
  Operations that choose requests are quiet: they change no block that has been received or
  its data, no file and no count.
\<close>

definition quiet :: "'b byte_buffer_api \<Rightarrow> 'b piece_handler \<Rightarrow> 'b piece_handler \<Rightarrow> bool" where
  "quiet B ph ph' \<longleftrightarrow>
     block_at B (ph_received ph') = block_at B (ph_received ph) \<and>
     ph_files ph' = ph_files ph \<and> ph_written ph' = ph_written ph"

lemma quiet_refl [simp]: "quiet B ph ph"
  by (simp add: quiet_def)

lemma quiet_trans [trans]: "quiet B a b \<Longrightarrow> quiet B b c \<Longrightarrow> quiet B a c"
  by (simp add: quiet_def)

lemma quiet_rcvd: "quiet B ph ph' \<Longrightarrow> rcvd (ph_received ph') = rcvd (ph_received ph)"
  unfolding quiet_def by (metis rcvd_cong)

subsection \<open>The blocks of a piece\<close>

definition block_request :: "u32 \<Rightarrow> int \<Rightarrow> nat \<Rightarrow> msg_request" where
  "block_request index piece_sz k =
     \<lparr>rq_index = index, rq_begin = block_begin k, rq_length = word_of_int (block_len piece_sz k)\<rparr>"

definition blocks_of :: "torrent_info \<Rightarrow> u32 \<Rightarrow> msg_request list" where
  "blocks_of ti index =
     (let piece_sz = piece_size (ti_files ti) (sint index)
      in map (block_request index piece_sz) [0..<nat (blocks_per_piece piece_sz)])"

lemma blocks_of_index: "r \<in> set (blocks_of ti i) \<Longrightarrow> rq_index r = i"
  by (auto simp: blocks_of_def block_request_def Let_def)

lemma blocks_per_piece_ceiling:
  "blocks_per_piece p = \<lceil>real_of_int p / real_of_int BLOCK_LEN\<rceil>"
  by (simp add: blocks_per_piece_def ceiling_divide_eq_div)

lemma blocks_per_piece_bounds:
  assumes "0 < p"
  shows "0 < blocks_per_piece p" "(blocks_per_piece p - 1) * BLOCK_LEN < p"
    "p \<le> blocks_per_piece p * BLOCK_LEN"
  using assms by (auto simp: blocks_per_piece_def BLOCK_LEN_def)

lemma block_len_bounds:
  assumes "0 < p" "k < nat (blocks_per_piece p)"
  shows "0 < block_len p k" "block_len p k \<le> BLOCK_LEN"
    and "int k * BLOCK_LEN + block_len p k = min p (int (Suc k) * BLOCK_LEN)"
proof -
  have B: "0 < BLOCK_LEN" by (simp add: BLOCK_LEN_def)
  show "0 < block_len p k" "block_len p k \<le> BLOCK_LEN"
    using assms B pos_mod_bound [OF B, of p] pos_mod_sign [OF B, of p]
    by (auto simp: block_len_def order_le_less)
  note bp = blocks_per_piece_bounds [OF assms(1)]
  show "int k * BLOCK_LEN + block_len p k = min p (int (Suc k) * BLOCK_LEN)"
  proof (cases "int k < blocks_per_piece p - 1")
    case True
    then have "int (Suc k) * BLOCK_LEN \<le> (blocks_per_piece p - 1) * BLOCK_LEN"
      using B by (intro mult_right_mono) auto
    with True bp show ?thesis by (simp add: block_len_def algebra_simps)
  next
    case False
    with assms(2) have k: "int k = blocks_per_piece p - 1" by linarith
    have "(blocks_per_piece p - 1) * BLOCK_LEN
        + (if p mod BLOCK_LEN = 0 then BLOCK_LEN else p mod BLOCK_LEN) = p"
      using div_mult_mod_eq [of p BLOCK_LEN] B
      by (auto simp: blocks_per_piece_def zdiv_zminus1_eq_if algebra_simps)
    then have "int k * BLOCK_LEN + block_len p k = p"
      using k by (simp add: block_len_def)
    moreover have "int (Suc k) = blocks_per_piece p" using k by simp
    ultimately show ?thesis using bp by (metis min.absorb1)
  qed
qed

lemma block_begin_value:
  assumes "0 < p" "p < 2 ^ 31" "k < nat (blocks_per_piece p)"
  shows "uint (block_begin k) = int k * BLOCK_LEN"
proof -
  have "int k * BLOCK_LEN \<le> (blocks_per_piece p - 1) * BLOCK_LEN"
    using assms(3) by (intro mult_right_mono) (auto simp: BLOCK_LEN_def)
  also have "\<dots> < p" by (rule blocks_per_piece_bounds [OF assms(1)])
  finally have b: "int k * BLOCK_LEN < 2 ^ 31" using assms(2) by simp
  have "block_begin k = word_of_int (int k * BLOCK_LEN)"
    by (simp add: block_begin_def)
  moreover have "uint (word_of_int (int k * BLOCK_LEN) :: u32) = int k * BLOCK_LEN"
    using b by (subst uint_word_of_int) (simp add: BLOCK_LEN_def)
  ultimately show ?thesis by simp
qed

text \<open>The positions inside its piece that a request asks for.\<close>

definition request_range :: "msg_request \<Rightarrow> int list" where
  "request_range r = [uint (rq_begin r) .. uint (rq_begin r) + uint (rq_length r) - 1]"

lemma request_range_block:
  assumes "0 < p" "p < 2 ^ 31" "k < nat (blocks_per_piece p)"
  shows "request_range (block_request i p k) = [int k * BLOCK_LEN .. min p (int (Suc k) * BLOCK_LEN) - 1]"
proof -
  note bl = block_len_bounds [OF assms(1,3)]
  have "block_len p k < 2 ^ 32" using bl(2) by (simp add: BLOCK_LEN_def)
  then have "uint (word_of_int (block_len p k) :: u32) = block_len p k"
    using bl(1) by (subst uint_word_of_int) simp
  then show ?thesis
    using bl(3) block_begin_value [OF assms] by (simp add: request_range_def block_request_def)
qed

lemma blocks_tile_aux:
  assumes "0 < p" "p < 2 ^ 31" "n \<le> nat (blocks_per_piece p)"
  shows "concat (map (\<lambda>k. request_range (block_request i p k)) [0..<n]) = [0 .. min p (int n * BLOCK_LEN) - 1]"
  using assms(3)
proof (induction n)
  case 0
  then show ?case using assms(1) by simp
next
  case (Suc n)
  have B: "0 < BLOCK_LEN" by (simp add: BLOCK_LEN_def)
  have "int n * BLOCK_LEN \<le> (blocks_per_piece p - 1) * BLOCK_LEN"
    using Suc.prems B by (intro mult_right_mono) auto
  with blocks_per_piece_bounds(2) [OF assms(1)] have lt: "int n * BLOCK_LEN < p" by simp
  have "concat (map (\<lambda>k. request_range (block_request i p k)) [0..<Suc n])
      = [0 .. int n * BLOCK_LEN - 1] @ [int n * BLOCK_LEN .. min p (int (Suc n) * BLOCK_LEN) - 1]"
    using Suc lt request_range_block [OF assms(1,2), of n i] by (simp add: min_absorb2)
  also have "\<dots> = [0 .. min p (int (Suc n) * BLOCK_LEN) - 1]"
    using upto_join [of 0 "int n * BLOCK_LEN - 1" "min p (int (Suc n) * BLOCK_LEN) - 1"] lt B
    by (simp add: algebra_simps)
  finally show ?case .
qed

lemma piece_size_lt: "fs_ok fs \<Longrightarrow> piece_size fs i < 2 ^ 31"
  using piece_size_bounds [of fs i] by (simp add: fs_ok_def)

lemma blocks_of_tile:
  assumes "fs_ok (ti_files ti)"
  shows "concat (map request_range (blocks_of ti i)) = [0 .. piece_size (ti_files ti) (sint i) - 1]"
proof -
  let ?p = "piece_size (ti_files ti) (sint i)"
  have p: "0 < ?p" "?p < 2 ^ 31"
    using piece_size_bounds [OF assms] piece_size_lt [OF assms] by auto
  have "concat (map request_range (blocks_of ti i))
      = concat (map (\<lambda>k. request_range (block_request i ?p k)) [0..<nat (blocks_per_piece ?p)])"
    by (simp add: blocks_of_def Let_def comp_def)
  also have "\<dots> = [0 .. min ?p (int (nat (blocks_per_piece ?p)) * BLOCK_LEN) - 1]"
    using p by (intro blocks_tile_aux) simp_all
  also have "min ?p (int (nat (blocks_per_piece ?p)) * BLOCK_LEN) = ?p"
    using blocks_per_piece_bounds [OF p(1)] by simp
  finally show ?thesis .
qed

subsection \<open>Filling the queue\<close>

lemma add_block_spec:
  shows "quiet (ex_bb E) ph (add_block E pid i p k ph)"
    and "queue (add_block E pid i p k ph) pid' = queue ph pid' @
           (if pid' = pid \<and> \<not> rcvd (ph_received ph) (i, block_begin k) then [block_request i p k] else [])"
    and "ph_have (add_block E pid i p k ph) = ph_have ph"
  by (auto simp: add_block_def quiet_def Let_def queue_def lookup_or_def block_request_def)

lemma fold_add_block:
  shows "quiet (ex_bb E) ph (fold (add_block E pid i p) ks ph)"
    and "queue (fold (add_block E pid i p) ks ph) pid' = queue ph pid' @
           (if pid' = pid
            then filter (\<lambda>r. \<not> rcvd (ph_received ph) (rq_key r)) (map (block_request i p) ks) else [])"
    and "ph_have (fold (add_block E pid i p) ks ph) = ph_have ph"
proof (induction ks arbitrary: ph)
  case (Cons k ks)
  note ab = add_block_spec [where E = E and pid = pid and i = i and p = p and k = k]
  { case 1
    show ?case using quiet_trans [OF ab(1) Cons(1)] by simp }
  { case 2
    have "block_begin k = rq_begin (block_request i p k)" "i = rq_index (block_request i p k)"
      by (simp_all add: block_request_def)
    then show ?case by (auto simp: Cons(2) ab(2) quiet_rcvd [OF ab(1)] block_request_def) }
  { case 3
    show ?case using ab(3) Cons(3) by simp }
qed simp_all

lemma add_to_queue_spec:
  shows "quiet (ex_bb E) ph (add_to_queue E ti pid i ph)"
    and "queue (add_to_queue E ti pid i ph) pid' = queue ph pid' @
           (if pid' = pid then filter (\<lambda>r. \<not> rcvd (ph_received ph) (rq_key r)) (blocks_of ti i) else [])"
    and "ph_have (add_to_queue E ti pid i ph) = ph_have ph"
proof -
  let ?ph = "ph\<lparr>ph_requests := (ph_requests ph)(pid \<mapsto> lookup_or [] (ph_requests ph) pid)\<rparr>"
  have t: "quiet (ex_bb E) ph ?ph" "queue ?ph = queue ph" "ph_have ?ph = ph_have ph"
    by (auto simp: quiet_def queue_def lookup_or_def fun_eq_iff split: option.split)
  note fa = fold_add_block [where E = E and ph = ?ph and pid = pid and i = i]
  show "quiet (ex_bb E) ph (add_to_queue E ti pid i ph)"
    unfolding add_to_queue_def Let_def by (rule quiet_trans [OF t(1) fa(1)])
  show "queue (add_to_queue E ti pid i ph) pid' = queue ph pid' @
           (if pid' = pid then filter (\<lambda>r. \<not> rcvd (ph_received ph) (rq_key r)) (blocks_of ti i) else [])"
    unfolding add_to_queue_def Let_def fa(2) t(2) by (simp add: blocks_of_def Let_def)
  show "ph_have (add_to_queue E ti pid i ph) = ph_have ph"
    unfolding add_to_queue_def Let_def fa(3) t(3) ..
qed

lemma fold_add_to_queue:
  shows "quiet (ex_bb E) ph (fold (add_to_queue E ti pid) is ph)"
    and "queue (fold (add_to_queue E ti pid) is ph) pid' = queue ph pid' @
           (if pid' = pid
            then filter (\<lambda>r. \<not> rcvd (ph_received ph) (rq_key r)) (concat (map (blocks_of ti) is)) else [])"
    and "ph_have (fold (add_to_queue E ti pid) is ph) = ph_have ph"
proof (induction "is" arbitrary: ph)
  case (Cons i js)
  note aq = add_to_queue_spec [where E = E and ti = ti and pid = pid and i = i]
  { case 1
    show ?case using quiet_trans [OF aq(1) Cons(1)] by simp }
  { case 2
    show ?case by (auto simp: Cons(2) aq(2) quiet_rcvd [OF aq(1)]) }
  { case 3
    show ?case using aq(3) Cons(3) by simp }
qed simp_all

lemma touch_queue:
  "queue (ph\<lparr>ph_requests := (ph_requests ph)(pid \<mapsto> lookup_or [] (ph_requests ph) pid)\<rparr>) = queue ph"
  by (auto simp: queue_def lookup_or_def fun_eq_iff split: option.split)

lemma touch_haves:
  "haves (ph\<lparr>ph_have := (ph_have ph)(pid \<mapsto> lookup_or [] (ph_have ph) pid)\<rparr>) = haves ph"
  by (auto simp: haves_def lookup_or_def fun_eq_iff split: option.split)

lemma rebuild_queue_spec:
  assumes "rebuild_queue E ti pid ph = (ok, ph')"
  shows "quiet (ex_bb E) ph ph'" "haves ph' = haves ph"
    and "queue ph' pid' = queue ph pid' @
           (if pid' = pid
            then filter (\<lambda>r. \<not> rcvd (ph_received ph) (rq_key r))
                   (concat (map (blocks_of ti) (ex_iter E (haves ph pid)))) else [])"
    and "ok \<longleftrightarrow> queue ph' pid \<noteq> []"
proof -
  define ph1 where "ph1 = ph\<lparr>ph_have := (ph_have ph)(pid \<mapsto> lookup_or [] (ph_have ph) pid)\<rparr>"
  define ph2 where "ph2 = fold (add_to_queue E ti pid) (ex_iter E (haves ph pid)) ph1"
  have ph': "ph' = ph2\<lparr>ph_requests := (ph_requests ph2)(pid \<mapsto> lookup_or [] (ph_requests ph2) pid)\<rparr>"
    and ok: "ok \<longleftrightarrow> queue ph2 pid \<noteq> []"
    using assms by (auto simp: rebuild_queue_def Let_def ph1_def ph2_def haves_def queue_def lookup_or_def
        split: option.splits)
  have q1: "quiet (ex_bb E) ph ph1" "queue ph1 = queue ph" "ph_received ph1 = ph_received ph"
    by (simp_all add: ph1_def quiet_def queue_def fun_eq_iff)
  have h1: "haves ph1 = haves ph" unfolding ph1_def by (rule touch_haves)
  have f2: "quiet (ex_bb E) ph1 ph2" "haves ph2 = haves ph1"
    unfolding ph2_def by (rule fold_add_to_queue) (simp add: haves_def fold_add_to_queue fun_eq_iff)
  have q: "queue ph' = queue ph2" unfolding ph' by (rule touch_queue)
  have "quiet (ex_bb E) ph2 ph'" by (simp add: ph' quiet_def)
  with q1(1) f2(1) show "quiet (ex_bb E) ph ph'" by (blast intro: quiet_trans)
  show "haves ph' = haves ph" using f2 h1 by (simp add: ph' haves_def fun_eq_iff)
  show "queue ph' pid' = queue ph pid' @
           (if pid' = pid
            then filter (\<lambda>r. \<not> rcvd (ph_received ph) (rq_key r))
                   (concat (map (blocks_of ti) (ex_iter E (haves ph pid)))) else [])"
    unfolding q ph2_def fold_add_to_queue(2) q1(2,3) ..
  show "ok \<longleftrightarrow> queue ph' pid \<noteq> []" by (simp add: ok q)
qed

subsection \<open>Peers announcing pieces\<close>

lemma have_index_spec:
  shows "quiet (ex_bb E) ph (have_index E ti pid i ph)"
    and "haves (have_index E ti pid i ph) pid' =
           haves ph pid' @ (if pid' = pid \<and> i \<notin> set (haves ph pid) then [i] else [])"
    and "queue (have_index E ti pid i ph) pid' = queue ph pid' @
           (if pid' = pid \<and> i \<notin> set (haves ph pid)
            then filter (\<lambda>r. \<not> rcvd (ph_received ph) (rq_key r)) (blocks_of ti i) else [])"
proof -
  let ?h = "lookup_or [] (ph_have ph) pid"
  let ?new = "ph\<lparr>ph_have := (ph_have ph)(pid \<mapsto> ?h @ [i])\<rparr>"
  have new: "quiet (ex_bb E) ph ?new" "queue ?new = queue ph" "ph_received ?new = ph_received ph"
    by (auto simp: quiet_def queue_def fun_eq_iff)
  note aq = add_to_queue_spec [where E = E and ph = ?new and ti = ti and pid = pid and i = i]
  note d = have_index_def [of E ti pid i ph]
  show "quiet (ex_bb E) ph (have_index E ti pid i ph)"
    using quiet_trans [OF new(1) aq(1)] by (simp add: d Let_def) (simp add: quiet_def)
  show "haves (have_index E ti pid i ph) pid' =
           haves ph pid' @ (if pid' = pid \<and> i \<notin> set (haves ph pid) then [i] else [])"
    using aq(3) by (auto simp: d haves_def lookup_or_def Let_def split: option.splits)
  show "queue (have_index E ti pid i ph) pid' = queue ph pid' @
           (if pid' = pid \<and> i \<notin> set (haves ph pid)
            then filter (\<lambda>r. \<not> rcvd (ph_received ph) (rq_key r)) (blocks_of ti i) else [])"
    using aq(2) new(2,3) by (simp add: d haves_def Let_def) (simp add: queue_def)
qed

text \<open>
  The invariant of the request queues: every queued request is a block of a piece that the
  peer has announced, and no piece is recorded twice for a peer.
\<close>

definition requests_ok :: "torrent_info \<Rightarrow> 'b piece_handler \<Rightarrow> bool" where
  "requests_ok ti ph \<longleftrightarrow>
     (\<forall>pid. distinct (haves ph pid) \<and>
        (\<forall>r\<in>set (queue ph pid). rq_index r \<in> set (haves ph pid) \<and> r \<in> set (blocks_of ti (rq_index r))))"

lemma requests_okD:
  assumes "requests_ok ti ph" "r \<in> set (queue ph pid)"
  shows "rq_index r \<in> set (haves ph pid)" "r \<in> set (blocks_of ti (rq_index r))"
  using assms by (auto simp: requests_ok_def)

lemma have_index_ok:
  assumes "requests_ok ti ph"
  shows "requests_ok ti (have_index E ti pid i ph)"
  using assms blocks_of_index [of _ ti i]
  unfolding requests_ok_def have_index_spec by (fastforce simp: have_index_spec)

definition byte_pieces :: "nat \<Rightarrow> byte \<Rightarrow> u32 set" where
  "byte_pieces off b = (\<lambda>i. word_of_nat (off * 8 + (8 - i - 1))) ` {i. i < 8 \<and> bit b i}"

lemma have_byte_aux:
  fixes f :: "nat \<Rightarrow> u32" and E :: "'b externals" and ti :: torrent_info and pid :: string and b :: byte
  defines "step \<equiv> \<lambda>i ph. if bit b i then have_index E ti pid (f i) ph else ph"
  shows "quiet (ex_bb E) ph (fold step xs ph)"
    and "requests_ok ti ph \<Longrightarrow> requests_ok ti (fold step xs ph)"
    and "set (haves (fold step xs ph) pid') = set (haves ph pid') \<union>
           (if pid' = pid then f ` {i \<in> set xs. bit b i} else {})"
proof (induction xs arbitrary: ph)
  case (Cons i xs)
  { case 1
    have "quiet (ex_bb E) ph (step i ph)" by (simp add: step_def have_index_spec)
    from quiet_trans [OF this Cons(1)] show ?case by simp }
  { case 2
    then show ?case using Cons(2) [of "step i ph"] by (simp add: step_def have_index_ok) }
  { case 3
    show ?case using Cons(3) [of "step i ph"] by (auto simp: step_def have_index_spec) }
qed simp_all

lemma have_byte_spec:
  shows "quiet (ex_bb E) ph (have_byte E ti pid off b ph)"
    and "requests_ok ti ph \<Longrightarrow> requests_ok ti (have_byte E ti pid off b ph)"
    and "set (haves (have_byte E ti pid off b ph) pid') = set (haves ph pid') \<union>
           (if pid' = pid then byte_pieces off b else {})"
proof -
  note aux = have_byte_aux [where E = E and ti = ti and pid = pid and b = b and ph = ph
      and f = "\<lambda>i. word_of_nat (off * 8 + (8 - i - 1))" and xs = "rev [0..<8]"]
  show "quiet (ex_bb E) ph (have_byte E ti pid off b ph)"
    unfolding have_byte_def by (rule aux(1))
  show "requests_ok ti ph \<Longrightarrow> requests_ok ti (have_byte E ti pid off b ph)"
    unfolding have_byte_def by (rule aux(2))
  have "{i \<in> set (rev [0..<8]). bit b i} = {i. i < 8 \<and> bit b i}" by auto
  then show "set (haves (have_byte E ti pid off b ph) pid') = set (haves ph pid') \<union>
           (if pid' = pid then byte_pieces off b else {})"
    unfolding have_byte_def aux(3) byte_pieces_def by simp
qed

text \<open>The pieces a bitfield announces, from the byte with the given number on.\<close>

fun bitfield_pieces :: "nat \<Rightarrow> byte list \<Rightarrow> u32 set" where
  "bitfield_pieces off [] = {}"
| "bitfield_pieces off (b # bs) = byte_pieces off b \<union> bitfield_pieces (Suc off) bs"

lemma have_bitfield_loop_spec:
  assumes "bb_laws (ex_bb E)" "have_bitfield_loop n E ti pid off bf ph = (bf', ph')"
    and "n = length (rd (ex_bb E) bf)"
  shows "quiet (ex_bb E) ph ph' \<and> rd (ex_bb E) bf' = []
     \<and> (requests_ok ti ph \<longrightarrow> requests_ok ti ph')
     \<and> set (haves ph' pid') = set (haves ph pid') \<union>
         (if pid' = pid then bitfield_pieces off (rd (ex_bb E) bf) else {})"
  using assms(2,3)
proof (induction n arbitrary: off bf ph)
  case 0
  then show ?case by simp
next
  case (Suc n)
  obtain v c where vc: "bb_read_8 (ex_bb E) bf = (v, c)" by fastforce
  have ne: "rd (ex_bb E) bf \<noteq> []" using Suc.prems(2) by auto
  then have v: "v = hd (rd (ex_bb E) bf)" and c: "rd (ex_bb E) c = tl (rd (ex_bb E) bf)"
    using bb_consume(4,5) [OF assms(1), of bf] vc by (simp_all add: Suc_leI)
  let ?ph1 = "have_byte E ti pid off v ph"
  have "have_bitfield_loop n E ti pid (Suc off) c ?ph1 = (bf', ph')"
    using Suc.prems(1) ne vc by simp
  moreover have "n = length (rd (ex_bb E) c)" using Suc.prems(2) c by simp
  ultimately have IH: "quiet (ex_bb E) ?ph1 ph' \<and> rd (ex_bb E) bf' = []
     \<and> (requests_ok ti ?ph1 \<longrightarrow> requests_ok ti ph')
     \<and> set (haves ph' pid') = set (haves ?ph1 pid') \<union>
         (if pid' = pid then bitfield_pieces (Suc off) (rd (ex_bb E) c) else {})"
    by (rule Suc.IH)
  have bf: "bitfield_pieces off (rd (ex_bb E) bf)
      = byte_pieces off v \<union> bitfield_pieces (Suc off) (rd (ex_bb E) c)"
    using ne v c by (cases "rd (ex_bb E) bf") simp_all
  have "quiet (ex_bb E) ph ph'"
    using IH by (blast intro: quiet_trans have_byte_spec(1))
  moreover have "requests_ok ti ph \<longrightarrow> requests_ok ti ?ph1"
    by (simp add: have_byte_spec(2))
  ultimately show ?case
    using IH by (auto simp: bf have_byte_spec(3))
qed

lemma have_bitfield_spec:
  assumes "bb_laws (ex_bb E)" "have_bitfield E ti pid bf ph = (bf', ph')"
  shows "quiet (ex_bb E) ph ph'" "rd (ex_bb E) bf' = []"
    and "requests_ok ti ph \<Longrightarrow> requests_ok ti ph'"
    and "set (haves ph' pid') = set (haves ph pid') \<union>
         (if pid' = pid then bitfield_pieces 0 (rd (ex_bb E) bf) else {})"
  using have_bitfield_loop_spec [OF assms(1) assms(2) [unfolded have_bitfield_def bb_avail] refl]
  by blast+

subsection \<open>Handing out a request\<close>

lemma pop_requests_spec:
  assumes "q \<noteq> []" "pop_requests B q m = (already, r, q', m')"
  shows "\<exists>pre. q = pre @ r # q' \<and> (\<forall>x\<in>set pre. rcvd m (rq_key x))
     \<and> (already \<longleftrightarrow> rcvd m (rq_key r)) \<and> (already \<longrightarrow> q' = []) \<and> block_at B m' = block_at B m"
  using assms
proof (induction q arbitrary: m)
  case Nil
  then show ?case by simp
next
  case (Cons x q)
  show ?case
  proof (cases "rcvd m (rq_key x) \<and> q \<noteq> []")
    case True
    then have "pop_requests B q (touch B m (rq_key x)) = (already, r, q', m')"
      using Cons.prems(2) by (simp add: Let_def)
    from Cons.IH [OF _ this] True obtain pre where "q = pre @ r # q'"
      "\<forall>y\<in>set pre. rcvd m (rq_key y)" "already \<longleftrightarrow> rcvd m (rq_key r)" "already \<longrightarrow> q' = []"
      "block_at B m' = block_at B m"
      by auto
    with True show ?thesis by (intro exI [of _ "x # pre"]) auto
  next
    case False
    then have "r = x" "q' = q" "already \<longleftrightarrow> rcvd m (rq_key x)" "m' = touch B m (rq_key x)"
      using Cons.prems(2) by (auto simp: Let_def)
    with False show ?thesis by (intro exI [of _ "[]"]) auto
  qed
qed

lemma get_piece_request_cases:
  assumes "get_piece_request E ti pid ph = ((found, r), ph')"
  obtains (nothing) "\<not> found" "queue ph' pid = []" "quiet (ex_bb E) ph ph'" "haves ph' = haves ph"
      "queue ph pid = []" "\<And>p. queue ph' p = queue ph p"
      "\<forall>x\<in>set (concat (map (blocks_of ti) (ex_iter E (haves ph pid)))). rcvd (ph_received ph) (rq_key x)"
    | (popped) q pre where "q \<noteq> []" "q = pre @ r # queue ph' pid" "quiet (ex_bb E) ph ph'"
      "haves ph' = haves ph" "\<And>p. p \<noteq> pid \<Longrightarrow> queue ph' p = queue ph p"
      "found \<longleftrightarrow> \<not> rcvd (ph_received ph) (rq_key r)" "\<not> found \<Longrightarrow> queue ph' pid = []"
      "\<forall>x\<in>set pre. rcvd (ph_received ph) (rq_key x)"
      "q = queue ph pid \<or> queue ph pid = [] \<and>
         q = filter (\<lambda>r. \<not> rcvd (ph_received ph) (rq_key r))
               (concat (map (blocks_of ti) (ex_iter E (haves ph pid))))"
proof -
  define ph0 where "ph0 = ph\<lparr>ph_requests := (ph_requests ph)(pid \<mapsto> lookup_or [] (ph_requests ph) pid)\<rparr>"
  have q0: "queue ph0 = queue ph" unfolding ph0_def by (rule touch_queue)
  have t0: "quiet (ex_bb E) ph ph0" "haves ph0 = haves ph" "ph_received ph0 = ph_received ph"
    by (simp_all add: ph0_def quiet_def haves_def fun_eq_iff)
  obtain ok ph1 where ph1: "(if queue ph0 pid = [] then rebuild_queue E ti pid ph0 else (True, ph0)) = (ok, ph1)"
    by fastforce
  let ?all = "concat (map (blocks_of ti) (ex_iter E (haves ph pid)))"
  have b: "quiet (ex_bb E) ph0 ph1" "haves ph1 = haves ph0" "ok \<longleftrightarrow> queue ph1 pid \<noteq> []"
    "\<And>p. p \<noteq> pid \<Longrightarrow> queue ph1 p = queue ph0 p"
    "queue ph1 pid = queue ph pid \<and> queue ph pid \<noteq> [] \<or> queue ph pid = [] \<and>
      queue ph1 pid = filter (\<lambda>r. \<not> rcvd (ph_received ph) (rq_key r)) ?all"
    using ph1 rebuild_queue_spec [of E ti pid ph0 ok ph1] t0 q0
    by (auto split: if_splits)
  have q1: "quiet (ex_bb E) ph ph1" by (rule quiet_trans [OF t0(1) b(1)])
  show ?thesis
  proof (cases ok)
    case False
    then have "ph' = ph1" "\<not> found"
      using assms ph1 by (auto simp: get_piece_request_def Let_def ph0_def [symmetric] queue_def)
    have e: "queue ph pid = []" "queue ph1 pid = []"
      "filter (\<lambda>r. \<not> rcvd (ph_received ph) (rq_key r)) ?all = []"
      using b(3,5) False by auto
    show ?thesis
    proof (rule that(1))
      show "queue ph' p = queue ph p" for p
        using e b(4) q0 \<open>ph' = ph1\<close> by (cases "p = pid") auto
      show "\<forall>x\<in>set ?all. rcvd (ph_received ph) (rq_key x)"
        using e(3) unfolding filter_empty_conv by blast
    qed (use e q1 b(2) t0(2) \<open>ph' = ph1\<close> \<open>\<not> found\<close> in simp_all)
  next
    case True
    then obtain already q' m' where pop: "pop_requests (ex_bb E) (queue ph1 pid) (ph_received ph1) = (already, r, q', m')"
      and ph': "ph' = ph1\<lparr>ph_requests := (ph_requests ph1)(pid \<mapsto> q'), ph_received := m'\<rparr>" "found \<longleftrightarrow> \<not> already"
      using assms ph1
      by (auto simp: get_piece_request_def Let_def ph0_def [symmetric] queue_def split: prod.splits)
    have ne: "queue ph1 pid \<noteq> []" using True b(3) by simp
    have same: "rcvd (ph_received ph1) = rcvd (ph_received ph)" by (rule quiet_rcvd [OF q1])
    obtain pre where pre: "queue ph1 pid = pre @ r # q'" "\<forall>x\<in>set pre. rcvd (ph_received ph) (rq_key x)"
      "already \<longleftrightarrow> rcvd (ph_received ph) (rq_key r)" "already \<longrightarrow> q' = []"
      "block_at (ex_bb E) m' = block_at (ex_bb E) (ph_received ph1)"
      using pop_requests_spec [OF ne pop] same by auto
    have q': "queue ph' p = (if p = pid then q' else queue ph1 p)" for p
      by (simp add: ph' queue_def lookup_or_def)
    show ?thesis
    proof (rule that(2) [of "queue ph1 pid" pre])
      show "quiet (ex_bb E) ph ph'" using q1 pre(5) by (simp add: ph' quiet_def)
      show "haves ph' = haves ph" using b(2) t0(2) by (simp add: ph' haves_def fun_eq_iff)
      show "queue ph' p = queue ph p" if "p \<noteq> pid" for p using that b(4) q0 by (simp add: q')
    qed (use ne pre ph' q' b(5) in auto)
  qed
qed

text \<open>What a peer can be asked for: a block of a piece it has that has not been received.\<close>

definition wanted :: "torrent_info \<Rightarrow> string \<Rightarrow> 'b piece_handler \<Rightarrow> msg_request \<Rightarrow> bool" where
  "wanted ti pid ph r \<longleftrightarrow>
     rq_index r \<in> set (haves ph pid) \<and> r \<in> set (blocks_of ti (rq_index r)) \<and>
     \<not> rcvd (ph_received ph) (rq_key r)"

lemma iter_set: "iter_laws E \<Longrightarrow> set (ex_iter E xs) = set xs"
  unfolding iter_laws_def by (metis set_mset_mset)

lemma wanted_stable:
  assumes "quiet B ph ph'" "haves ph' = haves ph"
  shows "wanted ti pid ph' = wanted ti pid ph"
  using quiet_rcvd [OF assms(1)] assms(2) by (simp add: wanted_def fun_eq_iff)

lemma rebuilt_ok:
  assumes "iter_laws E" "r \<in> set (concat (map (blocks_of ti) (ex_iter E (haves ph pid))))"
  shows "rq_index r \<in> set (haves ph pid)" "r \<in> set (blocks_of ti (rq_index r))"
  using assms(2) blocks_of_index [of r ti] iter_set [OF assms(1)] by auto

lemma get_piece_request_step:
  assumes "iter_laws E" "requests_ok ti ph" "get_piece_request E ti pid ph = ((found, r), ph')"
  shows "requests_ok ti ph'" "quiet (ex_bb E) ph ph'" "haves ph' = haves ph"
    and "found \<Longrightarrow> wanted ti pid ph r" "\<not> found \<Longrightarrow> queue ph' pid = []"
proof -
  have "requests_ok ti ph' \<and> quiet (ex_bb E) ph ph' \<and> haves ph' = haves ph \<and>
      (found \<longrightarrow> wanted ti pid ph r) \<and> (\<not> found \<longrightarrow> queue ph' pid = [])"
    using assms(3)
  proof (cases rule: get_piece_request_cases)
    case nothing
    then show ?thesis using assms(2) by (auto simp: requests_ok_def)
  next
    case (popped q pre)
    have q: "rq_index x \<in> set (haves ph pid) \<and> x \<in> set (blocks_of ti (rq_index x))" if "x \<in> set q" for x
    proof (cases "q = queue ph pid")
      case True
      then show ?thesis using that requests_okD [OF assms(2)] by blast
    next
      case False
      then have "x \<in> set (concat (map (blocks_of ti) (ex_iter E (haves ph pid))))"
        using popped(9) that by (auto simp del: set_concat)
      then show ?thesis using rebuilt_ok [OF assms(1)] by blast
    qed
    have "requests_ok ti ph'"
      unfolding requests_ok_def
    proof (intro allI conjI ballI)
      fix p x
      show "distinct (haves ph' p)" using assms(2) popped(4) by (simp add: requests_ok_def)
      assume x: "x \<in> set (queue ph' p)"
      show "rq_index x \<in> set (haves ph' p)" "x \<in> set (blocks_of ti (rq_index x))"
        using x q popped(2,4,5) requests_okD [OF assms(2), of x p] by (cases "p = pid"; auto)+
    qed
    moreover have "found \<longrightarrow> wanted ti pid ph r"
      using q [of r] popped(2,6) by (simp add: wanted_def)
    ultimately show ?thesis using popped(3,4,7) by blast
  qed
  then show "requests_ok ti ph'" "quiet (ex_bb E) ph ph'" "haves ph' = haves ph"
    and "found \<Longrightarrow> wanted ti pid ph r" "\<not> found \<Longrightarrow> queue ph' pid = []"
    by blast+
qed

lemma get_piece_request_finds:
  assumes "iter_laws E" "queue ph pid = []" "wanted ti pid ph x"
    and "get_piece_request E ti pid ph = ((found, r), ph')"
  shows "found"
proof -
  have x: "x \<in> set (concat (map (blocks_of ti) (ex_iter E (haves ph pid))))"
    and nx: "\<not> rcvd (ph_received ph) (rq_key x)"
    using assms(3) iter_set [OF assms(1)] by (auto simp: wanted_def)
  show ?thesis using assms(4)
  proof (cases rule: get_piece_request_cases)
    case nothing
    then show ?thesis using x nx by blast
  next
    case (popped q pre)
    have "q = filter (\<lambda>r. \<not> rcvd (ph_received ph) (rq_key r))
        (concat (map (blocks_of ti) (ex_iter E (haves ph pid))))"
      using popped(1,9) assms(2) by blast
    moreover have "r \<in> set q" using popped(2) by simp
    ultimately show ?thesis using popped(6) by simp
  qed
qed

subsection \<open>The contract of a source of requests\<close>

text \<open>
  What a peer connection relies on when it takes requests from the piece handler. The
  lemma about a burst of requests is proved from the contract alone.
\<close>

fun take_requests :: "('s \<Rightarrow> (bool \<times> msg_request) \<times> 's) \<Rightarrow> nat \<Rightarrow> 's \<Rightarrow> msg_request list \<times> 's" where
  "take_requests nxt 0 s = ([], s)"
| "take_requests nxt (Suc n) s =
     (let ((found, r), s') = nxt s in
      if \<not> found then ([], s')
      else let (rs, s'') = take_requests nxt n s' in (r # rs, s''))"

locale request_source =
  fixes nxt :: "'s \<Rightarrow> (bool \<times> msg_request) \<times> 's"
    and inv :: "'s \<Rightarrow> bool"
    and want :: "'s \<Rightarrow> msg_request \<Rightarrow> bool"
  assumes next_inv: "inv s \<Longrightarrow> nxt s = (fr, s') \<Longrightarrow> inv s'"
    and next_want: "inv s \<Longrightarrow> nxt s = ((True, r), s') \<Longrightarrow> want s r"
    and want_stable: "inv s \<Longrightarrow> nxt s = (fr, s') \<Longrightarrow> want s' = want s"
begin

lemma take_requests_wanted:
  assumes "inv s" "take_requests nxt n s = (rs, s')"
  shows "inv s'" "want s' = want s" "length rs \<le> n" "\<forall>r\<in>set rs. want s r"
proof -
  have "inv s' \<and> want s' = want s \<and> length rs \<le> n \<and> (\<forall>r\<in>set rs. want s r)"
    using assms
  proof (induction n arbitrary: s rs s')
    case 0
    then show ?case by simp
  next
    case (Suc n)
    obtain found r s1 where nx: "nxt s = ((found, r), s1)" by (metis prod.exhaust)
    note i1 = next_inv [OF Suc.prems(1) nx] and w1 = want_stable [OF Suc.prems(1) nx]
    show ?case
    proof (cases found)
      case False
      then show ?thesis using Suc.prems(2) nx i1 w1 by auto
    next
      case True
      obtain rs1 s2 where t: "take_requests nxt n s1 = (rs1, s2)" by fastforce
      have "rs = r # rs1" "s' = s2" using Suc.prems(2) nx t True by auto
      then show ?thesis
        using Suc.IH [OF i1 t] w1 next_want [OF Suc.prems(1)] nx True by auto
    qed
  qed
  then show "inv s'" "want s' = want s" "length rs \<le> n" "\<forall>r\<in>set rs. want s r" by blast+
qed

end

interpretation ph_source: request_source "get_piece_request E ti pid"
  "\<lambda>ph. iter_laws E \<and> requests_ok ti ph" "wanted ti pid" for E ti pid
proof
  fix s :: "'a piece_handler" and fr s'
  assume i: "iter_laws E \<and> requests_ok ti s" and n: "get_piece_request E ti pid s = (fr, s')"
  obtain f r where fr: "fr = (f, r)" by (cases fr)
  note st = get_piece_request_step [OF conjunct1 [OF i] conjunct2 [OF i] n [unfolded fr]]
  show "iter_laws E \<and> requests_ok ti s'" using i st(1) by blast
  show "wanted ti pid s' = wanted ti pid s" using wanted_stable st(2,3) by blast
next
  fix s :: "'a piece_handler" and r s'
  assume "iter_laws E \<and> requests_ok ti s" "get_piece_request E ti pid s = ((True, r), s')"
  then show "wanted ti pid s r" using get_piece_request_step(4) by blast
qed

end
