(* ===== verification/Piece_Writes.thy ===== *)
theory Piece_Writes
  imports Piece_Requests
begin

section \<open>Writing pieces to the files\<close>

text \<open>
  The torrent seen as one array of bytes: its files laid end to end. Writing a valid piece
  through \<open>map_block\<close> and the file handlers refines overwriting that array at the position
  of the piece with the bytes that were hashed.
\<close>

subsection \<open>The image of a torrent on disk\<close>

definition file_data :: "(string \<rightharpoonup> file_handler) \<Rightarrow> file_entry \<Rightarrow> byte list" where
  "file_data files f = (case files (fe_name f) of None \<Rightarrow> [] | Some fh \<Rightarrow> of_data (fh_file fh))"

definition image :: "file_storage \<Rightarrow> (string \<rightharpoonup> file_handler) \<Rightarrow> byte list" where
  "image fs files = concat (map (file_data files) (fs_files fs))"

definition files_ok :: "file_storage \<Rightarrow> (string \<rightharpoonup> file_handler) \<Rightarrow> bool" where
  "files_ok fs files \<longleftrightarrow>
     distinct (map fe_name (fs_files fs)) \<and>
     (\<forall>f\<in>set (fs_files fs). \<exists>fh. files (fe_name f) = Some fh \<and> fh_ready (fe_size f) fh)"

lemma file_data_length:
  assumes "files_ok fs files" "f \<in> set (fs_files fs)"
  shows "int (length (file_data files f)) = fe_size f"
  using assms by (force simp: files_ok_def file_data_def fh_ready_def)

lemma concat_length_sum:
  assumes "\<forall>f\<in>set F. int (length (g f)) = fe_size f"
  shows "int (length (concat (map g F))) = sum_list (map fe_size F)"
  using assms by (induction F) auto

lemma contiguous_offset:
  assumes "contiguous pos F" "i < length F"
  shows "fe_offset (F ! i) = pos + sum_list (map fe_size (take i F))"
  using contiguous_drop [OF assms(1), of i] assms(2)
  by (simp add: Cons_nth_drop_Suc [symmetric])

lemma image_length:
  assumes "fs_ok fs" "files_ok fs files"
  shows "int (length (image fs files)) = fs_total_size fs"
  using assms concat_length_sum [of "fs_files fs" "file_data files"] file_data_length [OF assms(2)]
  by (simp add: image_def fs_ok_def)

lemma image_split:
  assumes "fs_ok fs" "files_ok fs files" "i < length (fs_files fs)"
  obtains us vs where "image fs files = us @ file_data files (fs_files fs ! i) @ vs"
    and "int (length us) = fe_offset (fs_files fs ! i)"
    and "us = concat (map (file_data files) (take i (fs_files fs)))"
    and "vs = concat (map (file_data files) (drop (Suc i) (fs_files fs)))"
proof -
  let ?F = "fs_files fs"
  let ?us = "concat (map (file_data files) (take i ?F))"
  have "\<forall>f\<in>set (take i ?F). int (length (file_data files f)) = fe_size f"
    using file_data_length [OF assms(2)] by (meson in_set_takeD)
  from concat_length_sum [OF this] have "int (length ?us) = fe_offset (?F ! i)"
    using contiguous_offset [of 0 ?F i] assms by (simp add: fs_ok_def)
  moreover have "image fs files = concat (map (file_data files) (take i ?F @ ?F ! i # drop (Suc i) ?F))"
    unfolding image_def using id_take_nth_drop [OF assms(3)] by (rule arg_cong)
  then have "image fs files = ?us @ file_data files (?F ! i) @ concat (map (file_data files) (drop (Suc i) ?F))"
    by simp
  ultimately show ?thesis using that by blast
qed

text \<open>Replacing the contents of one file.\<close>

lemma image_update:
  assumes "fs_ok fs" "files_ok fs files" "i < length (fs_files fs)" "fe_name (fs_files fs ! i) = name"
    and "files name = Some fh" "fh_ready (fe_size (fs_files fs ! i)) fh'" "0 \<le> off"
    and "of_data (fh_file fh') = splice (of_data (fh_file fh)) (nat off) bs"
    and "off + int (length bs) \<le> fe_size (fs_files fs ! i)"
  shows "image fs (files(name \<mapsto> fh')) = splice (image fs files) (nat (fe_offset (fs_files fs ! i) + off)) bs"
    and "files_ok fs (files(name \<mapsto> fh'))"
proof -
  let ?F = "fs_files fs" and ?files = "files(name \<mapsto> fh')"
  have dist: "distinct (map fe_name ?F)" using assms(2) by (simp add: files_ok_def)
  have other: "fe_name (?F ! j) \<noteq> name" if "j < length ?F" "j \<noteq> i" for j
    using nth_eq_iff_index_eq [OF dist, of j i] that assms(3,4) by simp
  show ok: "files_ok fs ?files"
    unfolding files_ok_def
  proof (intro conjI ballI)
    fix f assume "f \<in> set ?F"
    then obtain j where j: "j < length ?F" "f = ?F ! j" by (metis in_set_conv_nth)
    show "\<exists>fh. ?files (fe_name f) = Some fh \<and> fh_ready (fe_size f) fh"
      using assms(2,4,6) other [OF j(1)] j nth_mem [OF j(1)]
      by (cases "j = i") (auto simp: files_ok_def)
  qed (rule dist)
  have same: "file_data ?files f = file_data files f" if "f \<in> set (take i ?F) \<union> set (drop (Suc i) ?F)" for f
  proof -
    have "\<exists>j. j < length ?F \<and> j \<noteq> i \<and> f = ?F ! j"
      using that
    proof
      assume "f \<in> set (take i ?F)"
      then obtain j where "j < length (take i ?F)" "f = take i ?F ! j" by (metis in_set_conv_nth)
      then show ?thesis by (intro exI [of _ j]) simp
    next
      assume "f \<in> set (drop (Suc i) ?F)"
      then obtain j where "j < length (drop (Suc i) ?F)" "f = drop (Suc i) ?F ! j"
        by (metis in_set_conv_nth)
      then show ?thesis by (intro exI [of _ "Suc i + j"]) simp
    qed
    with other have "fe_name f \<noteq> name" by blast
    then show ?thesis by (simp add: file_data_def)
  qed
  obtain us vs where im: "image fs files = us @ file_data files (?F ! i) @ vs"
    "int (length us) = fe_offset (?F ! i)"
    "us = concat (map (file_data files) (take i ?F))"
    "vs = concat (map (file_data files) (drop (Suc i) ?F))"
    using image_split [OF assms(1-3)] .
  obtain us' vs' where im': "image fs ?files = us' @ file_data ?files (?F ! i) @ vs'"
    "us' = concat (map (file_data ?files) (take i ?F))"
    "vs' = concat (map (file_data ?files) (drop (Suc i) ?F))"
    using image_split [OF assms(1) ok assms(3)] .
  have "map (file_data ?files) (take i ?F) = map (file_data files) (take i ?F)"
    using same by (intro map_cong) auto
  then have eq1: "us' = us" by (simp only: im(3) im'(2))
  have "map (file_data ?files) (drop (Suc i) ?F) = map (file_data files) (drop (Suc i) ?F)"
    using same by (intro map_cong) auto
  then have eq2: "vs' = vs" by (simp only: im(4) im'(3))
  have d: "file_data files (?F ! i) = of_data (fh_file fh)"
    "file_data ?files (?F ! i) = splice (of_data (fh_file fh)) (nat off) bs"
    using assms(4,5,8) by (simp_all add: file_data_def)
  have len: "int (length (of_data (fh_file fh))) = fe_size (?F ! i)"
    using file_data_length [OF assms(2) nth_mem [OF assms(3)]] d(1) by simp
  then have fit: "nat off + length bs \<le> length (of_data (fh_file fh))" using assms(7,9) by linarith
  have pos: "nat (fe_offset (?F ! i) + off) = length us + nat off"
    using im(2) assms(7) by (simp add: nat_add_distrib flip: im(2))
  show "image fs ?files = splice (image fs files) (nat (fe_offset (?F ! i) + off)) bs"
    unfolding pos im(1) im'(1) eq1 eq2 d by (simp add: splice_append2 splice_append1 [OF fit])
qed

subsection \<open>One slice, one block\<close>

abbreviation block_bytes :: "'b externals \<Rightarrow> 'b piece_handler \<Rightarrow> piece_received_key \<Rightarrow> byte list" where
  "block_bytes E ph k \<equiv> rd (ex_bb E) (rb_block (block_at (ex_bb E) (ph_received ph) k))"

text \<open>Everything of a piece handler but its files and the data of one block.\<close>

definition same_but :: "'b externals \<Rightarrow> piece_received_key set \<Rightarrow> 'b piece_handler \<Rightarrow> 'b piece_handler \<Rightarrow> bool" where
  "same_but E K ph ph' \<longleftrightarrow>
     ph_have ph' = ph_have ph \<and> ph_requests ph' = ph_requests ph \<and> ph_written ph' = ph_written ph \<and>
     rcvd (ph_received ph') = rcvd (ph_received ph) \<and>
     (\<forall>k. k \<notin> K \<longrightarrow> block_at (ex_bb E) (ph_received ph') k = block_at (ex_bb E) (ph_received ph) k)"

lemma same_but_refl: "same_but E K ph ph"
  by (simp add: same_but_def)

lemma same_but_trans:
  "same_but E K a b \<Longrightarrow> same_but E K' b c \<Longrightarrow> K \<subseteq> M \<Longrightarrow> K' \<subseteq> M \<Longrightarrow> same_but E M a c"
  unfolding same_but_def by (metis subsetD)

lemma block_at_upd: "block_at B (m(k \<mapsto> v)) j = (if j = k then v else block_at B m j)"
  by (simp add: block_at_def lookup_or_def)

lemma rcvd_upd: "rcvd (m(k \<mapsto> v)) j = (if j = k then rb_received v else rcvd m j)"
  by (simp add: rcvd_def)

lemma write_slice_same_but: "same_but E {key} ph (write_slice E ti key sl ph)"
  by (auto simp: same_but_def write_slice_def Let_def block_at_upd rcvd_upd fun_eq_iff
      split: option.splits prod.splits)

lemma write_slice_spec:
  assumes "bb_laws (ex_bb E)" "fs_ok (ti_files ti)" "files_ok (ti_files ti) (ph_files ph)"
    and sl: "slice_ok (fs_files (ti_files ti)) sl"
    and len: "nat (sl_size sl) \<le> length (block_bytes E ph key)"
    and ph': "ph' = write_slice E ti key sl ph"
  shows "image (ti_files ti) (ph_files ph') = splice (image (ti_files ti) (ph_files ph))
           (nat (fe_offset (fs_files (ti_files ti) ! sl_file_index sl) + sl_offset sl))
           (take (nat (sl_size sl)) (block_bytes E ph key))"
    and "files_ok (ti_files ti) (ph_files ph')"
    and "block_bytes E ph' key = drop (nat (sl_size sl)) (block_bytes E ph key)"
proof -
  let ?fs = "ti_files ti" and ?i = "sl_file_index sl" and ?b = "block_at (ex_bb E) (ph_received ph) key"
  let ?f = "fs_files ?fs ! ?i"
  have i: "?i < length (fs_files ?fs)" and so: "0 \<le> sl_offset sl" "0 < sl_size sl"
    "sl_offset sl + sl_size sl \<le> fe_size ?f"
    using sl by (auto simp: slice_ok_def)
  obtain fh where fh: "ph_files ph (fe_name ?f) = Some fh" "fh_ready (fe_size ?f) fh"
    using assms(3) nth_mem [OF i] by (auto simp: files_ok_def)
  obtain fh' b' where w: "file_handler_write (ex_bb E) fh (rb_block ?b) (sl_offset sl) (sl_size sl) = (fh', b')"
    by fastforce
  note fw = file_handler_write_spec [OF assms(1) fh(2) so len w]
  have eq: "ph' = ph\<lparr>ph_files := (ph_files ph)(fe_name ?f \<mapsto> fh'),
      ph_received := (ph_received ph)(key \<mapsto> ?b\<lparr>rb_block := b'\<rparr>)\<rparr>"
    by (simp add: ph' write_slice_def file_name_def fh(1) w)
  have fit: "sl_offset sl + int (length (take (nat (sl_size sl)) (block_bytes E ph key))) \<le> fe_size ?f"
    using so len by simp
  show "image ?fs (ph_files ph') = splice (image ?fs (ph_files ph))
      (nat (fe_offset ?f + sl_offset sl)) (take (nat (sl_size sl)) (block_bytes E ph key))"
    and "files_ok ?fs (ph_files ph')"
    using image_update [OF assms(2,3) i refl fh(1) fw(1) so(1) fw(2) fit] by (simp_all add: eq)
  show "block_bytes E ph' key = drop (nat (sl_size sl)) (block_bytes E ph key)"
    using fw(3) by (simp add: eq block_at_upd)
qed

lemma upto_hd_split:
  fixes a b c d :: int
  assumes "[a .. a + d - 1] @ xs = [b .. c - 1]" "0 < d"
  shows "a = b" "a + d \<le> c" "xs = [a + d .. c - 1]"
proof -
  have bc: "b < c"
  proof (rule ccontr)
    assume "\<not> b < c"
    with assms show False by simp
  qed
  have "hd ([a .. a + d - 1] @ xs) = a" "hd [b .. c - 1] = b"
    using assms(2) bc by (simp_all add: upto_rec1)
  then show ab: "a = b" using assms(1) by simp
  have "length ([a .. a + d - 1] @ xs) = length [b .. c - 1]" using assms(1) by simp
  then have "nat d \<le> nat (c - b)" by simp
  then show le: "a + d \<le> c" using ab bc by simp
  have "[b .. c - 1] = [a .. a + d - 1] @ [a + d .. c - 1]"
    using upto_join [of a "a + d - 1" "c - 1"] ab le assms(2) by simp
  then show "xs = [a + d .. c - 1]" using assms(1) by simp
qed

lemma write_slices_spec:
  assumes "bb_laws (ex_bb E)" "fs_ok (ti_files ti)" "files_ok (ti_files ti) (ph_files ph)"
    and "\<forall>s\<in>set ss. slice_ok (fs_files (ti_files ti)) s"
    and "concat (map (slice_range (fs_files (ti_files ti))) ss) = [t .. t + n - 1]"
    and "0 \<le> t" "0 \<le> n" "n \<le> int (length (block_bytes E ph key))"
    and "t + n \<le> fs_total_size (ti_files ti)"
    and "ph' = fold (write_slice E ti key) ss ph"
  shows "image (ti_files ti) (ph_files ph') = splice (image (ti_files ti) (ph_files ph)) (nat t)
           (take (nat n) (block_bytes E ph key))
     \<and> files_ok (ti_files ti) (ph_files ph')
     \<and> block_bytes E ph' key = drop (nat n) (block_bytes E ph key)"
  using assms(3-10)
proof (induction ss arbitrary: ph t n)
  case Nil
  then have "n = 0" by (cases "0 < n") (simp_all add: upto_rec1)
  with Nil show ?case by simp
next
  case (Cons s ss)
  let ?F = "fs_files (ti_files ti)" and ?im = "image (ti_files ti)"
  let ?g = "fe_offset (?F ! sl_file_index s) + sl_offset s" and ?d = "sl_size s"
  let ?ph1 = "write_slice E ti key s ph" and ?bs = "block_bytes E ph key"
  have s: "slice_ok ?F s" "0 < ?d" using Cons.prems(2) by (auto simp: slice_ok_def)
  have "slice_range ?F s = [?g .. ?g + ?d - 1]" by (simp add: slice_range_def Let_def)
  then have "[?g .. ?g + ?d - 1] @ concat (map (slice_range ?F) ss) = [t .. (t + n) - 1]"
    using Cons.prems(3) by simp
  note sp = upto_hd_split [OF this s(2)]
  have dn: "?d \<le> n" using sp(1,2) by simp
  then have "nat ?d \<le> length ?bs" using Cons.prems(6) by simp
  note ws = write_slice_spec [OF assms(1,2) Cons.prems(1) s(1) this refl]
  let ?us = "take (nat ?d) ?bs" and ?vs = "take (nat (n - ?d)) (drop (nat ?d) ?bs)"
  have IH: "?im (ph_files ph') = splice (?im (ph_files ?ph1)) (nat (t + ?d))
           (take (nat (n - ?d)) (block_bytes E ?ph1 key))
     \<and> files_ok (ti_files ti) (ph_files ph')
     \<and> block_bytes E ph' key = drop (nat (n - ?d)) (block_bytes E ?ph1 key)"
  proof (rule Cons.IH)
    show "concat (map (slice_range ?F) ss) = [t + ?d .. t + ?d + (n - ?d) - 1]"
      using sp(1,3) by simp
    show "n - ?d \<le> int (length (block_bytes E ?ph1 key))" using ws(3) Cons.prems(6) dn s(2) by auto
  qed (use ws(2) Cons.prems dn s(2) in auto)
  have pos: "nat (t + ?d) = nat t + length ?us"
    using Cons.prems(4,6) dn s(2) by (simp add: nat_add_distrib)
  have n: "nat n = nat ?d + nat (n - ?d)" using dn s(2) by simp
  have join: "?us @ ?vs = take (nat n) ?bs" unfolding n by (simp add: take_add)
  have len: "length ?us = nat ?d" "length ?vs = nat (n - ?d)"
    using Cons.prems(6) dn s(2) by auto
  have fit: "nat t + length ?us + length ?vs \<le> length (?im (ph_files ph))"
    unfolding len using image_length [OF assms(2) Cons.prems(1)] Cons.prems(4,7) dn s(2) by linarith
  have "splice (splice (?im (ph_files ph)) (nat t) ?us) (nat (t + ?d)) ?vs
      = splice (?im (ph_files ph)) (nat t) (take (nat n) ?bs)"
    unfolding pos splice_splice [OF fit] join ..
  moreover have "drop (nat (n - ?d)) (drop (nat ?d) ?bs) = drop (nat n) ?bs"
    unfolding n by (simp add: add.commute)
  ultimately show ?case
    using IH unfolding ws(1,3) sp(1) by simp
qed

subsection \<open>One piece\<close>

text \<open>
  The abstract picture of one piece: its size, its number of blocks, where it starts in the
  torrent and its bytes as the blocks hold them. \<open>block_aligned\<close> is the restriction under
  which \<open>map_block\<close>, called with the full block length, stays inside the piece.
\<close>

abbreviation psize :: "torrent_info \<Rightarrow> u32 \<Rightarrow> int" where
  "psize ti i \<equiv> piece_size (ti_files ti) (sint i)"

abbreviation nblocks :: "torrent_info \<Rightarrow> u32 \<Rightarrow> nat" where
  "nblocks ti i \<equiv> nat (blocks_per_piece (psize ti i))"

abbreviation pstart :: "torrent_info \<Rightarrow> u32 \<Rightarrow> int" where
  "pstart ti i \<equiv> sint i * fs_piece_length (ti_files ti)"

definition block_aligned :: "torrent_info \<Rightarrow> bool" where
  "block_aligned ti \<longleftrightarrow> fs_piece_length (ti_files ti) mod BLOCK_LEN = 0"

definition in_torrent :: "torrent_info \<Rightarrow> u32 \<Rightarrow> bool" where
  "in_torrent ti i \<longleftrightarrow> 0 \<le> sint i \<and> sint i < fs_num_pieces (ti_files ti)"

definition piece_data :: "'b externals \<Rightarrow> torrent_info \<Rightarrow> u32 \<Rightarrow> 'b piece_handler \<Rightarrow> byte list" where
  "piece_data E ti i ph = concat (map (\<lambda>k. block_bytes E ph (i, block_begin k)) [0..<nblocks ti i])"

definition complete :: "torrent_info \<Rightarrow> u32 \<Rightarrow> 'b piece_handler \<Rightarrow> bool" where
  "complete ti i ph \<longleftrightarrow> (\<forall>k<nblocks ti i. rcvd (ph_received ph) (i, block_begin k))"

definition sized :: "'b externals \<Rightarrow> torrent_info \<Rightarrow> u32 \<Rightarrow> 'b piece_handler \<Rightarrow> bool" where
  "sized E ti i ph \<longleftrightarrow>
     (\<forall>k<nblocks ti i. int (length (block_bytes E ph (i, block_begin k))) = block_len (psize ti i) k)"

lemma block_clip:
  assumes "fs_ok (ti_files ti)" "block_aligned ti" "in_torrent ti i" "k < nblocks ti i"
    and t: "t = pstart ti i + int k * BLOCK_LEN"
  shows "clip (ti_files ti) t BLOCK_LEN = block_len (psize ti i) k"
    and "0 \<le> t" "t + block_len (psize ti i) k \<le> fs_total_size (ti_files ti)"
proof -
  let ?fs = "ti_files ti" and ?p = "psize ti i"
  have p: "0 < ?p" using piece_size_bounds [OF assms(1)] by blast
  note bl = block_len_bounds [OF p assms(4)]
  have i: "0 \<le> sint i" "sint i < fs_num_pieces ?fs" using assms(3) by (auto simp: in_torrent_def)
  have "0 \<le> pstart ti i" using i assms(1) by (simp add: fs_ok_def)
  then show "0 \<le> t" using t by (simp add: BLOCK_LEN_def)
  have le: "t + block_len ?p k \<le> pstart ti i + ?p" using t bl(3) by simp
  also have "\<dots> \<le> fs_total_size ?fs" by (rule piece_end_le_total [OF assms(1) i])
  finally show tot: "t + block_len ?p k \<le> fs_total_size ?fs" .
  show "clip ?fs t BLOCK_LEN = block_len ?p k"
  proof (cases "block_len ?p k = BLOCK_LEN")
    case True
    then show ?thesis using tot by (simp add: clip_def)
  next
    case False
    then have "?p mod BLOCK_LEN \<noteq> 0" "block_len ?p k = ?p - int k * BLOCK_LEN"
      using bl(2,3) by (auto simp: block_len_def min_def algebra_simps split: if_splits)
    moreover from this have last: "sint i = fs_num_pieces ?fs - 1"
      using assms(2) by (auto simp: block_aligned_def piece_size_def split: if_splits)
    moreover have "pstart ti i + ?p = fs_total_size ?fs"
      unfolding last by (rule last_piece_end [OF assms(1)])
    ultimately show ?thesis using t bl(2) by (simp add: clip_def)
  qed
qed

lemma write_slices_same_but: "same_but E {key} ph (fold (write_slice E ti key) ss ph)"
proof (induction ss arbitrary: ph)
  case (Cons s ss)
  show ?case using same_but_trans [OF write_slice_same_but Cons.IH] by simp
qed (simp add: same_but_refl)

lemma write_block_spec:
  assumes "bb_laws (ex_bb E)" "fs_ok (ti_files ti)" "block_aligned ti" "in_torrent ti i"
    and "files_ok (ti_files ti) (ph_files ph)" "k < nblocks ti i"
    and len: "int (length (block_bytes E ph (i, block_begin k))) = block_len (psize ti i) k"
    and ph': "ph' = write_block E ti i k ph"
  shows "image (ti_files ti) (ph_files ph') = splice (image (ti_files ti) (ph_files ph))
           (nat (pstart ti i + int k * BLOCK_LEN)) (block_bytes E ph (i, block_begin k))"
    and "files_ok (ti_files ti) (ph_files ph')"
    and "block_bytes E ph' (i, block_begin k) = []"
    and "same_but E {(i, block_begin k)} ph ph'"
proof -
  let ?fs = "ti_files ti" and ?key = "(i, block_begin k)"
  let ?t = "pstart ti i + int k * BLOCK_LEN"
  let ?ph1 = "ph\<lparr>ph_received := touch (ex_bb E) (ph_received ph) ?key\<rparr>"
  let ?ss = "map_block ?fs (sint i) (uint (block_begin k)) BLOCK_LEN"
  have p: "0 < psize ti i" "psize ti i < 2 ^ 31"
    using piece_size_bounds [OF assms(2)] piece_size_lt [OF assms(2)] by auto
  note bl = block_len_bounds [OF p(1) assms(6)] and bc = block_clip [OF assms(2-4,6) refl]
  note bb = block_begin_value [OF p assms(6)]
  have t: "?t = sint i * fs_piece_length ?fs + uint (block_begin k)" using bb by simp
  have lt: "?t < fs_total_size ?fs" using bc(3) bl(1) by simp
  have same: "block_bytes E ?ph1 ?key = block_bytes E ph ?key" by simp
  have e: "ph' = fold (write_slice E ti ?key) ?ss ?ph1" by (simp add: ph' write_block_def Let_def)
  show "same_but E {?key} ph ph'"
    using same_but_trans [OF _ write_slices_same_but, of E "{}" ph ?ph1 "{?key}" ?key ti ?ss]
    by (simp add: e same_but_def)
  have mb1: "concat (map (slice_range (fs_files ?fs)) ?ss) = [?t .. ?t + block_len (psize ti i) k - 1]"
    using map_block_spec(1) [OF assms(2) t bc(2) lt, of BLOCK_LEN] bc(1)
    by (simp add: BLOCK_LEN_def)
  have mb2: "\<forall>s\<in>set ?ss. slice_ok (fs_files ?fs) s"
    using map_block_spec(2) [OF assms(2) t bc(2) lt, of BLOCK_LEN]
    by (simp add: BLOCK_LEN_def)
  have "files_ok ?fs (ph_files ?ph1)" using assms(5) by simp
  from write_slices_spec [OF assms(1,2) this mb2 mb1 bc(2) _ _ bc(3) e] bl(1) len
  show "image ?fs (ph_files ph') = splice (image ?fs (ph_files ph)) (nat ?t) (block_bytes E ph ?key)"
    and "files_ok ?fs (ph_files ph')" "block_bytes E ph' ?key = []"
    by (simp_all add: nat_eq_iff)
qed

lemma block_begin_inj:
  assumes "fs_ok (ti_files ti)" "j < nblocks ti i" "k < nblocks ti i" "block_begin j = block_begin k"
  shows "j = k"
proof -
  have p: "0 < psize ti i" "psize ti i < 2 ^ 31"
    using piece_size_bounds [OF assms(1)] piece_size_lt [OF assms(1)] by auto
  have "int j * BLOCK_LEN = int k * BLOCK_LEN"
    using block_begin_value [OF p assms(2)] block_begin_value [OF p assms(3)] assms(4) by metis
  moreover have "BLOCK_LEN \<noteq> 0" by (simp add: BLOCK_LEN_def)
  ultimately show ?thesis by simp
qed

lemma piece_data_prefix_length:
  assumes "fs_ok (ti_files ti)" "sized E ti i ph" "n \<le> nblocks ti i"
  shows "int (length (concat (map (\<lambda>k. block_bytes E ph (i, block_begin k)) [0..<n])))
    = min (psize ti i) (int n * BLOCK_LEN)"
  using assms(3)
proof (induction n)
  case 0
  then show ?case using piece_size_bounds [OF assms(1), of "sint i"] by simp
next
  case (Suc n)
  have p: "0 < psize ti i" using piece_size_bounds [OF assms(1)] by blast
  have n: "n < nblocks ti i" using Suc.prems by simp
  have "int n * BLOCK_LEN + block_len (psize ti i) n = min (psize ti i) (int (Suc n) * BLOCK_LEN)"
    by (rule block_len_bounds [OF p n])
  moreover have "int n * BLOCK_LEN \<le> psize ti i"
  proof -
    have "int n * BLOCK_LEN \<le> (blocks_per_piece (psize ti i) - 1) * BLOCK_LEN"
      using n by (intro mult_right_mono) (auto simp: BLOCK_LEN_def)
    with blocks_per_piece_bounds(2) [OF p] show ?thesis by simp
  qed
  moreover have "int (length (block_bytes E ph (i, block_begin n))) = block_len (psize ti i) n"
    using assms(2) n by (simp add: sized_def)
  ultimately show ?case using Suc by (simp add: min_absorb2)
qed

lemma piece_data_length:
  assumes "fs_ok (ti_files ti)" "sized E ti i ph"
  shows "int (length (piece_data E ti i ph)) = psize ti i"
proof -
  have p: "0 < psize ti i" using piece_size_bounds [OF assms(1)] by blast
  show ?thesis
    using piece_data_prefix_length [OF assms order_refl] blocks_per_piece_bounds(1,3) [OF p]
    by (simp add: piece_data_def)
qed

lemma write_blocks_spec:
  assumes E: "bb_laws (ex_bb E)" "fs_ok (ti_files ti)" "block_aligned ti" "in_torrent ti i"
    and "files_ok (ti_files ti) (ph_files ph)" "sized E ti i ph" "n \<le> nblocks ti i"
  shows "let ph' = fold (write_block E ti i) [0..<n] ph in
     image (ti_files ti) (ph_files ph') = splice (image (ti_files ti) (ph_files ph)) (nat (pstart ti i))
         (concat (map (\<lambda>k. block_bytes E ph (i, block_begin k)) [0..<n]))
     \<and> files_ok (ti_files ti) (ph_files ph')
     \<and> (\<forall>k<n. block_bytes E ph' (i, block_begin k) = [])
     \<and> same_but E {(i, block_begin k) |k. k < n} ph ph'"
  using assms(7)
proof (induction n)
  case 0
  then show ?case using assms(5) by (simp add: same_but_def)
next
  case (Suc n)
  let ?fs = "ti_files ti" and ?im = "image (ti_files ti)" and ?key = "\<lambda>k. (i, block_begin k)"
  let ?bs = "\<lambda>n. concat (map (\<lambda>k. block_bytes E ph (?key k)) [0..<n])"
  define ph1 where "ph1 = fold (write_block E ti i) [0..<n] ph"
  define ph2 where "ph2 = write_block E ti i n ph1"
  have n: "n < nblocks ti i" using Suc.prems by simp
  have IH: "?im (ph_files ph1) = splice (?im (ph_files ph)) (nat (pstart ti i)) (?bs n)"
    "files_ok ?fs (ph_files ph1)" "\<forall>k<n. block_bytes E ph1 (?key k) = []"
    "same_but E {?key k |k. k < n} ph ph1"
    using Suc by (simp_all add: ph1_def Let_def)
  have "block_begin k \<noteq> block_begin n" if "k < n" for k
    using block_begin_inj [OF E(2) _ n, of k] that n by linarith
  then have new: "?key n \<notin> {?key k |k. k < n}" by fastforce
  have b: "block_bytes E ph1 (?key n) = block_bytes E ph (?key n)"
    using IH(4) new by (simp add: same_but_def)
  then have "int (length (block_bytes E ph1 (?key n))) = block_len (psize ti i) n"
    using assms(6) n by (simp add: sized_def)
  note w = write_block_spec [OF E IH(2) n this ph2_def]
  have p: "0 < psize ti i" using piece_size_bounds [OF E(2)] by blast
  have "int n * BLOCK_LEN \<le> psize ti i"
    using block_len_bounds(1,3) [OF p n] by simp
  then have len: "int (length (?bs n)) = int n * BLOCK_LEN"
    using piece_data_prefix_length [OF E(2) assms(6), of n] n by simp
  have st: "0 \<le> pstart ti i" using E(2,4) by (simp add: in_torrent_def fs_ok_def)
  have pos: "nat (pstart ti i + int n * BLOCK_LEN) = nat (pstart ti i) + length (?bs n)"
    unfolding len [symmetric] nat_add_distrib [OF st of_nat_0_le_iff] nat_int ..
  have "int (length (?bs (Suc n))) \<le> psize ti i"
    using piece_data_prefix_length [OF E(2) assms(6) Suc.prems] by simp
  moreover have "pstart ti i + psize ti i \<le> fs_total_size ?fs"
    using E(4) by (intro piece_end_le_total [OF E(2)]) (auto simp: in_torrent_def)
  ultimately have fit: "nat (pstart ti i) + length (?bs n) + length (block_bytes E ph (?key n))
      \<le> length (?im (ph_files ph))"
    using image_length [OF E(2) assms(5)] st by simp
  have im: "?im (ph_files ph2) = splice (?im (ph_files ph)) (nat (pstart ti i)) (?bs (Suc n))"
    unfolding w(1) IH(1) b pos splice_splice [OF fit] by simp
  have "block_bytes E ph2 (?key k) = []" if "k < Suc n" for k
  proof (cases "k = n")
    case False
    then have "?key k \<noteq> ?key n" using block_begin_inj [OF E(2) _ n, of k] that n by auto
    then show ?thesis using w(4) IH(3) that False by (simp add: same_but_def)
  qed (simp add: w(3))
  moreover have "same_but E {?key k |k. k < Suc n} ph ph2"
    by (rule same_but_trans [OF IH(4) w(4)]) auto
  moreover have "fold (write_block E ti i) [0..<Suc n] ph = ph2" by (simp add: ph1_def ph2_def)
  ultimately show ?case using im w(2) by (simp add: Let_def)
qed

subsection \<open>Checking a piece against its hash\<close>

lemma hash_blocks_spec:
  assumes "hash_blocks B i ks acc m = (res, m')"
  shows "block_at B m' = block_at B m"
    and "res = (if \<forall>k\<in>set ks. rcvd m (i, block_begin k)
        then Some (acc @ concat (map (\<lambda>k. rd B (rb_block (block_at B m (i, block_begin k)))) ks)) else None)"
proof -
  have "block_at B m' = block_at B m \<and> res = (if \<forall>k\<in>set ks. rcvd m (i, block_begin k)
        then Some (acc @ concat (map (\<lambda>k. rd B (rb_block (block_at B m (i, block_begin k)))) ks)) else None)"
    using assms
  proof (induction ks arbitrary: acc m)
    case (Cons k ks)
    show ?case
    proof (cases "rcvd m (i, block_begin k)")
      case True
      with Cons.prems have "hash_blocks B i ks
          (acc @ rd B (rb_block (block_at B m (i, block_begin k)))) (touch B m (i, block_begin k)) = (res, m')"
        by (simp add: Let_def)
      from Cons.IH [OF this] True show ?thesis by simp
    qed (use Cons.prems in \<open>auto simp: Let_def\<close>)
  qed simp
  then show "block_at B m' = block_at B m"
    and "res = (if \<forall>k\<in>set ks. rcvd m (i, block_begin k)
        then Some (acc @ concat (map (\<lambda>k. rd B (rb_block (block_at B m (i, block_begin k)))) ks)) else None)"
    by blast+
qed

definition valid_piece :: "'b externals \<Rightarrow> torrent_info \<Rightarrow> u32 \<Rightarrow> 'b piece_handler \<Rightarrow> bool" where
  "valid_piece E ti i ph \<longleftrightarrow>
     complete ti i ph \<and> ex_sha1 E (piece_data E ti i ph) = ti_hash_for_piece ti (sint i)"

lemma write_if_valid_cases:
  assumes "write_if_valid E ti i ph = (ok, ph')"
  obtains (invalid) "\<not> ok" "\<not> valid_piece E ti i ph" "quiet (ex_bb E) ph ph'"
      "ph_have ph' = ph_have ph" "ph_requests ph' = ph_requests ph"
    | (valid) ph1 where "ok" "valid_piece E ti i ph" "quiet (ex_bb E) ph ph1"
      "ph_have ph1 = ph_have ph" "ph_requests ph1 = ph_requests ph"
      "ph' = (let p = fold (write_block E ti i) [0..<nblocks ti i] ph1 in p\<lparr>ph_written := ph_written p + 1\<rparr>)"
proof -
  obtain res m' where h: "hash_blocks (ex_bb E) i [0..<nblocks ti i] [] (ph_received ph) = (res, m')"
    by fastforce
  note hs = hash_blocks_spec [OF h]
  let ?ph1 = "ph\<lparr>ph_received := m'\<rparr>"
  have q: "quiet (ex_bb E) ph ?ph1" using hs(1) by (simp add: quiet_def)
  have res: "res = (if complete ti i ph then Some (piece_data E ti i ph) else None)"
    using hs(2) by (auto simp: complete_def piece_data_def)
  show ?thesis
  proof (cases "valid_piece E ti i ph")
    case True
    then have "ok" "ph' = (let p = fold (write_block E ti i) [0..<nblocks ti i] ?ph1 in
        p\<lparr>ph_written := ph_written p + 1\<rparr>)"
      using assms h res by (auto simp: write_if_valid_def Let_def valid_piece_def)
    with True q show ?thesis by (intro that(2) [of ?ph1]) simp_all
  next
    case False
    then have "\<not> ok" "ph' = ?ph1"
      using assms h res by (auto simp: write_if_valid_def Let_def valid_piece_def split: if_splits)
    with False q show ?thesis by (intro that(1)) simp_all
  qed
qed

lemma quiet_piece:
  assumes "quiet (ex_bb E) ph ph'"
  shows "piece_data E ti i ph' = piece_data E ti i ph" "sized E ti i ph' = sized E ti i ph"
    and "complete ti i ph' = complete ti i ph"
  using assms quiet_rcvd [OF assms] by (simp_all add: piece_data_def sized_def complete_def quiet_def)

lemma write_if_valid_image:
  assumes "bb_laws (ex_bb E)" "fs_ok (ti_files ti)" "block_aligned ti" "in_torrent ti i"
    and "files_ok (ti_files ti) (ph_files ph)" "sized E ti i ph" "valid_piece E ti i ph"
    and w: "write_if_valid E ti i ph = (ok, ph')"
  shows "ok" "ph_written ph' = ph_written ph + 1"
    and "image (ti_files ti) (ph_files ph') = splice (image (ti_files ti) (ph_files ph))
           (nat (pstart ti i)) (piece_data E ti i ph)"
    and "files_ok (ti_files ti) (ph_files ph')"
    and "\<forall>k<nblocks ti i. block_bytes E ph' (i, block_begin k) = []"
    and "rcvd (ph_received ph') = rcvd (ph_received ph)"
    and "\<forall>key. (\<forall>k<nblocks ti i. key \<noteq> (i, block_begin k)) \<longrightarrow>
           block_at (ex_bb E) (ph_received ph') key = block_at (ex_bb E) (ph_received ph) key"
    and "ph_have ph' = ph_have ph" "ph_requests ph' = ph_requests ph"
proof -
  obtain ph1 where v: "ok" "quiet (ex_bb E) ph ph1" "ph_have ph1 = ph_have ph"
    "ph_requests ph1 = ph_requests ph"
    "ph' = (let p = fold (write_block E ti i) [0..<nblocks ti i] ph1 in p\<lparr>ph_written := ph_written p + 1\<rparr>)"
    using w assms(7) by (cases rule: write_if_valid_cases) auto
  define ph2 where "ph2 = fold (write_block E ti i) [0..<nblocks ti i] ph1"
  note qp = quiet_piece [OF v(2)] and qr = quiet_rcvd [OF v(2)]
  have "files_ok (ti_files ti) (ph_files ph1)" "sized E ti i ph1"
    using assms(5,6) qp v(2) by (simp_all add: quiet_def)
  from write_blocks_spec [OF assms(1-4) this order_refl]
  have s: "image (ti_files ti) (ph_files ph2) = splice (image (ti_files ti) (ph_files ph1))
      (nat (pstart ti i)) (piece_data E ti i ph1)"
    "files_ok (ti_files ti) (ph_files ph2)" "\<forall>k<nblocks ti i. block_bytes E ph2 (i, block_begin k) = []"
    "same_but E {(i, block_begin k) |k. k < nblocks ti i} ph1 ph2"
    by (simp_all add: ph2_def piece_data_def Let_def)
  have ph': "ph' = ph2\<lparr>ph_written := ph_written ph2 + 1\<rparr>" by (simp add: v(5) ph2_def Let_def)
  show "ok" by (rule v(1))
  show "ph_written ph' = ph_written ph + 1" "ph_have ph' = ph_have ph" "ph_requests ph' = ph_requests ph"
    "rcvd (ph_received ph') = rcvd (ph_received ph)"
    using s(4) v(2-4) qr by (simp_all add: ph' same_but_def quiet_def)
  show "image (ti_files ti) (ph_files ph') = splice (image (ti_files ti) (ph_files ph))
           (nat (pstart ti i)) (piece_data E ti i ph)"
    using s(1) qp(1) v(2) by (simp add: ph' quiet_def)
  show "files_ok (ti_files ti) (ph_files ph')" "\<forall>k<nblocks ti i. block_bytes E ph' (i, block_begin k) = []"
    using s(2,3) by (simp_all add: ph')
  show "\<forall>key. (\<forall>k<nblocks ti i. key \<noteq> (i, block_begin k)) \<longrightarrow>
           block_at (ex_bb E) (ph_received ph') key = block_at (ex_bb E) (ph_received ph) key"
    using s(4) v(2) by (auto simp: ph' same_but_def quiet_def)
qed

end
