(* ===== verification/Download.thy ===== *)
theory Download
  imports Piece_Writes
begin

section \<open>A whole download\<close>

text \<open>
  The operations of the piece handler in any order, as the peer connections call them. While
  peers send blocks of the length they were asked for, the pieces counted as written are
  distinct pieces of the torrent, and the bytes on disk at the place of each have the hash the
  torrent file gives. A piece that was received whole and failed its hash is stuck: nothing
  changes it and none of its blocks is requested again.
\<close>

subsection \<open>One received block\<close>

definition store_block :: "'b externals \<Rightarrow> u32 \<Rightarrow> u32 \<Rightarrow> byte list \<Rightarrow> 'b piece_handler \<Rightarrow> 'b piece_handler" where
  "store_block E i b d ph = ph\<lparr>ph_received := (ph_received ph)((i, b) \<mapsto>
     \<lparr>rb_received = True,
      rb_block = bb_write (ex_bb E) d (rb_block (block_at (ex_bb E) (ph_received ph) (i, b)))\<rparr>)\<rparr>"

lemma store_block_simps [simp]:
  "ph_have (store_block E i b d ph) = ph_have ph"
  "ph_requests (store_block E i b d ph) = ph_requests ph"
  "ph_files (store_block E i b d ph) = ph_files ph"
  "ph_written (store_block E i b d ph) = ph_written ph"
  "rcvd (ph_received (store_block E i b d ph)) = (rcvd (ph_received ph))((i, b) := True)"
  by (simp_all add: store_block_def rcvd_upd fun_eq_iff)

lemma store_block_other:
  "key \<noteq> (i, b) \<Longrightarrow> block_at (ex_bb E) (ph_received (store_block E i b d ph)) key
     = block_at (ex_bb E) (ph_received ph) key"
  by (simp add: store_block_def block_at_upd)

lemma store_block_bytes:
  assumes "bb_laws (ex_bb E)"
  shows "block_bytes E (store_block E i b d ph) (i, b) = block_bytes E ph (i, b) @ d"
  by (simp add: store_block_def block_at_upd bb_rd(4) [OF assms])

lemma touch_upd: "(touch B m k)(k \<mapsto> v) = m(k \<mapsto> v)"
  by (auto simp: touch_def fun_eq_iff split: option.split)

lemma received_eq:
  assumes "bb_read_32 (ex_bb E) pc = (i, pc1)" "bb_read_32 (ex_bb E) pc1 = (b, pc2)"
  shows "received E ti pc ph =
    (if rcvd (ph_received ph) (i, b)
     then (False, ph\<lparr>ph_received := touch (ex_bb E) (ph_received ph) (i, b)\<rparr>)
     else let (ok, ph') = write_if_valid E ti i (store_block E i b (rd (ex_bb E) pc2) ph)
          in (ok \<and> is_done ti ph', ph'))"
  using assms by (simp add: received_def Let_def touch_upd store_block_def)

lemma received_any:
  assumes "received E ti pc ph = (stop, ph')"
  obtains (duplicate) "quiet (ex_bb E) ph ph'" "ph_have ph' = ph_have ph" "ph_requests ph' = ph_requests ph"
    | (fresh) i b d ok where "\<not> rcvd (ph_received ph) (i, b)"
      "write_if_valid E ti i (store_block E i b d ph) = (ok, ph')"
proof -
  obtain i pc1 where r1: "bb_read_32 (ex_bb E) pc = (i, pc1)" by fastforce
  obtain b pc2 where r2: "bb_read_32 (ex_bb E) pc1 = (b, pc2)" by fastforce
  show ?thesis
  proof (cases "rcvd (ph_received ph) (i, b)")
    case True
    then show ?thesis using assms by (intro that(1)) (auto simp: received_eq [OF r1 r2] quiet_def)
  next
    case False
    obtain ok p where "write_if_valid E ti i (store_block E i b (rd (ex_bb E) pc2) ph) = (ok, p)" by fastforce
    with False show ?thesis using assms by (intro that(2)) (auto simp: received_eq [OF r1 r2])
  qed
qed

lemma received_cases:
  assumes "bb_laws (ex_bb E)" "rd (ex_bb E) pc = be 4 i @ be 4 b @ d" "received E ti pc ph = (stop, ph')"
  obtains (duplicate) "rcvd (ph_received ph) (i, b)" "\<not> stop" "quiet (ex_bb E) ph ph'"
      "ph_have ph' = ph_have ph" "ph_requests ph' = ph_requests ph"
    | (fresh) ok where "\<not> rcvd (ph_received ph) (i, b)"
      "write_if_valid E ti i (store_block E i b d ph) = (ok, ph')" "stop \<longleftrightarrow> ok \<and> is_done ti ph'"
proof -
  let ?B = "ex_bb E"
  obtain v pc1 where r1: "bb_read_32 ?B pc = (v, pc1)" by fastforce
  have v: "v = i" and pc1: "rd ?B pc1 = be 4 b @ d"
    using bb_consume(8,9) [OF assms(1), of pc] r1 by (simp_all add: assms(2))
  obtain u pc2 where r2: "bb_read_32 ?B pc1 = (u, pc2)" by fastforce
  have u: "u = b" and pc2: "rd ?B pc2 = d"
    using bb_consume(8,9) [OF assms(1), of pc1] r2 by (simp_all add: pc1)
  note eq = received_eq [OF r1 r2, of ti ph, unfolded v u pc2 assms(3)]
  show ?thesis
  proof (cases "rcvd (ph_received ph) (i, b)")
    case True
    then show ?thesis using eq by (intro that(1)) (auto simp: quiet_def)
  next
    case False
    obtain ok p where "write_if_valid E ti i (store_block E i b d ph) = (ok, p)" by fastforce
    with False show ?thesis using eq by (intro that(2)) auto
  qed
qed

subsection \<open>The state of a download\<close>

definition region :: "torrent_info \<Rightarrow> u32 \<Rightarrow> byte list \<Rightarrow> byte list" where
  "region ti i im = take (nat (psize ti i)) (drop (nat (pstart ti i)) im)"

lemma region_same:
  assumes "fs_ok (ti_files ti)" "in_torrent ti i" "int (length im) = fs_total_size (ti_files ti)"
    and "int (length d) = psize ti i"
  shows "region ti i (splice im (nat (pstart ti i)) d) = d"
proof -
  have "pstart ti i + psize ti i \<le> fs_total_size (ti_files ti)" "0 \<le> pstart ti i"
    using assms(1,2) piece_end_le_total [OF assms(1)] by (auto simp: in_torrent_def fs_ok_def)
  then have "nat (pstart ti i) \<le> length im" using assms(3) piece_size_bounds [OF assms(1), of "sint i"] by linarith
  moreover have "nat (psize ti i) = length d" using assms(4) by simp
  ultimately show ?thesis by (simp add: region_def splice_def)
qed

lemma region_other:
  assumes "fs_ok (ti_files ti)" "in_torrent ti i" "in_torrent ti j" "i \<noteq> j"
    and "int (length im) = fs_total_size (ti_files ti)" "int (length d) = psize ti i"
  shows "region ti j (splice im (nat (pstart ti i)) d) = region ti j im"
proof -
  let ?L = "fs_piece_length (ti_files ti)"
  have ij: "0 \<le> sint i" "0 \<le> sint j" "sint i \<noteq> sint j"
    using assms(2-4) by (simp_all add: in_torrent_def signed_word_eqI) (metis signed_word_eqI)
  have L: "0 < ?L" using assms(1) by (simp add: fs_ok_def)
  have pos: "0 \<le> pstart ti i" "0 \<le> pstart ti j" using ij L by simp_all
  have sz: "0 < psize ti i" "psize ti i \<le> ?L" "0 < psize ti j" "psize ti j \<le> ?L"
    using piece_size_bounds [OF assms(1)] by auto
  have ends: "pstart ti i + psize ti i \<le> int (length im)"
    using piece_end_le_total [OF assms(1)] assms(2,5) by (auto simp: in_torrent_def)
  have "pstart ti i + ?L \<le> pstart ti j \<or> pstart ti j + ?L \<le> pstart ti i"
  proof -
    have "sint i + 1 \<le> sint j \<or> sint j + 1 \<le> sint i" using ij by linarith
    then have "(sint i + 1) * ?L \<le> sint j * ?L \<or> (sint j + 1) * ?L \<le> sint i * ?L"
      using L by (auto intro: mult_right_mono)
    then show ?thesis by (simp add: distrib_right)
  qed
  then consider "nat (pstart ti i) + length d \<le> nat (pstart ti j)"
    | "nat (pstart ti j) + nat (psize ti j) \<le> nat (pstart ti i)"
    using pos sz assms(6) by linarith
  then show ?thesis
  proof cases
    case 1
    have "nat (pstart ti i) \<le> length im" using ends sz(1) by linarith
    with 1 show ?thesis by (simp add: region_def splice_def)
  next
    case 2
    have "nat (pstart ti i) \<le> length im" using ends sz(1) by linarith
    with 2 show ?thesis by (simp add: region_def splice_def drop_take min_absorb1)
  qed
qed

text \<open>\<open>W\<close> is the set of the pieces written so far.\<close>

definition download_inv :: "'b externals \<Rightarrow> torrent_info \<Rightarrow> u32 set \<Rightarrow> 'b piece_handler \<Rightarrow> bool" where
  "download_inv E ti W ph \<longleftrightarrow>
     files_ok (ti_files ti) (ph_files ph) \<and> ph_written ph = int (card W) \<and>
     (\<forall>key. \<not> rcvd (ph_received ph) key \<longrightarrow> block_bytes E ph key = []) \<and>
     (\<forall>i\<in>W. in_torrent ti i \<and> complete ti i ph \<and>
        (\<forall>k<nblocks ti i. block_bytes E ph (i, block_begin k) = []) \<and>
        ex_sha1 E (region ti i (image (ti_files ti) (ph_files ph))) = ti_hash_for_piece ti (sint i)) \<and>
     (\<forall>i k. in_torrent ti i \<and> i \<notin> W \<and> k < nblocks ti i \<and> rcvd (ph_received ph) (i, block_begin k) \<longrightarrow>
        int (length (block_bytes E ph (i, block_begin k))) = block_len (psize ti i) k)"

lemma download_inv_quiet:
  assumes "quiet (ex_bb E) ph ph'" "download_inv E ti W ph"
  shows "download_inv E ti W ph'"
  using assms(2) quiet_rcvd [OF assms(1)] assms(1)
  by (simp add: download_inv_def quiet_def complete_def)

lemma download_inv_init:
  assumes "bb_laws (ex_bb E)" "files_ok (ti_files ti) files"
  shows "download_inv E ti {}
    \<lparr>ph_have = Map.empty, ph_requests = Map.empty, ph_received = Map.empty, ph_files = files, ph_written = 0\<rparr>"
  using assms by (simp add: download_inv_def rcvd_def block_at_def lookup_or_def bb_rd(1))

lemma sint_small: "0 \<le> k \<Longrightarrow> k < 2 ^ 31 \<Longrightarrow> sint (word_of_int k :: u32) = k"
  by (simp add: signed_take_bit_int_eq_self sint_sbintrunc')

lemma card_in_torrent:
  assumes "fs_ok (ti_files ti)"
  shows "int (card {i. in_torrent ti i}) = fs_num_pieces (ti_files ti)"
proof -
  let ?n = "fs_num_pieces (ti_files ti)"
  have n: "0 < ?n" "?n < 2 ^ 31" using assms by (auto simp: fs_ok_def)
  have "{i. in_torrent ti i} = word_of_int ` {0..<?n}"
  proof (intro set_eqI iffI)
    fix i :: u32 assume "i \<in> {i. in_torrent ti i}"
    then have "i = word_of_int (sint i)" "sint i \<in> {0..<?n}" by (auto simp: in_torrent_def)
    then show "i \<in> word_of_int ` {0..<?n}" by blast
  next
    fix i :: u32 assume "i \<in> word_of_int ` {0..<?n}"
    then obtain k where k: "i = word_of_int k" "0 \<le> k" "k < ?n" by auto
    then have "sint i = k" using n by (simp add: sint_small)
    with k show "i \<in> {i. in_torrent ti i}" by (simp add: in_torrent_def)
  qed
  moreover have "inj_on (word_of_int :: int \<Rightarrow> u32) {0..<?n}"
  proof (rule inj_onI)
    fix x y assume xy: "x \<in> {0..<?n}" "y \<in> {0..<?n}" "(word_of_int x :: u32) = word_of_int y"
    have "x = sint (word_of_int x :: u32)" using xy(1) n by (intro sint_small [symmetric]) auto
    also have "\<dots> = sint (word_of_int y :: u32)" by (simp only: xy(3))
    also have "\<dots> = y" using xy(2) n by (intro sint_small) auto
    finally show "x = y" .
  qed
  ultimately show ?thesis using n by (simp add: card_image)
qed


text \<open>
  A peer is honest about a block when the piece is one of the torrent and the data has the
  length that a request for it would have asked for.
\<close>

definition honest :: "torrent_info \<Rightarrow> u32 \<Rightarrow> u32 \<Rightarrow> byte list \<Rightarrow> bool" where
  "honest ti i b d \<longleftrightarrow> in_torrent ti i \<and>
     (\<forall>k<nblocks ti i. b = block_begin k \<longrightarrow> int (length d) = block_len (psize ti i) k)"

definition no_empty_hash :: "'b externals \<Rightarrow> torrent_info \<Rightarrow> bool" where
  "no_empty_hash E ti \<longleftrightarrow> (\<forall>i. in_torrent ti i \<longrightarrow> ti_hash_for_piece ti (sint i) \<noteq> ex_sha1 E [])"

text \<open>The state after the data of a block is stored, before its piece is checked.\<close>

lemma store_block_inv:
  assumes laws: "bb_laws (ex_bb E)" and inv: "download_inv E ti W ph"
    and "honest ti i b d" "\<not> rcvd (ph_received ph) (i, b)"
  shows "download_inv E ti W (store_block E i b d ph)" (is "download_inv E ti W ?ph1")
proof -
  have r: "rcvd (ph_received ?ph1) key \<longleftrightarrow> key = (i, b) \<or> rcvd (ph_received ph) key" for key
    by simp
  have d: "block_bytes E ?ph1 key = (if key = (i, b) then d else block_bytes E ph key)" for key
    using inv assms(4) store_block_bytes [OF laws, of i b d ph]
    by (simp add: store_block_other download_inv_def)
  have keep: "(j, block_begin k) \<noteq> (i, b)" if "j \<in> W" "k < nblocks ti j" for j k
    using inv that assms(4) by (auto simp: download_inv_def complete_def)
  show ?thesis
    unfolding download_inv_def store_block_simps(3,4) d
  proof (intro conjI allI impI ballI)
    fix j k assume jk: "in_torrent ti j \<and> j \<notin> W \<and> k < nblocks ti j \<and> rcvd (ph_received ?ph1) (j, block_begin k)"
    then show "int (length (if (j, block_begin k) = (i, b) then d else block_bytes E ph (j, block_begin k)))
        = block_len (psize ti j) k"
      using inv assms(3) r [of "(j, block_begin k)"] by (auto simp: honest_def download_inv_def)
  qed (use inv r keep in \<open>auto simp: download_inv_def complete_def\<close>)
qed

lemma written_piece_not_valid:
  assumes "download_inv E ti W ph" "no_empty_hash E ti" "i \<in> W"
  shows "\<not> valid_piece E ti i ph"
proof -
  have "piece_data E ti i ph = []"
    using assms(1,3) by (simp add: download_inv_def piece_data_def)
  then show ?thesis using assms by (auto simp: valid_piece_def no_empty_hash_def download_inv_def)
qed

lemma write_valid_inv:
  assumes laws: "bb_laws (ex_bb E)" "fs_ok (ti_files ti)" "block_aligned ti" "in_torrent ti i"
    and inv: "download_inv E ti W ph" and "i \<notin> W" "valid_piece E ti i ph"
    and w: "write_if_valid E ti i ph = (ok, ph')"
  shows "download_inv E ti (insert i W) ph'"
proof -
  let ?im = "image (ti_files ti) (ph_files ph)" and ?d = "piece_data E ti i ph"
  have "files_ok (ti_files ti) (ph_files ph)" and sz: "sized E ti i ph"
    using inv assms(4,6,7) by (auto simp: download_inv_def sized_def valid_piece_def complete_def)
  note wi = write_if_valid_image [OF laws this assms(7) w]
  have len: "int (length ?im) = fs_total_size (ti_files ti)" "int (length ?d) = psize ti i"
    using image_length [OF laws(2)] inv piece_data_length [OF laws(2) sz] by (auto simp: download_inv_def)
  have other: "block_bytes E ph' (j, b) = block_bytes E ph (j, b)" if "j \<noteq> i" for j b
    using wi(7) that by simp
  have bytes: "block_bytes E ph' key = [] \<or> block_bytes E ph' key = block_bytes E ph key" for key
    using wi(5,7) by metis
  have W: "in_torrent ti j" "complete ti j ph" "\<forall>k<nblocks ti j. block_bytes E ph (j, block_begin k) = []"
    "ex_sha1 E (region ti j ?im) = ti_hash_for_piece ti (sint j)" if "j \<in> W" for j
    using inv that by (auto simp: download_inv_def)
  show ?thesis
    unfolding download_inv_def
  proof (intro conjI)
    show "ph_written ph' = int (card (insert i W))"
      using wi(2) inv assms(6) by (simp add: download_inv_def)
    show "\<forall>key. \<not> rcvd (ph_received ph') key \<longrightarrow> block_bytes E ph' key = []"
      using bytes inv unfolding wi(6) download_inv_def by metis
    show "\<forall>j k. in_torrent ti j \<and> j \<notin> insert i W \<and> k < nblocks ti j \<and> rcvd (ph_received ph') (j, block_begin k)
        \<longrightarrow> int (length (block_bytes E ph' (j, block_begin k))) = block_len (psize ti j) k"
      using inv other unfolding wi(6) download_inv_def by (metis insertI1 insertI2)
    show "\<forall>j\<in>insert i W. in_torrent ti j \<and> complete ti j ph' \<and>
        (\<forall>k<nblocks ti j. block_bytes E ph' (j, block_begin k) = []) \<and>
        ex_sha1 E (region ti j (image (ti_files ti) (ph_files ph'))) = ti_hash_for_piece ti (sint j)"
    proof
      fix j assume "j \<in> insert i W"
      then consider "j = i" | "j \<in> W" "j \<noteq> i" by blast
      then show "in_torrent ti j \<and> complete ti j ph' \<and>
        (\<forall>k<nblocks ti j. block_bytes E ph' (j, block_begin k) = []) \<and>
        ex_sha1 E (region ti j (image (ti_files ti) (ph_files ph'))) = ti_hash_for_piece ti (sint j)"
      proof cases
        case 1
        then show ?thesis
          using assms(4,7) wi(3,5,6) region_same [OF laws(2,4) len]
          by (simp add: valid_piece_def complete_def)
      next
        case 2
        then show ?thesis
          using W [OF 2(1)] other [OF 2(2)] wi(3,6) region_other [OF laws(2,4) W(1) [OF 2(1)] 2(2) [symmetric] len]
          by (simp add: complete_def)
      qed
    qed
  qed (rule wi(4))
qed

lemma received_inv:
  assumes laws: "bb_laws (ex_bb E)" "fs_ok (ti_files ti)" "block_aligned ti" "no_empty_hash E ti"
    and inv: "download_inv E ti W ph" and pc: "rd (ex_bb E) pc = be 4 i @ be 4 b @ d" "honest ti i b d"
    and r: "received E ti pc ph = (stop, ph')"
  shows "\<exists>W'. W \<subseteq> W' \<and> download_inv E ti W' ph' \<and> (stop \<longrightarrow> W' = {i. in_torrent ti i})"
  using laws(1) pc(1) r
proof (cases rule: received_cases)
  case duplicate
  then show ?thesis using download_inv_quiet [OF duplicate(3) inv] by blast
next
  case (fresh ok)
  note inv1 = store_block_inv [OF laws(1) inv pc(2) fresh(1)]
  have it: "in_torrent ti i" using pc(2) by (simp add: honest_def)
  show ?thesis using fresh(2)
  proof (cases rule: write_if_valid_cases)
    case invalid
    then show ?thesis using download_inv_quiet [OF invalid(3) inv1] fresh(3) by blast
  next
    case (valid ph2)
    then have "i \<notin> W" using written_piece_not_valid [OF inv1 laws(4)] by blast
    note inv' = write_valid_inv [OF laws(1-3) it inv1 this valid(2) fresh(2)]
    have "insert i W = {i. in_torrent ti i}" if stop
    proof (rule card_seteq)
      show "insert i W \<subseteq> {i. in_torrent ti i}" using inv' by (auto simp: download_inv_def)
      have "fs_num_pieces (ti_files ti) \<le> int (card (insert i W))"
        using that fresh(3) inv' by (simp add: is_done_def download_inv_def)
      then show "card {i. in_torrent ti i} \<le> card (insert i W)"
        using card_in_torrent [OF laws(2)] by linarith
    qed simp
    then show ?thesis using inv' by blast
  qed
qed


subsection \<open>Sequences of operations\<close>

datatype 'b ph_op =
    Op_have string u32
  | Op_bitfield string 'b
  | Op_get_request string
  | Op_received 'b

fun ph_step :: "'b externals \<Rightarrow> torrent_info \<Rightarrow> 'b ph_op \<Rightarrow> 'b piece_handler \<Rightarrow> bool \<times> 'b piece_handler" where
  "ph_step E ti (Op_have pid i) ph = (False, have_index E ti pid i ph)"
| "ph_step E ti (Op_bitfield pid bf) ph = (False, snd (have_bitfield E ti pid bf ph))"
| "ph_step E ti (Op_get_request pid) ph = (False, snd (get_piece_request E ti pid ph))"
| "ph_step E ti (Op_received pc) ph = received E ti pc ph"

text \<open>The first component records whether \<open>session_.stop()\<close> has been called.\<close>

fun ph_run :: "'b externals \<Rightarrow> torrent_info \<Rightarrow> 'b ph_op list \<Rightarrow> bool \<times> 'b piece_handler \<Rightarrow> bool \<times> 'b piece_handler" where
  "ph_run E ti [] s = s"
| "ph_run E ti (op # ops) (stopped, ph) =
     (let (stop, ph') = ph_step E ti op ph in ph_run E ti ops (stopped \<or> stop, ph'))"

lemma ph_run_append: "ph_run E ti (xs @ ys) s = ph_run E ti ys (ph_run E ti xs s)"
  by (induction xs arbitrary: s) (auto split: prod.splits)

fun honest_op :: "'b externals \<Rightarrow> torrent_info \<Rightarrow> 'b ph_op \<Rightarrow> bool" where
  "honest_op E ti (Op_received pc) =
     (let bs = rd (ex_bb E) pc in
      8 \<le> length bs \<and> honest ti (of_be (take 4 bs)) (of_be (take 4 (drop 4 bs))) (drop 8 bs))"
| "honest_op E ti _ = True"

lemma split_piece_payload:
  assumes "8 \<le> length bs"
  shows "bs = be 4 (of_be (take 4 bs) :: u32) @ be 4 (of_be (take 4 (drop 4 bs)) :: u32) @ drop 8 bs"
proof -
  have "be 4 (of_be (take 4 bs) :: u32) = take 4 bs" "be 4 (of_be (take 4 (drop 4 bs)) :: u32) = take 4 (drop 4 bs)"
    using assms by (simp_all add: be_of_be)
  moreover have "bs = take 4 bs @ take 4 (drop 4 bs) @ drop 8 bs"
    using append_take_drop_id [of 4 bs] append_take_drop_id [of 4 "drop 4 bs"] by simp
  ultimately show ?thesis by simp
qed

lemma quiet_step:
  assumes "bb_laws (ex_bb E)" "ph_step E ti op ph = (stop, ph')" "\<forall>pc. op \<noteq> Op_received pc"
  shows "quiet (ex_bb E) ph ph'" "\<not> stop"
proof -
  have "quiet (ex_bb E) ph ph' \<and> \<not> stop"
    using assms(2,3)
  proof (cases op)
    case (Op_have pid i)
    then show ?thesis using assms(2) have_index_spec(1) by auto
  next
    case (Op_bitfield pid bf)
    then show ?thesis
      using assms(2) have_bitfield_spec(1) [OF assms(1)]
      by (cases "have_bitfield E ti pid bf ph") auto
  next
    case (Op_get_request pid)
    obtain f r p where g: "get_piece_request E ti pid ph = ((f, r), p)" by (metis prod.exhaust)
    then have "quiet (ex_bb E) ph p" by (rule get_piece_request_cases)
    then show ?thesis using assms(2) Op_get_request g by simp
  qed simp
  then show "quiet (ex_bb E) ph ph'" "\<not> stop" by blast+
qed

lemma ph_run_inv:
  assumes laws: "bb_laws (ex_bb E)" "fs_ok (ti_files ti)" "block_aligned ti" "no_empty_hash E ti"
    and "\<forall>op\<in>set ops. honest_op E ti op" "download_inv E ti W ph"
    and "stopped \<longrightarrow> W = {i. in_torrent ti i}" "ph_run E ti ops (stopped, ph) = (stopped', ph')"
  shows "\<exists>W'. W \<subseteq> W' \<and> download_inv E ti W' ph' \<and> (stopped' \<longrightarrow> W' = {i. in_torrent ti i})"
  using assms(5-8)
proof (induction ops arbitrary: W ph stopped)
  case Nil
  then show ?case by auto
next
  case (Cons op ops)
  obtain stop ph1 where st: "ph_step E ti op ph = (stop, ph1)" by fastforce
  have "\<exists>W1. W \<subseteq> W1 \<and> download_inv E ti W1 ph1 \<and> (stop \<longrightarrow> W1 = {i. in_torrent ti i})"
  proof (cases "\<exists>pc. op = Op_received pc")
    case True
    then obtain pc where op: "op = Op_received pc" by blast
    let ?bs = "rd (ex_bb E) pc"
    have h: "8 \<le> length ?bs" "honest ti (of_be (take 4 ?bs)) (of_be (take 4 (drop 4 ?bs))) (drop 8 ?bs)"
      using Cons.prems(1) op by (simp_all add: Let_def)
    show ?thesis
      using received_inv [OF laws Cons.prems(2) split_piece_payload [OF h(1)] h(2)] st op by simp
  next
    case False
    then show ?thesis
      using quiet_step [OF laws(1) st] download_inv_quiet [OF _ Cons.prems(2)] by blast
  qed
  then obtain W1 where W1: "W \<subseteq> W1" "download_inv E ti W1 ph1" "stop \<longrightarrow> W1 = {i. in_torrent ti i}" by blast
  moreover have "W1 \<subseteq> {i. in_torrent ti i}" using W1(2) unfolding download_inv_def by blast
  then have "stopped \<or> stop \<longrightarrow> W1 = {i. in_torrent ti i}" using W1(1,3) Cons.prems(3) by blast
  moreover have "ph_run E ti ops (stopped \<or> stop, ph1) = (stopped', ph')" using Cons.prems(4) st by simp
  ultimately obtain W' where "W1 \<subseteq> W'" "download_inv E ti W' ph'" "stopped' \<longrightarrow> W' = {i. in_torrent ti i}"
    using Cons.IH [of W1 ph1 "stopped \<or> stop"] Cons.prems(1) by (metis list.set_intros(2))
  then show ?case using W1(1) by blast
qed

subsection \<open>The state the constructor builds\<close>

lemma emplace_foldl:
  assumes "distinct (map f xs)" "\<forall>x\<in>set xs. m (f x) = None" "x \<in> set xs"
  shows "foldl (\<lambda>m x. emplace m (f x) (g x)) m xs (f x) = Some (g x)"
proof -
  have keep: "foldl (\<lambda>m x. emplace m (f x) (g x)) m xs k = m k" if "k \<notin> f ` set xs" for k m and xs :: "'b list"
    using that
  proof (induction xs arbitrary: m)
    case (Cons y ys)
    then show ?case by (simp add: emplace_def split: option.split)
  qed simp
  show ?thesis using assms
  proof (induction xs arbitrary: m)
    case (Cons y ys)
    have e: "emplace m (f y) (g y) = m(f y \<mapsto> g y)" using Cons.prems(2) by (simp add: emplace_def)
    show ?case
    proof (cases "x = y")
      case True
      then show ?thesis using keep [of "f y" ys] Cons.prems(1) by (simp add: e)
    next
      case False
      have "\<forall>z\<in>set ys. (m(f y \<mapsto> g y)) (f z) = None"
      proof
        fix z assume "z \<in> set ys"
        moreover from this have "f z \<noteq> f y" using Cons.prems(1) by (metis distinct.simps(2) imageI list.simps(9) set_map)
        ultimately show "(m(f y \<mapsto> g y)) (f z) = None" using Cons.prems(2) by simp
      qed
      moreover have "distinct (map f ys)" "x \<in> set ys" using Cons.prems False by simp_all
      ultimately show ?thesis unfolding foldl_Cons e by (intro Cons.IH)
    qed
  qed simp
qed

definition all_open :: "'b externals \<Rightarrow> torrent_info \<Rightarrow> bool" where
  "all_open E ti \<longleftrightarrow> (\<forall>i<length (fs_files (ti_files ti)). ex_open_ok E (file_path (ti_files ti) i))"

definition names_distinct :: "torrent_info \<Rightarrow> bool" where
  "names_distinct ti \<longleftrightarrow> distinct (map fe_name (fs_files (ti_files ti)))"

lemma ctor_files_ok:
  assumes "fs_ok (ti_files ti)" "all_open E ti" "names_distinct ti"
  shows "files_ok (ti_files ti) (ph_files (fst (piece_handler_ctor E ti)))"
proof -
  let ?fs = "ti_files ti" and ?F = "fs_files (ti_files ti)"
  let ?files = "ph_files (fst (piece_handler_ctor E ti))"
  have d: "distinct (map (file_name ?fs) [0..<length ?F])"
    using assms(3) by (simp add: names_distinct_def file_name_def distinct_conv_nth)
  have "?files (fe_name (?F ! i)) = Some (file_handler_ctor (ex_open_ok E) i ti)" if "i < length ?F" for i
    using emplace_foldl [OF d, of Map.empty i] that
    by (simp add: piece_handler_ctor_def Let_def file_range_def file_name_def)
  moreover have "fh_ready (fe_size (?F ! i)) (file_handler_ctor (ex_open_ok E) i ti)" if "i < length ?F" for i
    using file_handler_ctor_ready [of "ex_open_ok E" ti i] assms(1,2) that
      contiguous_sizes [of 0 ?F "?F ! i"]
    by (simp add: all_open_def file_size_def fs_ok_def)
  ultimately show ?thesis
    using assms(3) by (auto simp: files_ok_def names_distinct_def in_set_conv_nth)
qed

lemma ctor_inv:
  assumes "bb_laws (ex_bb E)" "fs_ok (ti_files ti)" "all_open E ti" "names_distinct ti"
  shows "download_inv E ti {} (fst (piece_handler_ctor E ti))"
  using download_inv_init [OF assms(1) ctor_files_ok [OF assms(2-4)]]
  by (simp add: piece_handler_ctor_def Let_def)


subsection \<open>What every operation keeps, whatever the peers send\<close>

lemma write_block_same_but: "same_but E {(i, block_begin k)} ph (write_block E ti i k ph)"
  using same_but_trans [OF _ write_slices_same_but, of E "{}" ph
      "ph\<lparr>ph_received := touch (ex_bb E) (ph_received ph) (i, block_begin k)\<rparr>" "{(i, block_begin k)}"]
  by (simp add: write_block_def Let_def same_but_def)

lemma write_blocks_same_but: "same_but E {key. fst key = i} ph (fold (write_block E ti i) ks ph)"
proof (induction ks arbitrary: ph)
  case (Cons k ks)
  show ?case
    using same_but_trans [OF write_block_same_but Cons.IH] by simp
qed (simp add: same_but_refl)

lemma write_if_valid_frame:
  assumes "write_if_valid E ti i ph = (ok, ph')"
  shows "ph_have ph' = ph_have ph" "ph_requests ph' = ph_requests ph"
    and "rcvd (ph_received ph') = rcvd (ph_received ph)"
    and "fst key \<noteq> i \<Longrightarrow> block_at (ex_bb E) (ph_received ph') key = block_at (ex_bb E) (ph_received ph) key"
proof -
  have "ph_have ph' = ph_have ph \<and> ph_requests ph' = ph_requests ph
     \<and> rcvd (ph_received ph') = rcvd (ph_received ph)
     \<and> (fst key \<noteq> i \<longrightarrow> block_at (ex_bb E) (ph_received ph') key = block_at (ex_bb E) (ph_received ph) key)"
    using assms
  proof (cases rule: write_if_valid_cases)
    case invalid
    then show ?thesis using quiet_rcvd [OF invalid(3)] by (simp add: quiet_def)
  next
    case (valid ph1)
    then show ?thesis
      using quiet_rcvd [OF valid(3)] write_blocks_same_but [of E i ph1 ti "[0..<nblocks ti i]"]
      by (cases key) (simp add: quiet_def same_but_def Let_def)
  qed
  then show "ph_have ph' = ph_have ph" "ph_requests ph' = ph_requests ph"
    and "rcvd (ph_received ph') = rcvd (ph_received ph)"
    and "fst key \<noteq> i \<Longrightarrow> block_at (ex_bb E) (ph_received ph') key = block_at (ex_bb E) (ph_received ph) key"
    by blast+
qed

lemma ph_step_requests_ok:
  assumes "bb_laws (ex_bb E)" "iter_laws E" "requests_ok ti ph" "ph_step E ti op ph = (stop, ph')"
  shows "requests_ok ti ph'"
proof (cases op)
  case (Op_have pid i)
  then show ?thesis using assms(3,4) have_index_ok by auto
next
  case (Op_bitfield pid bf)
  then show ?thesis
    using assms(3,4) have_bitfield_spec(3) [OF assms(1)]
    by (cases "have_bitfield E ti pid bf ph") auto
next
  case (Op_get_request pid)
  obtain f r p where "get_piece_request E ti pid ph = ((f, r), p)" by (metis prod.exhaust)
  then show ?thesis using get_piece_request_step(1) [OF assms(2,3)] assms(4) Op_get_request by simp
next
  case (Op_received pc)
  with assms(4) have "received E ti pc ph = (stop, ph')" by simp
  then have "ph_have ph' = ph_have ph \<and> ph_requests ph' = ph_requests ph"
  proof (cases rule: received_any)
    case (fresh i b d ok)
    then show ?thesis using write_if_valid_frame(1,2) [OF fresh(2)] by simp
  qed simp
  then show ?thesis using assms(3) by (simp add: requests_ok_def haves_def queue_def)
qed

lemma ph_step_rcvd_mono:
  assumes "bb_laws (ex_bb E)" "ph_step E ti op ph = (stop, ph')" "rcvd (ph_received ph) key"
  shows "rcvd (ph_received ph') key"
proof (cases "\<exists>pc. op = Op_received pc")
  case True
  with assms(2) obtain pc where "received E ti pc ph = (stop, ph')" by auto
  then show ?thesis
  proof (cases rule: received_any)
    case duplicate
    then show ?thesis using quiet_rcvd assms(3) by metis
  next
    case (fresh i b d ok)
    then show ?thesis using write_if_valid_frame(3) [OF fresh(2)] assms(3) by simp
  qed
next
  case False
  then have "quiet (ex_bb E) ph ph'" using quiet_step(1) [OF assms(1,2)] by blast
  then show ?thesis using quiet_rcvd assms(3) by metis
qed

definition corrupt :: "'b externals \<Rightarrow> torrent_info \<Rightarrow> u32 \<Rightarrow> 'b piece_handler \<Rightarrow> bool" where
  "corrupt E ti i ph \<longleftrightarrow>
     complete ti i ph \<and> ex_sha1 E (piece_data E ti i ph) \<noteq> ti_hash_for_piece ti (sint i)"

lemma blocks_of_begin:
  "r \<in> set (blocks_of ti i) \<Longrightarrow> \<exists>k<nblocks ti i. rq_begin r = block_begin k"
  by (auto simp: blocks_of_def block_request_def Let_def)

lemma corrupt_quiet: "quiet (ex_bb E) ph ph' \<Longrightarrow> corrupt E ti i ph' = corrupt E ti i ph"
  by (simp add: corrupt_def quiet_piece)

lemma ph_step_corrupt:
  assumes "bb_laws (ex_bb E)" "ph_step E ti op ph = (stop, ph')" "corrupt E ti i ph"
  shows "corrupt E ti i ph'"
proof (cases "\<exists>pc. op = Op_received pc")
  case True
  with assms(2) obtain pc where "received E ti pc ph = (stop, ph')" by auto
  then show ?thesis
  proof (cases rule: received_any)
    case duplicate
    then show ?thesis using corrupt_quiet assms(3) by blast
  next
    case (fresh j b d ok)
    let ?ph1 = "store_block E j b d ph"
    have ne: "(i, block_begin k) \<noteq> (j, b)" if "k < nblocks ti i" for k
      using fresh(1) assms(3) that by (auto simp: corrupt_def complete_def)
    have same: "block_at (ex_bb E) (ph_received ?ph1) (i, block_begin k)
        = block_at (ex_bb E) (ph_received ph) (i, block_begin k)" if "k < nblocks ti i" for k
      using ne [OF that] by (rule store_block_other)
    then have "piece_data E ti i ?ph1 = piece_data E ti i ph"
      unfolding piece_data_def by (intro arg_cong [where f = concat] map_cong) auto
    moreover have "complete ti i ?ph1" using assms(3) by (simp add: corrupt_def complete_def)
    ultimately have c1: "corrupt E ti i ?ph1" using assms(3) by (simp add: corrupt_def)
    show ?thesis using fresh(2)
    proof (cases rule: write_if_valid_cases)
      case invalid
      then show ?thesis using corrupt_quiet c1 by blast
    next
      case (valid ph2)
      then have "j \<noteq> i" using c1 by (auto simp: corrupt_def valid_piece_def)
      then show ?thesis
        using write_if_valid_frame(3,4) [OF fresh(2)] c1
        by (simp add: corrupt_def complete_def piece_data_def)
    qed
  qed
next
  case False
  then show ?thesis using quiet_step(1) [OF assms(1,2)] corrupt_quiet assms(3) by blast
qed

lemma ph_run_invariant:
  assumes "ph_run E ti ops (s, ph) = (s', ph')" "P ph"
    and "\<And>op ph stop ph'. op \<in> set ops \<Longrightarrow> P ph \<Longrightarrow> ph_step E ti op ph = (stop, ph') \<Longrightarrow> P ph'"
  shows "P ph'"
  using assms
proof (induction ops arbitrary: s ph)
  case (Cons op ops)
  obtain stop p where st: "ph_step E ti op ph = (stop, p)" by fastforce
  have "P p" using Cons.prems(3) [OF _ Cons.prems(2) st] by simp
  with Cons st show ?case by (metis ph_run.simps(2) case_prod_conv list.set_intros(2))
qed simp


subsection \<open>A small torrent\<close>

text \<open>Two files of two and one bytes, one piece; a hash that keeps its input. Used by the witnesses.\<close>

definition small_E :: "lbuf externals" where
  "small_E = \<lparr>ex_bb = list_buffer, ex_sha1 = (\<lambda>bs. bs), ex_iter = (\<lambda>xs. xs), ex_oob = (\<lambda>_. 0),
     ex_open_ok = (\<lambda>_. True)\<rparr>"

definition small_ti :: torrent_info where
  "small_ti = \<lparr>
     ti_files = \<lparr>fs_name = ''t'', fs_paths = [''d''],
       fs_files = [
         \<lparr>fe_offset = 0, fe_size = 2, fe_no_root_dir = False, fe_path_index = 0, fe_name = ''a'', fe_pad_file = False\<rparr>,
         \<lparr>fe_offset = 2, fe_size = 1, fe_no_root_dir = False, fe_path_index = 0, fe_name = ''b'', fe_pad_file = False\<rparr>],
       fs_total_size = 3, fs_num_pieces = 1, fs_piece_length = 16384\<rparr>,
     ti_hash_for_piece = (\<lambda>_. [1, 2, 3]), ti_info_hash = replicate 20 0xab, ti_trackers = []\<rparr>"

definition small_ops :: "lbuf ph_op list" where
  "small_ops = [Op_have [] 0, Op_get_request [], Op_received ([0, 0, 0, 0, 0, 0, 0, 0, 1, 2, 3], [], 0)]"

definition bad_ops :: "lbuf ph_op list" where
  "bad_ops = [Op_have [] 0, Op_received ([0, 0, 0, 0, 0, 0, 0, 0, 9, 9, 9], [], 0)]"

lemma small_E_simps [simp]:
  "ex_bb small_E = list_buffer" "ex_sha1 small_E = (\<lambda>bs. bs)" "ex_iter small_E = (\<lambda>xs. xs)"
  by (simp_all add: small_E_def)

lemma small_laws [simp]: "bb_laws (ex_bb small_E)" "iter_laws small_E"
  by (simp_all add: list_buffer_laws iter_laws_def)

lemma small_hashes [simp]: "no_empty_hash small_E small_ti"
  by (simp add: no_empty_hash_def small_ti_def)

lemma small_ok [simp]:
  "fs_ok (ti_files small_ti)" "block_aligned small_ti" "all_open small_E small_ti" "names_distinct small_ti"
  by (simp_all add: fs_ok_def small_ti_def block_aligned_def BLOCK_LEN_def all_open_def small_E_def
      names_distinct_def)

lemma small_piece [simp]:
  "in_torrent small_ti 0" "piece_size (ti_files small_ti) 0 = 3" "blocks_per_piece 3 = 1"
  "block_begin 0 = 0" "block_len 3 0 = 3"
  by code_simp+

lemma small_honest: "\<forall>op\<in>set small_ops. honest_op small_E small_ti op"
  by (simp add: small_ops_def honest_def of_be_def)

lemma small_run:
  "fst (ph_run small_E small_ti small_ops (False, fst (piece_handler_ctor small_E small_ti)))"
  by code_simp

subsection \<open>Properties\<close>

text \<open>C1: take a torrent whose piece length is a multiple of the block length, whose files have distinct
  leaf names and can be opened, and no piece of which has the hash of no bytes. Whatever operations the
  peer connections perform on its freshly constructed piece handler, in whatever order, as long as every
  received block is one of the torrent's blocks and has its length (its bytes can be wrong), if the
  session has been told to stop then the bytes at the place of every piece on disk have the hash the
  torrent file gives for it.\<close>

theorem download_correct:
  assumes "bb_laws (ex_bb E)" "fs_ok (ti_files ti)" "block_aligned ti" "no_empty_hash E ti"
    and "all_open E ti" "names_distinct ti" "\<forall>op\<in>set ops. honest_op E ti op"
    and "ph_run E ti ops (False, fst (piece_handler_ctor E ti)) = (True, ph')" "in_torrent ti i"
  shows "ex_sha1 E (region ti i (image (ti_files ti) (ph_files ph'))) = ti_hash_for_piece ti (sint i)"
proof -
  obtain W where "download_inv E ti W ph'" "W = {i. in_torrent ti i}"
    using ph_run_inv [OF assms(1-4,7) ctor_inv [OF assms(1,2,5,6)] _ assms(8)] by auto
  then show ?thesis using assms(9) unfolding download_inv_def by blast
qed

theorem download_correct_witness:
  "\<exists>ph'. ph_run small_E small_ti small_ops (False, fst (piece_handler_ctor small_E small_ti)) = (True, ph')
     \<and> in_torrent small_ti 0
     \<and> region small_ti 0 (image (ti_files small_ti) (ph_files ph')) = [1, 2, 3]"
proof -
  obtain ph' where r: "ph_run small_E small_ti small_ops (False, fst (piece_handler_ctor small_E small_ti)) = (True, ph')"
    using small_run by (metis prod.collapse)
  have "ti_hash_for_piece small_ti (sint (0 :: u32)) = [1, 2, 3]" by (simp add: small_ti_def)
  then show ?thesis
    using download_correct [OF small_laws(1) small_ok(1,2) small_hashes small_ok(3,4) small_honest r small_piece(1)] r
    by simp
qed

text \<open>C15: when the last missing block of a piece arrives, its blocks have the lengths asked for and the
  piece has the right hash, the files change exactly as if the torrent were one array and the piece
  were copied to its place, the count of written pieces goes up by one and the session is told to
  stop if it was the last. The stored bytes of the blocks of the piece are used up, the block that
  arrived counts as received; all other stored blocks, the announced pieces and the request
  queues stay. (The piece length is a multiple of the block length, and the open files are those of the
  torrent, each under its own leaf name.)\<close>

theorem received_writes_piece:
  assumes "bb_laws (ex_bb E)" "fs_ok (ti_files ti)" "block_aligned ti" "in_torrent ti i"
    and "files_ok (ti_files ti) (ph_files ph)" "rd (ex_bb E) pc = be 4 i @ be 4 b @ d"
    and "\<not> rcvd (ph_received ph) (i, b)" "received E ti pc ph = (stop, ph')"
    and "sized E ti i (store_block E i b d ph)" "valid_piece E ti i (store_block E i b d ph)"
  shows "image (ti_files ti) (ph_files ph') = splice (image (ti_files ti) (ph_files ph))
           (nat (pstart ti i)) (piece_data E ti i (store_block E i b d ph))
     \<and> ph_written ph' = ph_written ph + 1 \<and> (stop \<longleftrightarrow> is_done ti ph')
     \<and> rcvd (ph_received ph') = (rcvd (ph_received ph))((i, b) := True)
     \<and> (\<forall>k<nblocks ti i. block_bytes E ph' (i, block_begin k) = [])
     \<and> (\<forall>key. key \<noteq> (i, b) \<and> (\<forall>k<nblocks ti i. key \<noteq> (i, block_begin k)) \<longrightarrow>
          block_bytes E ph' key = block_bytes E ph key)
     \<and> ph_have ph' = ph_have ph \<and> ph_requests ph' = ph_requests ph"
  using assms(1,6,8)
proof (cases rule: received_cases)
  case duplicate
  then show ?thesis using assms(7) by simp
next
  case (fresh ok)
  have "files_ok (ti_files ti) (ph_files (store_block E i b d ph))" using assms(5) by simp
  note w = write_if_valid_image [OF assms(1-4) this assms(9,10) fresh(2)]
  have "block_bytes E ph' key = block_bytes E ph key"
    if "key \<noteq> (i, b)" "\<forall>k<nblocks ti i. key \<noteq> (i, block_begin k)" for key
    using w(7) [rule_format, of key] that store_block_other [OF that(1), of E d ph] by simp
  then show ?thesis using w(1,2,3,5,6,8,9) fresh(3) by simp
qed


theorem received_writes_piece_witness:
  "\<exists>stop ph'. received small_E small_ti ([0, 0, 0, 0, 0, 0, 0, 0, 1, 2, 3], [], 0)
       (fst (piece_handler_ctor small_E small_ti)) = (stop, ph')
     \<and> image (ti_files small_ti) (ph_files ph') = [1, 2, 3] \<and> ph_written ph' = 1 \<and> stop"
proof -
  let ?ph = "fst (piece_handler_ctor small_E small_ti)" and ?pc = "([0, 0, 0, 0, 0, 0, 0, 0, 1, 2, 3], [], 0) :: lbuf"
  obtain stop ph' where r: "received small_E small_ti ?pc ?ph = (stop, ph')" by fastforce
  have f: "files_ok (ti_files small_ti) (ph_files ?ph)" by (rule ctor_files_ok) simp_all
  have pc: "rd (ex_bb small_E) ?pc = be 4 (0 :: u32) @ be 4 (0 :: u32) @ [1, 2, 3]" by code_simp
  have n: "\<not> rcvd (ph_received ?ph) (0, 0)" by code_simp
  let ?ph1 = "store_block small_E 0 0 [1, 2, 3] ?ph"
  have bs: "block_bytes small_E ?ph1 (0, 0) = [1, 2, 3]" by code_simp
  have s: "sized small_E small_ti 0 ?ph1" using bs by (simp add: sized_def)
  have d: "piece_data small_E small_ti 0 ?ph1 = [1, 2, 3]" using bs by (simp add: piece_data_def)
  have v: "valid_piece small_E small_ti 0 ?ph1"
    using d by (simp add: valid_piece_def complete_def) (simp add: small_ti_def)
  have w: "ph_written ?ph = 0" "image (ti_files small_ti) (ph_files ?ph) = [0, 0, 0]" by code_simp+
  have "fs_num_pieces (ti_files small_ti) = 1" by code_simp
  with received_writes_piece [OF small_laws(1) small_ok(1,2) small_piece(1) f pc n r s v] w d r
  show ?thesis by (auto simp: splice_def is_done_def)
qed


text \<open>C4: after any sequence of operations on a freshly constructed piece handler, a request
  handed out for a peer is for a block of a piece that this peer announced and that has not been
  received; and when the peer's queue is empty, a request is handed out whenever there is such a
  block. No announced piece is forgotten and no received block is asked for.\<close>

theorem requests_sound_complete:
  assumes "bb_laws (ex_bb E)" "iter_laws E"
    and "ph_run E ti ops (False, fst (piece_handler_ctor E ti)) = (s, ph)"
    and "get_piece_request E ti pid ph = ((found, r), ph')"
  shows "(found \<longrightarrow> wanted ti pid ph r) \<and> (queue ph pid = [] \<and> (\<exists>x. wanted ti pid ph x) \<longrightarrow> found)"
proof -
  have "requests_ok ti (fst (piece_handler_ctor E ti))"
    by (simp add: piece_handler_ctor_def Let_def requests_ok_def haves_def queue_def lookup_or_def)
  then have "requests_ok ti ph"
    by (rule ph_run_invariant [OF assms(3)]) (rule ph_step_requests_ok [OF assms(1,2)])
  then show ?thesis
    using get_piece_request_step(4) [OF assms(2) _ assms(4)] get_piece_request_finds [OF assms(2) _ _ assms(4)]
    by blast
qed

theorem requests_sound_complete_witness:
  "\<exists>r ph'. get_piece_request small_E small_ti [] (snd (ph_run small_E small_ti [Op_have [] 0]
       (False, fst (piece_handler_ctor small_E small_ti)))) = ((True, r), ph')
     \<and> wanted small_ti [] (snd (ph_run small_E small_ti [Op_have [] 0]
       (False, fst (piece_handler_ctor small_E small_ti)))) r"
proof -
  obtain s ph where p: "ph_run small_E small_ti [Op_have [] 0]
      (False, fst (piece_handler_ctor small_E small_ti)) = (s, ph)" by fastforce
  obtain found r ph' where g: "get_piece_request small_E small_ti [] ph = ((found, r), ph')"
    by (metis prod.exhaust)
  have "fst (fst (get_piece_request small_E small_ti [] (snd (ph_run small_E small_ti [Op_have [] 0]
       (False, fst (piece_handler_ctor small_E small_ti))))))" by code_simp
  then have found using p g by simp
  then show ?thesis using requests_sound_complete [OF small_laws p g] p g by auto
qed

text \<open>C36: a piece whose blocks have all been received but whose hash does not match stays so under
  every later sequence of operations, whatever the peers send, and no block of it is ever handed
  out as a request again: nothing resets its blocks, so the session cannot complete.\<close>

theorem corrupt_piece_stuck:
  assumes "bb_laws (ex_bb E)" "iter_laws E" "requests_ok ti ph" "corrupt E ti i ph"
    and "ph_run E ti ops (s, ph) = (s', ph')" "get_piece_request E ti pid ph' = ((found, r), ph'')"
  shows "corrupt E ti i ph' \<and> (found \<longrightarrow> rq_index r \<noteq> i)"
proof -
  have inv: "corrupt E ti i ph' \<and> requests_ok ti ph'"
    by (rule ph_run_invariant [OF assms(5)])
      (use assms(3,4) ph_step_corrupt [OF assms(1)] ph_step_requests_ok [OF assms(1,2)] in blast)+
  have "rq_index r \<noteq> i" if found
  proof
    assume "rq_index r = i"
    moreover have "wanted ti pid ph' r"
      using get_piece_request_step(4) [OF assms(2) _ assms(6) that] inv by blast
    then have "r \<in> set (blocks_of ti (rq_index r))" "\<not> rcvd (ph_received ph') (rq_key r)"
      by (simp_all add: wanted_def)
    ultimately show False
      using inv blocks_of_begin by (metis corrupt_def complete_def)
  qed
  then show ?thesis using inv by blast
qed

theorem corrupt_piece_stuck_witness:
  "\<exists>ph. corrupt small_E small_ti 0 ph
     \<and> corrupt small_E small_ti 0 (snd (ph_run small_E small_ti small_ops (False, ph)))"
proof -
  let ?c = "fst (piece_handler_ctor small_E small_ti)"
  obtain s ph where p: "ph_run small_E small_ti bad_ops (False, ?c) = (s, ph)" by fastforce
  have rc: "rcvd (ph_received (snd (ph_run small_E small_ti bad_ops (False, ?c)))) (0, 0)" by code_simp
  have bs: "block_bytes small_E (snd (ph_run small_E small_ti bad_ops (False, ?c))) (0, 0) = [9, 9, 9]"
    by code_simp
  have c: "corrupt small_E small_ti 0 ph"
    using rc bs p by (simp add: corrupt_def complete_def piece_data_def) (simp add: small_ti_def)
  have "requests_ok small_ti ?c"
    by (simp add: piece_handler_ctor_def Let_def requests_ok_def haves_def queue_def lookup_or_def)
  then have ok: "requests_ok small_ti ph"
    by (rule ph_run_invariant [OF p]) (rule ph_step_requests_ok [OF small_laws])
  obtain s' ph' where r: "ph_run small_E small_ti small_ops (False, ph) = (s', ph')" by fastforce
  obtain found rq ph'' where g: "get_piece_request small_E small_ti [] ph' = ((found, rq), ph'')"
    by (metis prod.exhaust)
  show ?thesis using corrupt_piece_stuck [OF small_laws ok c r g] c r by auto
qed

text \<open>A second copy of a block that has been received is ignored: the data, the files, the
  count and the queues stay as they are and the session is not stopped.\<close>

theorem duplicate_block_ignored:
  assumes "bb_laws (ex_bb E)" "rd (ex_bb E) pc = be 4 i @ be 4 b @ d" "rcvd (ph_received ph) (i, b)"
    and "received E ti pc ph = (stop, ph')"
  shows "\<not> stop \<and> block_at (ex_bb E) (ph_received ph') = block_at (ex_bb E) (ph_received ph)
     \<and> ph_files ph' = ph_files ph \<and> ph_written ph' = ph_written ph
     \<and> ph_have ph' = ph_have ph \<and> ph_requests ph' = ph_requests ph"
  using assms(1,2,4)
proof (cases rule: received_cases)
  case duplicate
  then show ?thesis by (simp add: quiet_def)
next
  case (fresh ok)
  then show ?thesis using assms(3) by simp
qed

theorem duplicate_block_ignored_witness:
  "let ph = store_block small_E 0 0 [9, 9, 9] (fst (piece_handler_ctor small_E small_ti));
       (stop, ph') = received small_E small_ti ([0, 0, 0, 0, 0, 0, 0, 0, 1, 2, 3], [], 0) ph
   in \<not> stop \<and> ph_written ph' = 0"
proof -
  let ?ph = "store_block small_E 0 0 [9, 9, 9] (fst (piece_handler_ctor small_E small_ti))"
  let ?pc = "([0, 0, 0, 0, 0, 0, 0, 0, 1, 2, 3], [], 0) :: lbuf"
  obtain stop ph' where r: "received small_E small_ti ?pc ?ph = (stop, ph')" by fastforce
  have pc: "rd (ex_bb small_E) ?pc = be 4 (0 :: u32) @ be 4 (0 :: u32) @ [1, 2, 3]" by code_simp
  have rc: "rcvd (ph_received ?ph) (0, 0)" by simp
  have "ph_written (fst (piece_handler_ctor small_E small_ti)) = 0" by code_simp
  then show ?thesis
    using duplicate_block_ignored [OF small_laws(1) pc rc r] r by (simp add: Let_def)
qed

end
