(* ===== verification/Net.thy ===== *)
theory Net
  imports Prelude
begin

section \<open>Addresses and peers\<close>

text \<open>
  \<open>src/net.cpp\<close>, \<open>include/net.hpp\<close>, \<open>src/endpoint.cpp\<close> and \<open>src/peer_info.cpp\<close>: socket addresses
  in network byte order on a little-endian machine, their dotted form, and the peers the
  tracker hands out. \<open>inet_ntop\<close> and \<open>inet_pton\<close> of the C library are modelled for
  \<open>AF_INET\<close> (the C library's parser: one to three digits per octet, at most 255, no leading zero).
\<close>

subsection \<open>Byte order\<close>

text \<open>\<open>net::htont<T>\<close> reverses the bytes of the value in memory.\<close>

definition htont :: "'a::len word \<Rightarrow> 'a word" where
  "htont v = of_be (rev (be (LENGTH('a) div 8) v))"

definition htons :: "u16 \<Rightarrow> u16" where
  "htons v = of_be (rev (be 2 v))"

definition htonl :: "u32 \<Rightarrow> u32" where
  "htonl v = of_be (rev (be 4 v))"

abbreviation ntohs :: "u16 \<Rightarrow> u16" where
  "ntohs \<equiv> htons"

abbreviation ntohl :: "u32 \<Rightarrow> u32" where
  "ntohl \<equiv> htonl"

lemma be_htonl: "be 4 (htonl v) = rev (be 4 v)"
  unfolding htonl_def by (rule be_of_be) simp_all

lemma htonl_htonl [simp]: "htonl (htonl v) = v"
proof -
  have "htonl (htonl v) = of_be (rev (be 4 (htonl v)))"
    by (simp only: htonl_def)
  also have "\<dots> = v" by (simp add: be_htonl del: be.simps)
  finally show ?thesis .
qed

lemma htons_htons [simp]: "htons (htons v) = v"
proof -
  have "be 2 (htons v) = rev (be 2 v)"
    unfolding htons_def by (rule be_of_be) simp_all
  then show ?thesis by (simp add: htons_def [of "htons v"] del: be.simps)
qed

text \<open>An integer in network order, loaded in the order of the machine and converted.\<close>

lemma native_load32: "length bs = 4 \<Longrightarrow> ntohl (of_be (rev bs)) = of_be bs"
proof -
  assume "length bs = 4"
  then have "be 4 (of_be (rev bs) :: u32) = rev bs" by (simp add: be_of_be)
  then show "ntohl (of_be (rev bs)) = of_be bs" by (simp add: htonl_def)
qed

lemma native_load16: "length bs = 2 \<Longrightarrow> ntohs (of_be (rev bs)) = of_be bs"
proof -
  assume "length bs = 2"
  then have "be 2 (of_be (rev bs) :: u16) = rev bs" by (simp add: be_of_be)
  then show "ntohs (of_be (rev bs)) = of_be bs" by (simp add: htons_def)
qed

subsection \<open>Decimal numbers and the dotted form\<close>

definition digit :: "nat \<Rightarrow> char" where
  "digit d = char_of (48 + d)"

fun dec :: "nat \<Rightarrow> string" where
  "dec n = (if n < 10 then [digit n] else dec (n div 10) @ [digit (n mod 10)])"

declare dec.simps [simp del]

text \<open>The same digits, computed on an \<open>int\<close> when the code is evaluated.\<close>

definition dec_int :: "int \<Rightarrow> string" where
  "dec_int i = dec (nat i)"

lemma dec_int_code [code]:
  "dec_int i = (if i < 10 then [digit (nat i)] else dec_int (i div 10) @ [digit (nat (i mod 10))])"
proof (cases "i < 10")
  case True
  then have "nat i < 10" by simp
  then show ?thesis using True by (simp add: dec_int_def dec.simps [of "nat i"])
next
  case False
  then have "\<not> nat i < 10" "nat i div 10 = nat (i div 10)" "nat i mod 10 = nat (i mod 10)"
    by (simp_all add: nat_div_distrib nat_mod_distrib)
  then show ?thesis using False by (simp add: dec_int_def dec.simps [of "nat i"])
qed

lemma dec_digits_only: "c \<in> set (dec n) \<Longrightarrow> \<exists>d<10. c = digit d"
proof (induction n rule: dec.induct)
  case (1 n)
  have "\<exists>d<10. digit (n mod 10) = digit d" by (rule exI [of _ "n mod 10"]) simp
  with 1 show ?case by (subst (asm) dec.simps) (auto split: if_splits)
qed

lemma dec_not_Nil: "dec n \<noteq> []"
  by (subst dec.simps) simp

definition inet_ntop :: "u32 \<Rightarrow> string" where
  "inet_ntop s_addr =
     (let octets = map unat (rev (be 4 s_addr)) in
      dec (octets ! 0) @ ''.'' @ dec (octets ! 1) @ ''.'' @ dec (octets ! 2) @ ''.'' @ dec (octets ! 3))"

text \<open>
  The loop of the C library's \<open>inet_pton4\<close>: \<open>saw\<close> is \<open>saw_digit\<close>, \<open>done\<close> the octets before
  the one being read, \<open>cur\<close> the value of \<open>*tp\<close>.
\<close>

fun inet_pton4 :: "bool \<Rightarrow> byte list \<Rightarrow> nat \<Rightarrow> string \<Rightarrow> byte list option" where
  "inet_pton4 saw done cur [] =
     (if length done + (if saw then 1 else 0) < 4 then None else Some (done @ [word_of_nat cur]))"
| "inet_pton4 saw done cur (ch # src) =
     (let c = of_char ch :: nat in
      if 48 \<le> c \<and> c \<le> 57 then
        (if saw \<and> cur = 0 then None
         else if cur * 10 + (c - 48) > 255 then None
         else if \<not> saw \<and> length done + 1 > 4 then None
         else inet_pton4 True done (cur * 10 + (c - 48)) src)
      else if c = 46 \<and> saw then
        (if length done + 1 = 4 then None
         else inet_pton4 False (done @ [word_of_nat cur]) 0 src)
      else None)"

definition inet_pton :: "string \<Rightarrow> u32 option" where
  "inet_pton s =
     map_option (\<lambda>octets. of_be (rev octets))
       (inet_pton4 False [] 0 (takeWhile (\<lambda>c. c \<noteq> CHR 0x00) s))"

definition saddr_to_str :: "u32 \<Rightarrow> string" where
  "saddr_to_str saddr = inet_ntop (htonl saddr)"

subsection \<open>Endpoints\<close>

definition AF_INET :: u16 where
  "AF_INET = 2"

record endpoint =
  sin_family :: u16
  sin_port :: u16
  sin_addr :: u32

definition endpoint_ctor :: "string \<Rightarrow> u16 \<Rightarrow> endpoint res" where
  "endpoint_ctor ip port =
     (case inet_pton ip of
        None \<Rightarrow> Inl (Runtime_error ''Invalid network address'')
      | Some a \<Rightarrow> Inr \<lparr>sin_family = AF_INET, sin_port = htons port, sin_addr = a\<rparr>)"

definition endpoint_of_sockaddr :: "endpoint \<Rightarrow> endpoint" where
  "endpoint_of_sockaddr addr = addr"

definition show_endpoint :: "endpoint \<Rightarrow> string" where
  "show_endpoint info =
     ''['' @ inet_ntop (sin_addr info) @ '':'' @ dec (unat (ntohs (sin_port info))) @ '']''"

subsection \<open>Peers\<close>

record peer_info =
  peer_id :: string
  peer_endpoint :: endpoint

definition peer_info_ctor :: "string \<Rightarrow> string \<Rightarrow> u16 \<Rightarrow> peer_info res" where
  "peer_info_ctor pid ip port =
     res_bind (endpoint_ctor ip port) (\<lambda>ep. Inr \<lparr>peer_id = pid, peer_endpoint = ep\<rparr>)"

definition peer_to_string :: "peer_info \<Rightarrow> string" where
  "peer_to_string info =
     ''peer: '' @ peer_id info @ '', endpoint: '' @ show_endpoint (peer_endpoint info)"

subsection \<open>Parsing what was printed\<close>

lemma dec_digits:
  shows "n < 10 \<Longrightarrow> dec n = [digit n]"
    and "10 \<le> n \<Longrightarrow> dec n = dec (n div 10) @ [digit (n mod 10)]"
  by (simp_all add: dec.simps [of n])

lemma of_char_digit [simp]: "d < 10 \<Longrightarrow> (of_char (digit d) :: nat) = 48 + d"
  by (simp add: digit_def)

lemma inet_pton4_digit:
  assumes "d < 10" "saw \<longrightarrow> cur \<noteq> 0" "cur * 10 + d < 256" "saw \<or> length done < 4"
  shows "inet_pton4 saw done cur (digit d # src) = inet_pton4 True done (cur * 10 + d) src"
  using assms by (auto simp: Let_def)

lemma inet_pton4_dec:
  assumes "n < 256" "length done < 4"
  shows "inet_pton4 False done 0 (dec n @ rest) = inet_pton4 True done n rest"
proof -
  consider "n < 10" | "10 \<le> n" "n < 100" | "100 \<le> n" by linarith
  then show ?thesis
  proof cases
    case 1
    with assms show ?thesis by (simp add: dec_digits inet_pton4_digit del: inet_pton4.simps)
  next
    case 2
    then have e: "n div 10 < 10" "n div 10 \<noteq> 0" by auto
    have "dec n = [digit (n div 10), digit (n mod 10)]"
      using 2 e by (simp add: dec_digits)
    with e assms show ?thesis by (simp add: inet_pton4_digit del: inet_pton4.simps)
  next
    case 3
    then have e: "n div 10 div 10 < 10" "n div 10 div 10 \<noteq> 0" "10 \<le> n div 10"
      "n div 10 div 10 * 10 + n div 10 mod 10 = n div 10" "n div 10 * 10 + n mod 10 = n"
      using assms by auto
    have "dec n = [digit (n div 10 div 10), digit (n div 10 mod 10), digit (n mod 10)]"
      using 3 e by (simp add: dec_digits)
    with e assms show ?thesis by (simp add: inet_pton4_digit del: inet_pton4.simps)
  qed
qed

lemma digit_not_nul: "d < 10 \<Longrightarrow> CHR 0x00 \<noteq> digit d"
  using of_char_digit [of d] by (auto dest: arg_cong [where f = "of_char :: char \<Rightarrow> nat"])

lemma dec_no_nul: "CHR 0x00 \<notin> set (dec n)"
proof (induction n rule: dec.induct)
  case (1 n)
  then show ?case by (subst dec.simps) (auto simp: digit_not_nul)
qed

lemma octet_less: "unat b < 256" for b :: byte
  using unsigned_less [where 'a = nat, of b] by simp

lemma inet_pton_ntop_aux: "inet_pton (inet_ntop a) = Some a"
proof -
  obtain b0 b1 b2 b3 where o: "rev (be 4 a) = [b0, b1, b2, b3]"
    by (simp add: numeral_eq_Suc)
  have nul: "takeWhile (\<lambda>c. c \<noteq> CHR 0x00) (inet_ntop a) = inet_ntop a"
    by (auto simp: inet_ntop_def Let_def takeWhile_eq_all_conv dec_no_nul)
  have "inet_pton4 False [] 0 (inet_ntop a) = Some [b0, b1, b2, b3]"
    using inet_pton4_dec [of "unat b3" "[b0, b1, b2]" "[]"]
    by (simp add: inet_ntop_def o inet_pton4_dec octet_less)
  then show ?thesis
    by (simp add: inet_pton_def nul o [symmetric] del: be.simps)
qed

end
