(* ===== verification/Sockets.thy ===== *)
theory Sockets
  imports Byte_Buffer Net
begin

section \<open>The operating system and the sockets\<close>

text \<open>
  System calls are a parameter of the model: a record of functions over an unknown type
  \<open>'w\<close> of states of the outside world, which every call takes and returns. \<open>os_laws\<close> states
  the two facts of POSIX the program relies on: a read returns at most as many bytes as it
  was asked for, a write takes at most as many as it was given. The sockets are
  \<open>src/tcp_socket.cpp\<close> and \<open>src/udp_socket.cpp\<close>. The value of \<open>errno\<close> only reaches log messages
  and is left out.
\<close>

datatype sock_type = SOCK_STREAM | SOCK_DGRAM

datatype ctl_op = EPOLL_CTL_ADD | EPOLL_CTL_MOD | EPOLL_CTL_DEL

record 'w os_api =
  sys_socket :: "sock_type \<Rightarrow> 'w \<Rightarrow> int \<times> 'w"
  sys_close :: "int \<Rightarrow> 'w \<Rightarrow> 'w"
  sys_bind :: "int \<Rightarrow> endpoint \<Rightarrow> nat \<Rightarrow> 'w \<Rightarrow> int \<times> 'w"
  sys_connect :: "int \<Rightarrow> endpoint \<Rightarrow> nat \<Rightarrow> 'w \<Rightarrow> int \<times> 'w"
  sys_fcntl_getfl :: "int \<Rightarrow> 'w \<Rightarrow> int \<times> 'w"
  sys_fcntl_setfl :: "int \<Rightarrow> int \<Rightarrow> 'w \<Rightarrow> int \<times> 'w"
  sys_getsockopt_error :: "int \<Rightarrow> 'w \<Rightarrow> int \<times> int \<times> 'w"
  sys_write :: "int \<Rightarrow> byte list \<Rightarrow> 'w \<Rightarrow> int \<times> 'w"
  sys_read :: "int \<Rightarrow> nat \<Rightarrow> 'w \<Rightarrow> int \<times> byte list \<times> 'w"
  sys_sendto :: "int \<Rightarrow> byte list \<Rightarrow> int \<Rightarrow> endpoint \<Rightarrow> 'w \<Rightarrow> int \<times> 'w"
  sys_recvfrom :: "int \<Rightarrow> nat \<Rightarrow> int \<Rightarrow> 'w \<Rightarrow> int \<times> byte list \<times> endpoint \<times> 'w"
  sys_epoll_create :: "'w \<Rightarrow> int \<times> 'w"
  sys_epoll_ctl :: "int \<Rightarrow> ctl_op \<Rightarrow> int \<Rightarrow> u32 \<Rightarrow> 'w \<Rightarrow> int \<times> 'w"
  sys_epoll_wait :: "int \<Rightarrow> nat \<Rightarrow> int \<Rightarrow> 'w \<Rightarrow> int \<times> (int \<times> u32) list \<times> 'w"
  sys_now :: "'w \<Rightarrow> int \<times> 'w"
  sys_random :: "'w \<Rightarrow> u32 \<times> 'w"

definition os_laws :: "'w os_api \<Rightarrow> bool" where
  "os_laws S \<longleftrightarrow>
     (\<forall>fd n w r bs w'. sys_read S fd n w = (r, bs, w') \<longrightarrow>
        length bs \<le> n \<and> (r \<ge> 0 \<longrightarrow> r = int (length bs)) \<and> (r < 0 \<longrightarrow> bs = [])) \<and>
     (\<forall>fd n fl w r bs ep w'. sys_recvfrom S fd n fl w = (r, bs, ep, w') \<longrightarrow>
        length bs \<le> n \<and> (r \<ge> 0 \<longrightarrow> r = int (length bs)) \<and> (r < 0 \<longrightarrow> bs = [])) \<and>
     (\<forall>fd bs w. fst (sys_write S fd bs w) \<le> int (length bs))"

lemma os_read_law:
  assumes "os_laws S" "sys_read S fd n w = (r, bs, w')"
  shows "length bs \<le> n" "r \<ge> 0 \<Longrightarrow> r = int (length bs)" "r < 0 \<Longrightarrow> bs = []"
  using assms unfolding os_laws_def by blast+

lemma os_recvfrom_law:
  assumes "os_laws S" "sys_recvfrom S fd n fl w = (r, bs, ep, w')"
  shows "length bs \<le> n" "r \<ge> 0 \<Longrightarrow> r = int (length bs)" "r < 0 \<Longrightarrow> bs = []"
  using assms unfolding os_laws_def by blast+

lemma os_write_law:
  assumes "os_laws S" "sys_write S fd bs w = (r, w')"
  shows "r \<le> int (length bs)"
proof -
  have "fst (sys_write S fd bs w) \<le> int (length bs)"
    using assms(1) unfolding os_laws_def by blast
  with assms(2) show ?thesis by simp
qed

subsection \<open>TCP sockets\<close>

text \<open>A socket object is its descriptor \<open>fd_\<close>.\<close>

type_synonym tcp_socket = int

definition valid :: "int \<Rightarrow> bool" where
  "valid fd \<longleftrightarrow> fd \<noteq> -1"

definition tcp_socket_ctor :: "'w os_api \<Rightarrow> 'w \<Rightarrow> (tcp_socket \<times> 'w) res" where
  "tcp_socket_ctor S w =
     (let (fd, w) = sys_socket S SOCK_STREAM w in
      if \<not> valid fd then Inl (Runtime_error ''Failed to create socket'') else Inr (fd, w))"

definition addrlen :: "endpoint \<Rightarrow> nat" where
  "addrlen ep = (if sin_family ep = AF_INET then 16 else 28)"

definition tcp_bind :: "'w os_api \<Rightarrow> tcp_socket \<Rightarrow> endpoint \<Rightarrow> 'w \<Rightarrow> bool \<times> 'w" where
  "tcp_bind S fd ep w = (let (r, w) = sys_bind S fd ep (addrlen ep) w in (r = 0, w))"

definition tcp_connect :: "'w os_api \<Rightarrow> tcp_socket \<Rightarrow> endpoint \<Rightarrow> 'w \<Rightarrow> bool \<times> 'w" where
  "tcp_connect S fd ep w = (let (r, w) = sys_connect S fd ep (addrlen ep) w in (r = 0, w))"

definition O_NONBLOCK :: int where
  "O_NONBLOCK = 0x800"

definition set_blocking :: "'w os_api \<Rightarrow> tcp_socket \<Rightarrow> bool \<Rightarrow> 'w \<Rightarrow> bool \<times> 'w" where
  "set_blocking S fd block w =
     (let (flags, w) = sys_fcntl_getfl S fd w in
      if flags = -1 then (False, w)
      else
        let flags = (if block then and flags (not O_NONBLOCK) else or flags O_NONBLOCK);
            (r, w) = sys_fcntl_setfl S fd flags w
        in (r = 0, w))"

definition getsockopt :: "'w os_api \<Rightarrow> tcp_socket \<Rightarrow> 'w \<Rightarrow> bool \<times> int \<times> 'w" where
  "getsockopt S fd w = (let (r, error, w) = sys_getsockopt_error S fd w in (r = 0, error, w))"

definition tcp_write ::
  "'b byte_buffer_api \<Rightarrow> 'w os_api \<Rightarrow> tcp_socket \<Rightarrow> 'b \<Rightarrow> 'w \<Rightarrow> int \<times> 'b \<times> 'w" where
  "tcp_write B S fd buffer w =
     (let (res, w) = sys_write S fd
            (at_ptr (bb_get_read B buffer) 0 (bb_get_read_available B buffer)) w
      in (res, if res > 0 then bb_inc_read B (nat res) buffer else buffer, w))"

definition tcp_read ::
  "'b byte_buffer_api \<Rightarrow> 'w os_api \<Rightarrow> tcp_socket \<Rightarrow> 'b \<Rightarrow> 'w \<Rightarrow> int \<times> 'b \<times> 'w" where
  "tcp_read B S fd buffer w =
     (let (res, bs, w) = sys_read S fd (bb_get_write_available B buffer) w;
          buffer = bb_store B bs buffer
      in (res, if res > 0 then bb_inc_write B (nat res) buffer else buffer, w))"

definition tcp_close :: "'w os_api \<Rightarrow> tcp_socket \<Rightarrow> 'w \<Rightarrow> tcp_socket \<times> 'w" where
  "tcp_close S fd w = (if valid fd then (-1, sys_close S fd w) else (fd, w))"

definition tcp_reset :: "'w os_api \<Rightarrow> tcp_socket \<Rightarrow> 'w \<Rightarrow> (tcp_socket \<times> 'w) res" where
  "tcp_reset S fd w =
     (let (fd, w) = tcp_close S fd w;
          (fd, w) = sys_socket S SOCK_STREAM w
      in if \<not> valid fd then Inl (Runtime_error ''Failed to create socket'') else Inr (fd, w))"

subsection \<open>UDP sockets\<close>

type_synonym udp_socket = int

definition udp_socket_ctor :: "'w os_api \<Rightarrow> 'w \<Rightarrow> (udp_socket \<times> 'w) res" where
  "udp_socket_ctor S w =
     (let (fd, w) = sys_socket S SOCK_DGRAM w in
      if \<not> valid fd then Inl (Runtime_error ''Failed to create socket'') else Inr (fd, w))"

definition udp_sendto ::
  "'b byte_buffer_api \<Rightarrow> 'w os_api \<Rightarrow> udp_socket \<Rightarrow> 'b \<Rightarrow> endpoint \<Rightarrow> int \<Rightarrow> 'w \<Rightarrow> int \<times> 'b \<times> 'w" where
  "udp_sendto B S fd buffer ep flags w =
     (let (res, w) = sys_sendto S fd
            (at_ptr (bb_get_read B buffer) 0 (bb_get_read_available B buffer)) flags ep w
      in (res, if res > 0 then bb_inc_read B (nat res) buffer else buffer, w))"

definition udp_recvfrom ::
  "'b byte_buffer_api \<Rightarrow> 'w os_api \<Rightarrow> udp_socket \<Rightarrow> 'b \<Rightarrow> int \<Rightarrow> 'w \<Rightarrow> int \<times> 'b \<times> endpoint \<times> 'w" where
  "udp_recvfrom B S fd buffer flags w =
     (let (res, bs, ep, w) = sys_recvfrom S fd (bb_get_write_available B buffer) flags w;
          buffer = bb_store B bs buffer
      in (res, if res > 0 then bb_inc_write B (nat res) buffer else buffer, ep, w))"

definition udp_close :: "'w os_api \<Rightarrow> udp_socket \<Rightarrow> 'w \<Rightarrow> udp_socket \<times> 'w" where
  "udp_close S fd w = (-1, sys_close S fd w)"

definition udp_socket_dtor :: "'w os_api \<Rightarrow> udp_socket \<Rightarrow> 'w \<Rightarrow> udp_socket \<times> 'w" where
  "udp_socket_dtor S fd w = (if fd \<noteq> -1 then udp_close S fd w else (fd, w))"

subsection \<open>What a socket call does to its buffer\<close>

lemma tcp_write_rd:
  assumes "bb_laws B" "os_laws S" "tcp_write B S fd b w = (res, b', w')"
  shows "rd B b' = (if res > 0 then drop (nat res) (rd B b) else rd B b)"
    and "res \<le> int (length (rd B b))"
proof -
  obtain r v where sw: "sys_write S fd (rd B b) w = (r, v)" by fastforce
  have eqs: "res = r" "b' = (if r > 0 then bb_inc_read B (nat r) b else b)"
    using assms(3) sw by (auto simp: tcp_write_def rd_def [symmetric] at_ptr_rd)
  show "res \<le> int (length (rd B b))"
    using os_write_law [OF assms(2) sw] eqs by simp
  then show "rd B b' = (if res > 0 then drop (nat res) (rd B b) else rd B b)"
    using eqs by (auto simp: bb_consume [OF assms(1)])
qed

lemma tcp_read_rd:
  assumes "bb_laws B" "os_laws S" "tcp_read B S fd b w = (res, b', w')" "rd B b = []" "res > 0"
  shows "\<exists>bs. bs \<noteq> [] \<and> rd B b' = bs \<and> res = int (length bs)
           \<and> sys_read S fd (bb_get_write_available B b) w = (res, bs, w')"
proof -
  obtain r bs v where sr: "sys_read S fd (bb_get_write_available B b) w = (r, bs, v)"
    by (metis prod_cases3)
  have eqs: "r = res" "b' = bb_inc_write B (nat res) (bb_store B bs b)" "v = w'"
    using assms(3,5) sr by (auto simp: tcp_read_def Let_def)
  have "res = int (length bs)" "length bs \<le> bb_get_write_available B b"
    using os_read_law [OF assms(2) sr] eqs(1) assms(5) by auto
  then have "rd B b' = bs"
    using bb_fill [OF assms(1), of bs b] assms(4) eqs(2) by simp
  with \<open>res = int (length bs)\<close> assms(5) sr eqs show ?thesis by auto
qed


subsection \<open>A scripted operating system\<close>

text \<open>
  One instance of the system calls, used by the witnesses: reads take the next chunk of
  \<open>sc_in\<close> (an empty script means the peer closed the connection), writes take as many bytes as
  \<open>sc_room\<close> says and append them to \<open>sc_out\<close>, the interest lists are kept, the clock counts
  milliseconds and descriptors are numbered from 3 on.
\<close>

record script =
  sc_in :: "byte list list"
  sc_room :: "int list"
  sc_out :: "byte list"
  sc_watch :: "int \<Rightarrow> int \<rightharpoonup> u32"
  sc_ready :: "(int \<times> u32) list list"
  sc_fd :: int
  sc_clock :: int

definition script_read :: "nat \<Rightarrow> script \<Rightarrow> int \<times> byte list \<times> script" where
  "script_read n w =
     (case sc_in w of [] \<Rightarrow> (0, [], w)
      | bs # rest \<Rightarrow> (int (length (take n bs)), take n bs, w\<lparr>sc_in := rest\<rparr>))"

definition script_write :: "byte list \<Rightarrow> script \<Rightarrow> int \<times> script" where
  "script_write bs w =
     (case sc_room w of [] \<Rightarrow> (int (length bs), w\<lparr>sc_out := sc_out w @ bs\<rparr>)
      | r # rest \<Rightarrow>
          let k = min r (int (length bs))
          in (k, w\<lparr>sc_room := rest, sc_out := sc_out w @ take (nat k) bs\<rparr>))"

definition script_os :: "script os_api" where
  "script_os = \<lparr>
     sys_socket = (\<lambda>_ w. (sc_fd w, w\<lparr>sc_fd := sc_fd w + 1\<rparr>)),
     sys_close = (\<lambda>_ w. w),
     sys_bind = (\<lambda>_ _ _ w. (0, w)),
     sys_connect = (\<lambda>_ _ _ w. (-1, w)),
     sys_fcntl_getfl = (\<lambda>_ w. (0, w)),
     sys_fcntl_setfl = (\<lambda>_ _ w. (0, w)),
     sys_getsockopt_error = (\<lambda>_ w. (0, 0, w)),
     sys_write = (\<lambda>_ bs w. script_write bs w),
     sys_read = (\<lambda>_ n w. script_read n w),
     sys_sendto = (\<lambda>_ bs _ _ w. script_write bs w),
     sys_recvfrom = (\<lambda>_ n _ w. let (r, bs, w) = script_read n w in
       (r, bs, \<lparr>sin_family = AF_INET, sin_port = 0, sin_addr = 0\<rparr>, w)),
     sys_epoll_create = (\<lambda>w. (sc_fd w, w\<lparr>sc_fd := sc_fd w + 1\<rparr>)),
     sys_epoll_ctl = (\<lambda>efd op fd ev w. (0, w\<lparr>sc_watch := (sc_watch w)(efd :=
       (sc_watch w efd)(fd := (if op = EPOLL_CTL_DEL then None else Some ev)))\<rparr>)),
     sys_epoll_wait = (\<lambda>_ n _ w. case sc_ready w of [] \<Rightarrow> (0, [], w)
       | evs # rest \<Rightarrow> (int (length (take n evs)), take n evs, w\<lparr>sc_ready := rest\<rparr>)),
     sys_now = (\<lambda>w. (sc_clock w, w\<lparr>sc_clock := sc_clock w + 1000000\<rparr>)),
     sys_random = (\<lambda>w. (7, w))\<rparr>"

definition script_start :: script where
  "script_start = \<lparr>sc_in = [], sc_room = [], sc_out = [], sc_watch = (\<lambda>_. Map.empty), sc_ready = [],
     sc_fd = 3, sc_clock = 0\<rparr>"

lemma script_os_laws: "os_laws script_os"
  unfolding os_laws_def script_os_def
  by (auto simp: script_read_def script_write_def Let_def split: list.splits prod.splits)

end
