(* ===== verification/Net_Reactor.thy ===== *)
theory Net_Reactor
  imports Sockets
begin

section \<open>The reactor\<close>

text \<open>
  \<open>src/net_reactor.cpp\<close>: a map from descriptors to clients, kept beside the interest list of
  an epoll instance, and the loop that dispatches the events of one \<open>epoll_wait\<close>. The
  reactor holds pointers to its clients and reads and writes their \<open>events_\<close> field
  (\<open>include/inet_reactor_client.hpp\<close>); here a client is an identifier of type \<open>'c\<close>, its
  descriptor and its \<open>events_\<close> are arguments, and the new \<open>events_\<close> is returned.
\<close>

record 'c net_reactor =
  rc_efd :: int
  rc_wait_ms :: int
  rc_clients :: "int \<rightharpoonup> 'c"

definition EPOLLIN :: u32 where
  "EPOLLIN = 1"

definition EPOLLOUT :: u32 where
  "EPOLLOUT = 4"

definition MAX_EVENTS :: nat where
  "MAX_EVENTS = 50"

definition net_reactor_ctor :: "'w os_api \<Rightarrow> int \<Rightarrow> 'w \<Rightarrow> 'c net_reactor \<times> 'w" where
  "net_reactor_ctor S wait_ms w =
     (let (efd, w) = sys_epoll_create S w
      in (\<lparr>rc_efd = efd, rc_wait_ms = wait_ms, rc_clients = Map.empty\<rparr>, w))"

definition ctl_add :: "'w os_api \<Rightarrow> int \<Rightarrow> int \<Rightarrow> u32 \<Rightarrow> 'w \<Rightarrow> bool \<times> 'w" where
  "ctl_add S efd fd events w =
     (let (r, w) = sys_epoll_ctl S efd EPOLL_CTL_ADD fd events w
      in if r = -1 then (False, w) else (True, w))"

definition ctl_mod :: "'w os_api \<Rightarrow> int \<Rightarrow> int \<Rightarrow> u32 \<Rightarrow> 'w \<Rightarrow> bool \<times> 'w" where
  "ctl_mod S efd fd events w =
     (let (r, w) = sys_epoll_ctl S efd EPOLL_CTL_MOD fd events w
      in if r = -1 then (False, w) else (True, w))"

definition reg ::
  "'w os_api \<Rightarrow> 'c net_reactor \<Rightarrow> 'c \<Rightarrow> int \<Rightarrow> u32 \<Rightarrow> u32 \<Rightarrow> 'w \<Rightarrow> bool \<times> 'c net_reactor \<times> u32 \<times> 'w" where
  "reg S r client fd client_events events w =
     (case rc_clients r fd of
        None \<Rightarrow>
          (let (ok, w) = ctl_add S (rc_efd r) fd events w in
           if \<not> ok then (False, r, client_events, w)
           else (True, r\<lparr>rc_clients := (rc_clients r)(fd \<mapsto> client)\<rparr>, events, w))
      | Some _ \<Rightarrow>
          (let flags = client_events OR events;
               (ok, w) = ctl_mod S (rc_efd r) fd flags w
           in (ok, r, flags, w)))"

definition unreg ::
  "'w os_api \<Rightarrow> 'c net_reactor \<Rightarrow> int \<Rightarrow> u32 \<Rightarrow> u32 \<Rightarrow> 'w \<Rightarrow> bool \<times> 'c net_reactor \<times> u32 \<times> 'w" where
  "unreg S r fd client_events events w =
     (if events = 0 then
        (let (_, w) = sys_epoll_ctl S (rc_efd r) EPOLL_CTL_DEL fd 0 w
         in (rc_clients r fd \<noteq> None, r\<lparr>rc_clients := (rc_clients r)(fd := None)\<rparr>, client_events, w))
      else
        case rc_clients r fd of
          None \<Rightarrow> (False, r, client_events, w)
        | Some _ \<Rightarrow>
            (let flags = client_events AND NOT events;
                 (ok, w) = ctl_mod S (rc_efd r) fd flags w
             in (ok, r, flags, w)))"

text \<open>
  The dispatch loop of \<open>poll\<close>. The state type \<open>'s\<close> is the whole program state: a client's
  \<open>read\<close> and \<open>write\<close> may change the reactor itself. The iterator \<open>it\<close> found for an event is
  used again after \<open>read\<close>; if \<open>read\<close> erased the entry, that use is undefined.
\<close>

fun poll_events ::
  "('s \<Rightarrow> int \<Rightarrow> 'c option) \<Rightarrow> ('c \<Rightarrow> 's \<Rightarrow> 's res) \<Rightarrow> ('c \<Rightarrow> 's \<Rightarrow> 's res)
     \<Rightarrow> (int \<times> u32) list \<Rightarrow> 's \<Rightarrow> 's res" where
  "poll_events find_client do_read do_write [] s = Inr s"
| "poll_events find_client do_read do_write ((fd, ev) # evs) s =
     (case find_client s fd of
        None \<Rightarrow> poll_events find_client do_read do_write evs s
      | Some c \<Rightarrow>
          res_bind (if ev AND EPOLLIN \<noteq> 0 then do_read c s else Inr s) (\<lambda>s.
          res_bind
            (if ev AND EPOLLOUT \<noteq> 0
             then (case find_client s fd of
                     None \<Rightarrow> Inl (Undefined ''iterator to an erased client'')
                   | Some _ \<Rightarrow> do_write c s)
             else Inr s) (\<lambda>s.
          poll_events find_client do_read do_write evs s)))"

definition poll ::
  "'w os_api \<Rightarrow> ('s \<Rightarrow> 'c net_reactor) \<Rightarrow> ('s \<Rightarrow> 'w) \<Rightarrow> ('w \<Rightarrow> 's \<Rightarrow> 's)
     \<Rightarrow> ('c \<Rightarrow> 's \<Rightarrow> 's res) \<Rightarrow> ('c \<Rightarrow> 's \<Rightarrow> 's res) \<Rightarrow> 's \<Rightarrow> (int \<times> 's) res" where
  "poll S reactor_of world_of set_world do_read do_write s =
     (let r = reactor_of s;
          (nfds, evs, w) = sys_epoll_wait S (rc_efd r) MAX_EVENTS (rc_wait_ms r) (world_of s)
      in res_bind
           (poll_events (\<lambda>s. rc_clients (reactor_of s)) do_read do_write (take (nat nfds) evs)
              (set_world w s))
           (\<lambda>s. Inr (nfds, s)))"

subsection \<open>The contract of the dispatch loop\<close>

text \<open>
  What the loop needs of its clients to keep a property of the program state: each handler
  keeps it when the reactor calls it, that is on a client it has registered.
\<close>

locale reactor_clients =
  fixes find_client :: "'s \<Rightarrow> int \<Rightarrow> 'c option"
    and do_read :: "'c \<Rightarrow> 's \<Rightarrow> 's res"
    and do_write :: "'c \<Rightarrow> 's \<Rightarrow> 's res"
    and I :: "'s \<Rightarrow> bool"
  assumes read_keeps: "I s \<Longrightarrow> find_client s fd = Some c \<Longrightarrow> do_read c s = Inr s' \<Longrightarrow> I s'"
    and write_keeps: "I s \<Longrightarrow> find_client s fd = Some c \<Longrightarrow> do_write c s = Inr s' \<Longrightarrow> I s'"
    and stable: "I s \<Longrightarrow> find_client s fd = Some c \<Longrightarrow> do_read c s = Inr s' \<Longrightarrow>
                   find_client s' fd \<noteq> None \<Longrightarrow> find_client s' fd = Some c"
begin

lemma poll_events_keeps:
  "I s \<Longrightarrow> poll_events find_client do_read do_write evs s = Inr s' \<Longrightarrow> I s'"
proof (induction evs arbitrary: s)
  case Nil
  then show ?case by simp
next
  case (Cons e evs)
  obtain fd ev where e: "e = (fd, ev)" by (cases e)
  show ?case
  proof (cases "find_client s fd")
    case None
    with Cons e show ?thesis by simp
  next
    case (Some c)
    let ?rd = "if ev AND EPOLLIN \<noteq> 0 then do_read c s else Inr s"
    let ?wr = "\<lambda>s1. if ev AND EPOLLOUT \<noteq> 0
        then (case find_client s1 fd of None \<Rightarrow> Inl (Undefined ''iterator to an erased client'')
              | Some _ \<Rightarrow> do_write c s1) else Inr s1"
    from Cons.prems(2) obtain s1 s2 where s1: "?rd = Inr s1" and s2: "?wr s1 = Inr s2"
      and rest: "poll_events find_client do_read do_write evs s2 = Inr s'"
      unfolding e by (simp only: poll_events.simps Some option.case res_bind_eq_Inr) blast
    have I1: "I s1" and f1: "find_client s1 fd \<noteq> None \<Longrightarrow> find_client s1 fd = Some c"
      using s1 Cons.prems(1) Some by (auto split: if_splits intro: read_keeps dest: stable)
    have "I s2"
      using s2 I1 f1 by (auto split: if_splits option.splits intro: write_keeps)
    with rest show ?thesis by (rule Cons.IH [rotated])
  qed
qed

end

subsection \<open>The reactor against the interest list of the kernel\<close>

text \<open>
  \<open>interest w efd\<close> is the interest list of the epoll instance \<open>efd\<close>; \<open>epoll_laws\<close> is what
  \<open>epoll_ctl(2)\<close> documents of it. \<open>in_sync\<close> says that the reactor and the kernel agree:
  exactly the registered descriptors are watched, each for its client's \<open>events_\<close>.
\<close>

definition epoll_laws :: "'w os_api \<Rightarrow> ('w \<Rightarrow> int \<Rightarrow> int \<rightharpoonup> u32) \<Rightarrow> bool" where
  "epoll_laws S interest \<longleftrightarrow>
     (\<forall>efd op fd ev w r w'. sys_epoll_ctl S efd op fd ev w = (r, w') \<longrightarrow>
        interest w' efd =
          (if r = 0 then (interest w efd)(fd := (if op = EPOLL_CTL_DEL then None else Some ev))
           else interest w efd)) \<and>
     (\<forall>efd op fd ev w. fst (sys_epoll_ctl S efd op fd ev w) \<in> {0, -1}) \<and>
     (\<forall>efd fd ev w. fst (sys_epoll_ctl S efd EPOLL_CTL_DEL fd ev w) = -1 \<longrightarrow> interest w efd fd = None)"

definition in_sync :: "('w \<Rightarrow> int \<Rightarrow> int \<rightharpoonup> u32) \<Rightarrow> ('c \<Rightarrow> u32) \<Rightarrow> 'c net_reactor \<Rightarrow> 'w \<Rightarrow> bool" where
  "in_sync interest events_of r w \<longleftrightarrow>
     interest w (rc_efd r) = (\<lambda>fd. map_option events_of (rc_clients r fd))"

lemma epoll_ctl_law:
  assumes "epoll_laws S interest" "sys_epoll_ctl S efd op fd ev w = (r, w')"
  shows "r = 0 \<Longrightarrow> interest w' efd = (interest w efd)(fd := (if op = EPOLL_CTL_DEL then None else Some ev))"
    and "r \<noteq> 0 \<Longrightarrow> interest w' efd = interest w efd"
    and "r = 0 \<or> r = -1"
    and "r \<noteq> 0 \<Longrightarrow> op = EPOLL_CTL_DEL \<Longrightarrow> interest w efd fd = None"
proof -
  have f: "fst (sys_epoll_ctl S efd op fd ev w) \<in> {0, -1}"
    using assms(1) unfolding epoll_laws_def by blast
  then show r: "r = 0 \<or> r = -1" using assms(2) by simp
  show "r = 0 \<Longrightarrow> interest w' efd = (interest w efd)(fd := (if op = EPOLL_CTL_DEL then None else Some ev))"
    and "r \<noteq> 0 \<Longrightarrow> interest w' efd = interest w efd"
    using assms unfolding epoll_laws_def by metis+
  show "r \<noteq> 0 \<Longrightarrow> op = EPOLL_CTL_DEL \<Longrightarrow> interest w efd fd = None"
    using assms r unfolding epoll_laws_def by (metis fst_conv)
qed

lemma in_sync_upd:
  assumes sync: "in_sync interest events_of r w"
    and cl: "rc_clients r' = (rc_clients r)(fd \<mapsto> c)" and ef: "rc_efd r' = rc_efd r"
    and int: "interest w' (rc_efd r) = (interest w (rc_efd r))(fd \<mapsto> ev)"
    and inj: "\<And>fd'. rc_clients r fd' = Some c \<Longrightarrow> fd' = fd"
  shows "in_sync interest (events_of(c := ev)) r' w'"
proof -
  have "map_option events_of (rc_clients r x) = map_option (events_of(c := ev)) (rc_clients r x)"
    if "x \<noteq> fd" for x
    using inj [of x] that by (cases "rc_clients r x") auto
  then show ?thesis
    using sync by (simp add: in_sync_def cl ef int fun_eq_iff)
qed

lemma reg_in_sync:
  assumes "epoll_laws S interest" "in_sync interest events_of r w"
    and ev: "client_events = events_of c" and own: "\<And>c'. rc_clients r fd = Some c' \<Longrightarrow> c' = c"
    and inj: "\<And>fd'. rc_clients r fd' = Some c \<Longrightarrow> fd' = fd"
    and reg: "reg S r c fd client_events events w = (True, r', ev', w')"
  shows "in_sync interest (events_of(c := ev')) r' w'"
    and "ev' = (case rc_clients r fd of None \<Rightarrow> events | Some _ \<Rightarrow> client_events OR events)"
    and "rc_clients r' = (rc_clients r)(fd \<mapsto> c)"
proof -
  let ?op = "if rc_clients r fd = None then EPOLL_CTL_ADD else EPOLL_CTL_MOD"
  have out: "ev' = (case rc_clients r fd of None \<Rightarrow> events | Some _ \<Rightarrow> client_events OR events)"
    and cl: "rc_clients r' = (rc_clients r)(fd \<mapsto> c)" and ef: "rc_efd r' = rc_efd r"
    and call: "sys_epoll_ctl S (rc_efd r) ?op fd ev' w = (0, w')"
    using reg own epoll_ctl_law(3) [OF assms(1)]
    by (auto simp: reg_def ctl_add_def ctl_mod_def Let_def split: option.splits prod.splits if_splits
        dest: own) (metis (full_types) fun_upd_triv own)+
  show "ev' = (case rc_clients r fd of None \<Rightarrow> events | Some _ \<Rightarrow> client_events OR events)"
    and "rc_clients r' = (rc_clients r)(fd \<mapsto> c)"
    by (fact out, fact cl)
  have "interest w' (rc_efd r) = (interest w (rc_efd r))(fd \<mapsto> ev')"
    using epoll_ctl_law(1) [OF assms(1) call] by (simp split: if_splits)
  then show "in_sync interest (events_of(c := ev')) r' w'"
    using in_sync_upd [OF assms(2) cl ef] inj by blast
qed

lemma unreg_all_in_sync:
  assumes "epoll_laws S interest" "in_sync interest events_of r w"
    and unreg: "unreg S r fd client_events 0 w = (found, r', ev', w')"
  shows "in_sync interest events_of r' w'"
    and "rc_clients r' fd = None" "found \<longleftrightarrow> rc_clients r fd \<noteq> None"
proof -
  obtain res where call: "sys_epoll_ctl S (rc_efd r) EPOLL_CTL_DEL fd 0 w = (res, w')"
    and r': "r' = r\<lparr>rc_clients := (rc_clients r)(fd := None)\<rparr>" and f: "found \<longleftrightarrow> rc_clients r fd \<noteq> None"
    using unreg by (auto simp: unreg_def split: prod.splits)
  show "rc_clients r' fd = None" "found \<longleftrightarrow> rc_clients r fd \<noteq> None" using r' f by simp_all
  have "interest w' (rc_efd r) = (interest w (rc_efd r))(fd := None)"
    using epoll_ctl_law [OF assms(1) call] by (cases "res = 0") (auto simp: fun_upd_idem)
  then show "in_sync interest events_of r' w'"
    using assms(2) by (auto simp: in_sync_def r' fun_eq_iff)
qed

lemma unreg_flags_in_sync:
  assumes "epoll_laws S interest" "in_sync interest events_of r w" "events \<noteq> 0"
    and ev: "client_events = events_of c" and own: "rc_clients r fd = Some c"
    and inj: "\<And>fd'. rc_clients r fd' = Some c \<Longrightarrow> fd' = fd"
    and unreg: "unreg S r fd client_events events w = (True, r', ev', w')"
  shows "in_sync interest (events_of(c := ev')) r' w'"
    and "r' = r" "ev' = client_events AND NOT events"
proof -
  have r': "r' = r" and e: "ev' = client_events AND NOT events"
    and call: "sys_epoll_ctl S (rc_efd r) EPOLL_CTL_MOD fd ev' w = (0, w')"
    using unreg assms(3) own
    by (auto simp: unreg_def ctl_mod_def Let_def split: prod.splits if_splits
        dest: epoll_ctl_law(3) [OF assms(1)])
  show "r' = r" "ev' = client_events AND NOT events" by (fact r', fact e)
  have "interest w' (rc_efd r) = (interest w (rc_efd r))(fd \<mapsto> ev')"
    using epoll_ctl_law(1) [OF assms(1) call] by simp
  moreover have "rc_clients r' = (rc_clients r)(fd \<mapsto> c)"
    using own by (simp add: r' map_upd_triv)
  ultimately show "in_sync interest (events_of(c := ev')) r' w'"
    using in_sync_upd [OF assms(2) _ _ _ inj] r' by blast
qed

end
