(* ===== verification/Timer.thy ===== *)
theory Timer
  imports Sockets
begin

section \<open>The timer\<close>

text \<open>
  \<open>src/timer.cpp\<close>: clients register with a timeout; \<open>tick\<close> records the time, \<open>tock\<close> adds the
  time since then to every client and calls \<open>on_timeout\<close> on those whose timeout has passed.
  A client is an identifier of type \<open>'c\<close>; the two \<open>float\<close> fields of \<open>itimer_client\<close>
  (\<open>include/itimer_client.hpp\<close>) are the record \<open>itimer\<close>. All values the fields take are whole
  numbers of milliseconds: \<open>fl32\<close> is rounding of a whole number to single precision, to
  nearest and ties to even (values of \<open>2 ^ 128\<close> and above, which are infinite in the code,
  are kept finite here).
\<close>

fun bitlen :: "nat \<Rightarrow> nat" where
  "bitlen n = (if n = 0 then 0 else Suc (bitlen (n div 2)))"

declare bitlen.simps [simp del]

definition fl32_nat :: "nat \<Rightarrow> nat" where
  "fl32_nat n =
     (let e = bitlen n - 24; q = n div 2 ^ e; r = n mod 2 ^ e in
      if 2 * r > 2 ^ e \<or> (2 * r = 2 ^ e \<and> odd q) then (q + 1) * 2 ^ e else q * 2 ^ e)"

definition fl32 :: "int \<Rightarrow> int" where
  "fl32 x = sgn x * int (fl32_nat (nat \<bar>x\<bar>))"

record itimer =
  timeout_ms :: int
  elapsed :: int

record 'c timer =
  tm_start :: int
  tm_clients :: "'c list"

text \<open>\<open>duration_cast\<close> to milliseconds truncates towards zero.\<close>

definition to_ms :: "int \<Rightarrow> int" where
  "to_ms ns = sgn ns * (\<bar>ns\<bar> div 1000000)"

definition tick :: "'w os_api \<Rightarrow> 'c timer \<Rightarrow> 'w \<Rightarrow> 'c timer \<times> 'w" where
  "tick S t w = (let (now, w) = sys_now S w in (t\<lparr>tm_start := now\<rparr>, w))"

definition timer_reg :: "'c timer \<Rightarrow> 'c \<Rightarrow> int \<Rightarrow> 'c timer \<times> itimer" where
  "timer_reg t client timeout =
     (t\<lparr>tm_clients := tm_clients t @ [client]\<rparr>, \<lparr>timeout_ms = fl32 timeout, elapsed = 0\<rparr>)"

definition timer_unreg :: "'c timer \<Rightarrow> 'c \<Rightarrow> 'c timer" where
  "timer_unreg t client = t\<lparr>tm_clients := filter (\<lambda>c. c \<noteq> client) (tm_clients t)\<rparr>"

text \<open>
  The loop of \<open>tock\<close> walks the vector \<open>clients_\<close> with iterators while \<open>on_timeout\<close> may
  register or unregister clients in the same vector, which invalidates them; the loop then
  goes on with an invalid iterator.
\<close>

fun tock_loop ::
  "('s \<Rightarrow> 'c list) \<Rightarrow> ('c \<Rightarrow> 's \<Rightarrow> itimer) \<Rightarrow> ('c \<Rightarrow> itimer \<Rightarrow> 's \<Rightarrow> 's) \<Rightarrow> ('c \<Rightarrow> 's \<Rightarrow> 's res)
     \<Rightarrow> int \<Rightarrow> 'c list \<Rightarrow> 's \<Rightarrow> 's res" where
  "tock_loop vec get put on_timeout elapsed_ms [] s = Inr s"
| "tock_loop vec get put on_timeout elapsed_ms (c # cs) s =
     (let it = get c s;
          it = it\<lparr>elapsed := fl32 (elapsed it + fl32 elapsed_ms)\<rparr>;
          s1 = put c it s
      in if timeout_ms it \<le> elapsed it
         then res_bind (on_timeout c s1) (\<lambda>s2.
                let s3 = put c ((get c s2)\<lparr>elapsed := 0\<rparr>) s2 in
                if vec s3 \<noteq> vec s1 then Inl (Undefined ''iterator into a changed vector'')
                else tock_loop vec get put on_timeout elapsed_ms cs s3)
         else tock_loop vec get put on_timeout elapsed_ms cs s1)"

definition tock ::
  "'w os_api \<Rightarrow> ('s \<Rightarrow> 'c timer) \<Rightarrow> ('s \<Rightarrow> 'w) \<Rightarrow> ('w \<Rightarrow> 's \<Rightarrow> 's) \<Rightarrow> ('c \<Rightarrow> 's \<Rightarrow> itimer)
     \<Rightarrow> ('c \<Rightarrow> itimer \<Rightarrow> 's \<Rightarrow> 's) \<Rightarrow> ('c \<Rightarrow> 's \<Rightarrow> 's res) \<Rightarrow> 's \<Rightarrow> 's res" where
  "tock S timer_of world_of set_world get put on_timeout s =
     (let (now, w) = sys_now S (world_of s);
          s = set_world w s;
          elapsed_ms = to_ms (now - tm_start (timer_of s))
      in tock_loop (\<lambda>s. tm_clients (timer_of s)) get put on_timeout elapsed_ms
           (tm_clients (timer_of s)) s)"

subsection \<open>Rounding\<close>

lemma bitlen_double: "0 < n \<Longrightarrow> bitlen (n * 2 ^ k) = bitlen n + k"
proof (induction k)
  case 0
  then show ?case by simp
next
  case (Suc k)
  then have "bitlen (n * 2 ^ Suc k) = Suc (bitlen (n * 2 ^ Suc k div 2))"
    by (subst bitlen.simps) simp
  also have "n * 2 ^ Suc k div 2 = n * 2 ^ k" by simp
  finally show ?case using Suc by simp
qed

lemma bitlen_le: "n < 2 ^ m \<Longrightarrow> bitlen n \<le> m"
proof (induction m arbitrary: n)
  case 0
  then show ?case by (simp add: bitlen.simps)
next
  case (Suc m)
  then have "bitlen (n div 2) \<le> m" by (intro Suc.IH) auto
  then show ?case by (subst bitlen.simps) simp
qed

text \<open>A whole number with at most 24 significant bits is a single precision number.\<close>

lemma fl32_nat_exact:
  assumes "m < 2 ^ 24"
  shows "fl32_nat (m * 2 ^ k) = m * 2 ^ k"
proof (cases "m = 0")
  case True
  then show ?thesis by (simp add: fl32_nat_def Let_def)
next
  case False
  define e where "e = bitlen (m * 2 ^ k) - 24"
  have "e \<le> k"
    using False bitlen_double [of m k] bitlen_le [OF assms] by (simp add: e_def)
  then have dvd: "2 ^ e dvd m * 2 ^ k" by (simp add: le_imp_power_dvd)
  then show ?thesis by (simp add: fl32_nat_def Let_def e_def [symmetric])
qed

lemma fl32_exact: "0 \<le> m \<Longrightarrow> m < 2 ^ 24 \<Longrightarrow> fl32 (m * 2 ^ k) = m * 2 ^ k"
  using fl32_nat_exact [of "nat m" k]
  by (cases "m = 0") (simp_all add: fl32_def nat_mult_distrib nat_power_eq)

lemma fl32_small [simp]: "0 \<le> m \<Longrightarrow> m < 2 ^ 24 \<Longrightarrow> fl32 m = m"
  using fl32_exact [of m 0] by simp

subsection \<open>The contract of the timer loop\<close>

text \<open>
  The state accessors are those of a store (\<open>get\<close> after \<open>put\<close>), \<open>put\<close> leaves the vector
  alone, and \<open>on_timeout\<close> unregisters the client it is called on, as the one client of the
  program does.
\<close>

locale timer_clients =
  fixes vec :: "'s \<Rightarrow> 'c list"
    and get :: "'c \<Rightarrow> 's \<Rightarrow> itimer"
    and put :: "'c \<Rightarrow> itimer \<Rightarrow> 's \<Rightarrow> 's"
    and on_timeout :: "'c \<Rightarrow> 's \<Rightarrow> 's res"
    and ok :: "'s \<Rightarrow> 'c \<Rightarrow> bool"
  assumes get_put_same: "ok s c \<Longrightarrow> get c (put c it s) = it"
    and get_put_other: "c \<noteq> d \<Longrightarrow> get d (put c it s) = get d s"
    and vec_put: "vec (put c it s) = vec s"
    and ok_put: "ok (put d it s) c = ok s c"
    and fires_unreg: "ok s c \<Longrightarrow> on_timeout c s = Inr s' \<Longrightarrow> c \<notin> set (vec s')"
begin

lemma tock_loop_expired:
  assumes "c \<in> set cs" "\<forall>d\<in>set cs. ok s d \<and> d \<in> set (vec s)"
    and "timeout_ms (get c s) \<le> fl32 (elapsed (get c s) + fl32 ms)" "distinct cs"
  shows "\<exists>e. tock_loop vec get put on_timeout ms cs s = Inl e"
  using assms
proof (induction cs arbitrary: s)
  case Nil
  then show ?case by simp
next
  case (Cons d cs)
  let ?it = "(get d s)\<lparr>elapsed := fl32 (elapsed (get d s) + fl32 ms)\<rparr>"
  let ?s1 = "put d ?it s"
  have d: "d \<in> set (vec s)" "ok ?s1 d" using Cons.prems by (auto simp: ok_put)
  show ?case
  proof (cases "timeout_ms ?it \<le> elapsed ?it")
    case True
    show ?thesis
    proof (cases "on_timeout d ?s1")
      case (Inl e)
      with True show ?thesis by (simp add: Let_def)
    next
      case (Inr s2)
      then have "d \<notin> set (vec s2)" using d fires_unreg by blast
      with d have "vec s2 \<noteq> vec s" by auto
      with True Inr show ?thesis by (simp add: Let_def vec_put)
    qed
  next
    case False
    then have "c \<noteq> d" using Cons.prems by auto
    have "\<exists>e. tock_loop vec get put on_timeout ms cs ?s1 = Inl e"
    proof (rule Cons.IH)
      show "c \<in> set cs" "distinct cs" using \<open>c \<noteq> d\<close> Cons.prems by auto
      show "\<forall>d\<in>set cs. ok ?s1 d \<and> d \<in> set (vec ?s1)"
        using Cons.prems by (auto simp: ok_put vec_put)
      show "timeout_ms (get c ?s1) \<le> fl32 (elapsed (get c ?s1) + fl32 ms)"
        using Cons.prems \<open>c \<noteq> d\<close> by (simp add: get_put_other)
    qed
    with False show ?thesis by (simp add: Let_def)
  qed
qed

lemma tock_loop_quiet:
  assumes "distinct cs" "\<forall>d\<in>set cs. ok s d"
    and "\<forall>c\<in>set cs. fl32 (elapsed (get c s) + fl32 ms) < timeout_ms (get c s)"
  shows "\<exists>s'. tock_loop vec get put on_timeout ms cs s = Inr s' \<and> vec s' = vec s
     \<and> (\<forall>c\<in>set cs. get c s' = (get c s)\<lparr>elapsed := fl32 (elapsed (get c s) + fl32 ms)\<rparr>)
     \<and> (\<forall>c. c \<notin> set cs \<longrightarrow> get c s' = get c s)"
  using assms
proof (induction cs arbitrary: s)
  case Nil
  then show ?case by simp
next
  case (Cons d cs)
  let ?it = "(get d s)\<lparr>elapsed := fl32 (elapsed (get d s) + fl32 ms)\<rparr>"
  let ?s1 = "put d ?it s"
  have g: "get c ?s1 = get c s" if "c \<noteq> d" for c using that by (simp add: get_put_other)
  have q: "\<forall>c\<in>set cs. fl32 (elapsed (get c ?s1) + fl32 ms) < timeout_ms (get c ?s1)"
    using Cons.prems g by (metis distinct.simps(2) list.set_intros(2))
  obtain s' where s': "tock_loop vec get put on_timeout ms cs ?s1 = Inr s'" "vec s' = vec ?s1"
    and upd: "\<forall>c\<in>set cs. get c s' = (get c ?s1)\<lparr>elapsed := fl32 (elapsed (get c ?s1) + fl32 ms)\<rparr>"
    and same: "\<forall>c. c \<notin> set cs \<longrightarrow> get c s' = get c ?s1"
    using Cons.IH [of ?s1] Cons.prems q by (auto simp: ok_put)
  have "get d ?s1 = ?it" using Cons.prems(2) by (simp add: get_put_same)
  then have "\<forall>c\<in>set (d # cs). get c s' = (get c s)\<lparr>elapsed := fl32 (elapsed (get c s) + fl32 ms)\<rparr>"
    using upd same g Cons.prems(1) by (metis distinct.simps(2) set_ConsD)
  moreover have "tock_loop vec get put on_timeout ms (d # cs) s = Inr s'"
    using Cons.prems(3) s'(1) by (simp add: Let_def)
  ultimately show ?case
    using s'(2) same g by (intro exI [of _ s']) (auto simp: vec_put)
qed

text \<open>When no timeout has passed the loop only adds the time to every client.\<close>

lemma tock_loop_fold:
  assumes "distinct cs" "\<forall>c\<in>set cs. fl32 (elapsed (get c s) + fl32 ms) < timeout_ms (get c s)"
  shows "tock_loop vec get put on_timeout ms cs s =
    Inr (fold (\<lambda>c s. put c ((get c s)\<lparr>elapsed := fl32 (elapsed (get c s) + fl32 ms)\<rparr>) s) cs s)"
  using assms
proof (induction cs arbitrary: s)
  case (Cons d cs)
  let ?s1 = "put d ((get d s)\<lparr>elapsed := fl32 (elapsed (get d s) + fl32 ms)\<rparr>) s"
  have "get c ?s1 = get c s" if "c \<in> set cs" for c using that Cons.prems(1) get_put_other by (metis distinct.simps(2))
  then have "\<forall>c\<in>set cs. fl32 (elapsed (get c ?s1) + fl32 ms) < timeout_ms (get c ?s1)"
    using Cons.prems(2) by simp
  then show ?case using Cons.IH [of ?s1] Cons.prems by (simp add: Let_def)
qed simp

text \<open>Whenever the loop ends, that is all it has done.\<close>

lemma tock_loop_only_adds:
  assumes "tock_loop vec get put on_timeout ms cs s = Inr s'" "\<forall>d\<in>set cs. ok s d \<and> d \<in> set (vec s)"
  shows "s' = fold (\<lambda>c s. put c ((get c s)\<lparr>elapsed := fl32 (elapsed (get c s) + fl32 ms)\<rparr>) s) cs s"
  using assms
proof (induction cs arbitrary: s)
  case (Cons d cs)
  let ?it = "(get d s)\<lparr>elapsed := fl32 (elapsed (get d s) + fl32 ms)\<rparr>"
  let ?s1 = "put d ?it s"
  have "\<not> timeout_ms ?it \<le> elapsed ?it"
  proof
    assume le: "timeout_ms ?it \<le> elapsed ?it"
    then obtain s2 where s2: "on_timeout d ?s1 = Inr s2" "vec s2 = vec s"
      using Cons.prems(1) by (auto simp: Let_def vec_put res_bind_eq_Inr split: if_splits)
    moreover have "ok ?s1 d" using Cons.prems(2) by (simp add: ok_put)
    ultimately show False using fires_unreg [of ?s1 d s2] Cons.prems(2) by simp
  qed
  then have "tock_loop vec get put on_timeout ms cs ?s1 = Inr s'" using Cons.prems(1) by (simp add: Let_def)
  then show ?case using Cons.IH [of ?s1] Cons.prems(2) by (simp add: ok_put vec_put)
qed simp

lemma tock_loop_ends_iff:
  assumes "distinct cs" "\<forall>d\<in>set cs. ok s d \<and> d \<in> set (vec s)"
  shows "(\<exists>s'. tock_loop vec get put on_timeout ms cs s = Inr s') \<longleftrightarrow>
    (\<forall>c\<in>set cs. fl32 (elapsed (get c s) + fl32 ms) < timeout_ms (get c s))"
proof
  assume r: "\<exists>s'. tock_loop vec get put on_timeout ms cs s = Inr s'"
  show "\<forall>c\<in>set cs. fl32 (elapsed (get c s) + fl32 ms) < timeout_ms (get c s)"
  proof (rule ballI, rule ccontr)
    fix c
    assume "c \<in> set cs" "\<not> fl32 (elapsed (get c s) + fl32 ms) < timeout_ms (get c s)"
    then have "\<exists>e. tock_loop vec get put on_timeout ms cs s = Inl e"
      using tock_loop_expired [of c cs s ms] assms by simp
    then show False using r by auto
  qed
qed (use tock_loop_fold [OF assms(1)] in blast)

end

end
