(* ===== verification/Session_SM.thy ===== *)
theory Session_SM
  imports Main
begin

section \<open>The state machine of a peer session\<close>

text \<open>
  \<open>src/session_sm.cpp\<close>: an event sets the state and calls one method of the client. The
  machine holds a reference to its client; here \<open>on_event\<close> returns the method to call, and
  the client (\<open>Torrent_Agent\<close>) performs the call.
\<close>

datatype session_event =
    EV_START | EV_CONNECTED | EV_HANDSHAKE | EV_CHOKE | EV_UNCHOKE | EV_DISCONNECTED

datatype sm_state =
    ST_IDLE | ST_STARTED | ST_CONNECTED | ST_HANDSHAKE_RECEIVED | ST_CHOKED | ST_UNCHOKED
  | ST_DISCONNECTED

datatype ism_call =
    Call_connect | Call_handshake | Call_interested | Call_choked | Call_unchoked
  | Call_disconnected

definition session_sm :: sm_state where
  "session_sm = ST_IDLE"

fun on_event :: "session_event \<Rightarrow> sm_state \<Rightarrow> sm_state \<times> ism_call" where
  "on_event EV_START st = (ST_STARTED, Call_connect)"
| "on_event EV_CONNECTED st = (ST_CONNECTED, Call_handshake)"
| "on_event EV_HANDSHAKE st = (ST_HANDSHAKE_RECEIVED, Call_interested)"
| "on_event EV_CHOKE st = (ST_CHOKED, Call_choked)"
| "on_event EV_UNCHOKE st = (ST_UNCHOKED, Call_unchoked)"
| "on_event EV_DISCONNECTED st = (ST_DISCONNECTED, Call_disconnected)"

lemma on_event_connect: "(state, Call_connect) = on_event ev st \<longleftrightarrow> ev = EV_START \<and> state = ST_STARTED"
  by (cases ev) auto

text \<open>The numbering of the enumerators, which \<open>handshake_received\<close> compares.\<close>

instantiation sm_state :: linorder
begin

fun sm_rank :: "sm_state \<Rightarrow> nat" where
  "sm_rank ST_IDLE = 0"
| "sm_rank ST_STARTED = 1"
| "sm_rank ST_CONNECTED = 2"
| "sm_rank ST_HANDSHAKE_RECEIVED = 3"
| "sm_rank ST_CHOKED = 4"
| "sm_rank ST_UNCHOKED = 5"
| "sm_rank ST_DISCONNECTED = 6"

definition less_eq_sm_state :: "sm_state \<Rightarrow> sm_state \<Rightarrow> bool" where
  "s \<le> t \<longleftrightarrow> sm_rank s \<le> sm_rank t"

definition less_sm_state :: "sm_state \<Rightarrow> sm_state \<Rightarrow> bool" where
  "s < t \<longleftrightarrow> sm_rank s < sm_rank t"

instance
proof
  fix s t :: sm_state
  show "s \<le> t \<Longrightarrow> t \<le> s \<Longrightarrow> s = t"
    by (cases s; cases t) (simp_all add: less_eq_sm_state_def)
qed (auto simp: less_eq_sm_state_def less_sm_state_def)

end

definition handshake_received :: "sm_state \<Rightarrow> bool" where
  "handshake_received st \<longleftrightarrow> st \<ge> ST_HANDSHAKE_RECEIVED"

lemma handshake_received_iff:
  "handshake_received st \<longleftrightarrow>
     st \<in> {ST_HANDSHAKE_RECEIVED, ST_CHOKED, ST_UNCHOKED, ST_DISCONNECTED}"
  by (cases st) (simp_all add: handshake_received_def less_eq_sm_state_def)

lemma handshake_received_simps [simp]:
  "\<not> handshake_received ST_IDLE"
  "\<not> handshake_received ST_STARTED"
  "\<not> handshake_received ST_CONNECTED"
  "handshake_received ST_HANDSHAKE_RECEIVED"
  "handshake_received ST_CHOKED"
  "handshake_received ST_UNCHOKED"
  "handshake_received ST_DISCONNECTED"
  by (simp_all add: handshake_received_iff)

end
