(* ===== verification/Torrent_Agent.thy ===== *)
theory Torrent_Agent
  imports Download Net_Reactor Timer Session_SM
begin

section \<open>The peer connections\<close>

text \<open>
  \<open>src/torrent_agent.cpp\<close>. An agent is one connection to a peer; it is a client of the reactor,
  of the timer and of its own state machine, and shares the reactor, the timer, the piece
  handler and the session with the other agents. An operation of agent \<open>me\<close> takes and returns
  the pair of its own record and the shared one. The environment \<open>V\<close> holds what never
  changes: the external code, the system calls, the torrent, the peer id of the session and the
  fuel of the two loops that may not end (the one in \<open>on_read\<close> and the one in \<open>send\<close>).
  Log messages are left out.
\<close>

record ('b, 'w) env =
  en_ext :: "'b externals"
  en_os :: "'w os_api"
  en_ti :: torrent_info
  en_peer_id :: string
  en_fuel :: nat

record 'b agent =
  ag_peer :: peer_info
  ag_socket :: tcp_socket
  ag_events :: u32
  ag_timer :: itimer
  ag_sm :: sm_state
  ag_io_buffer :: 'b
  ag_msg_buffer :: "byte list"
  ag_send_queue :: "'b list"
  ag_connected :: bool
  ag_choked :: bool
  ag_attempts :: int

text \<open>
  What the agents share. The last field is an auxiliary variable and no member of the code: the
  payloads passed to \<open>received\<close> of the piece handler so far. No function reads it; theorems on whole
  runs use it to speak of the blocks the peers sent.
\<close>

record ('b, 'w) shared =
  sh_reactor :: "nat net_reactor"
  sh_timer :: "nat timer"
  sh_pieces :: "'b piece_handler"
  sh_running :: bool
  sh_notified :: bool
  sh_world :: 'w
  sh_blocks :: "'b list"

type_synonym ('b, 'w) ast = "'b agent \<times> ('b, 'w) shared"

definition stop :: "('b, 'w) shared \<Rightarrow> ('b, 'w) shared" where
  "stop sh = sh\<lparr>sh_running := False, sh_notified := True\<rparr>"

subsection \<open>The reactor and the timer, called by an agent on itself\<close>

definition reg_self :: "('b, 'w) env \<Rightarrow> nat \<Rightarrow> u32 \<Rightarrow> ('b, 'w) ast \<Rightarrow> ('b, 'w) ast" where
  "reg_self V me events = (\<lambda>(a, sh).
     let (ok, r, ev, w) = reg (en_os V) (sh_reactor sh) me (ag_socket a) (ag_events a) events (sh_world sh)
     in (a\<lparr>ag_events := ev\<rparr>, sh\<lparr>sh_reactor := r, sh_world := w\<rparr>))"

definition unreg_self :: "('b, 'w) env \<Rightarrow> u32 \<Rightarrow> ('b, 'w) ast \<Rightarrow> ('b, 'w) ast" where
  "unreg_self V events = (\<lambda>(a, sh).
     let (ok, r, ev, w) = unreg (en_os V) (sh_reactor sh) (ag_socket a) (ag_events a) events (sh_world sh)
     in (a\<lparr>ag_events := ev\<rparr>, sh\<lparr>sh_reactor := r, sh_world := w\<rparr>))"

subsection \<open>Requesting pieces\<close>

definition MAX_BURST :: nat where
  "MAX_BURST = 15"

text \<open>The \<open>while\<close> loop, with the number of requests still allowed; the number sent is returned.\<close>

fun request_loop :: "('b, 'w) env \<Rightarrow> nat \<Rightarrow> ('b, 'w) ast \<Rightarrow> nat \<times> ('b, 'w) ast" where
  "request_loop V 0 st = (0, st)"
| "request_loop V (Suc n) (a, sh) =
     (let ((found, r), ph) = get_piece_request (en_ext V) (en_ti V) (peer_id (ag_peer a)) (sh_pieces sh);
          sh = sh\<lparr>sh_pieces := ph\<rparr>
      in if \<not> found then (0, (a, sh))
         else
           let request = new_request (ex_bb (en_ext V)) r;
               (count, st) = request_loop V n (a\<lparr>ag_send_queue := ag_send_queue a @ [request]\<rparr>, sh)
           in (Suc count, st))"

definition request_pieces :: "('b, 'w) env \<Rightarrow> nat \<Rightarrow> ('b, 'w) ast \<Rightarrow> ('b, 'w) ast" where
  "request_pieces V me st =
     (if \<not> ag_choked (fst st) then
        (let (send_count, st) = request_loop V MAX_BURST st
         in if send_count > 0 then reg_self V me EPOLLOUT st else st)
      else st)"

subsection \<open>What the state machine calls\<close>

definition agent_handshake :: "('b, 'w) env \<Rightarrow> nat \<Rightarrow> ('b, 'w) ast \<Rightarrow> ('b, 'w) ast" where
  "agent_handshake V me = (\<lambda>(a, sh).
     let info_hash = to_hex (ti_info_hash (en_ti V));
         handshake = new_handshake (ex_bb (en_ext V)) (ex_oob (en_ext V)) (en_peer_id V) info_hash
     in reg_self V me EPOLLOUT (a\<lparr>ag_send_queue := ag_send_queue a @ [handshake]\<rparr>, sh))"

definition agent_interested :: "('b, 'w) env \<Rightarrow> nat \<Rightarrow> ('b, 'w) ast \<Rightarrow> ('b, 'w) ast" where
  "agent_interested V me = (\<lambda>(a, sh).
     reg_self V me EPOLLOUT
       (a\<lparr>ag_send_queue := ag_send_queue a @ [new_interested (ex_bb (en_ext V))]\<rparr>, sh))"

definition agent_choked :: "('b, 'w) ast \<Rightarrow> ('b, 'w) ast" where
  "agent_choked = (\<lambda>(a, sh). (a\<lparr>ag_choked := True\<rparr>, sh))"

definition agent_unchoked :: "('b, 'w) env \<Rightarrow> nat \<Rightarrow> ('b, 'w) ast \<Rightarrow> ('b, 'w) ast" where
  "agent_unchoked V me = (\<lambda>(a, sh). request_pieces V me (a\<lparr>ag_choked := False\<rparr>, sh))"

definition TIME_TO_RECONNECT_MS :: int where
  "TIME_TO_RECONNECT_MS = 5000"

definition agent_disconnected :: "('b, 'w) env \<Rightarrow> nat \<Rightarrow> ('b, 'w) ast \<Rightarrow> ('b, 'w) ast" where
  "agent_disconnected V me st =
     (let (a, sh) = unreg_self V 0 st;
          (fd, w) = tcp_close (en_os V) (ag_socket a) (sh_world sh);
          a = a\<lparr>ag_socket := fd, ag_connected := False\<rparr>;
          (t, it) = timer_reg (sh_timer sh) me
                      (TIME_TO_RECONNECT_MS * 2 ^ nat (max 0 (ag_attempts a - 1)))
      in (a\<lparr>ag_timer := it\<rparr>, sh\<lparr>sh_timer := t, sh_world := w\<rparr>))"

text \<open>
  The state machine calls the agent, and \<open>connect\<close> calls the state machine: a connection that
  is made at once fires \<open>CONNECTED\<close> inside the call that \<open>START\<close> caused.
\<close>

function (sequential) sm_on_event :: "('b, 'w) env \<Rightarrow> nat \<Rightarrow> session_event \<Rightarrow> ('b, 'w) ast \<Rightarrow> ('b, 'w) ast"
  and agent_connect :: "('b, 'w) env \<Rightarrow> nat \<Rightarrow> ('b, 'w) ast \<Rightarrow> ('b, 'w) ast" where
  "sm_on_event V me ev (a, sh) =
     (let (state, call) = on_event ev (ag_sm a);
          st = (a\<lparr>ag_sm := state\<rparr>, sh)
      in case call of
           Call_connect \<Rightarrow> agent_connect V me st
         | Call_handshake \<Rightarrow> agent_handshake V me st
         | Call_interested \<Rightarrow> agent_interested V me st
         | Call_choked \<Rightarrow> agent_choked st
         | Call_unchoked \<Rightarrow> agent_unchoked V me st
         | Call_disconnected \<Rightarrow> agent_disconnected V me st)"
| "agent_connect V me (a, sh) =
     (let (connected, w) = tcp_connect (en_os V) (ag_socket a) (peer_endpoint (ag_peer a)) (sh_world sh);
          st = (a\<lparr>ag_connected := connected, ag_attempts := ag_attempts a + 1\<rparr>, sh\<lparr>sh_world := w\<rparr>)
      in if connected then sm_on_event V me EV_CONNECTED st else reg_self V me EPOLLOUT st)"
  by pat_completeness auto
termination
  by (relation "measure (case_sum (\<lambda>(V, me, ev, st). if ev = EV_START then 2 else 0) (\<lambda>(V, me, st). 1))")
    (auto simp: on_event_connect)

declare sm_on_event.simps [simp del] agent_connect.simps [simp del]

definition agent_start :: "('b, 'w) env \<Rightarrow> nat \<Rightarrow> ('b, 'w) ast \<Rightarrow> ('b, 'w) ast" where
  "agent_start V me st = sm_on_event V me EV_START st"


subsection \<open>Received bytes\<close>

text \<open>
  \<open>get_msg_len\<close> reads the first byte, or the first four, of the vector, whatever its length. The
  sum with 4 is a \<open>uint32_t\<close> and wraps; the sum with 49 is an \<open>int\<close>.
\<close>

definition get_msg_len :: "(nat \<Rightarrow> byte) \<Rightarrow> byte list \<Rightarrow> bool \<Rightarrow> nat" where
  "get_msg_len oob buffer handshake_rcvd =
     (if \<not> handshake_rcvd then unat (hd (read_mem oob buffer 1)) + 49
      else unat (ntohl (of_be (rev (read_mem oob buffer 4))) + 4))"

definition set_peer_id_and_validate_handshake ::
  "'b byte_buffer_api \<Rightarrow> 'b \<Rightarrow> peer_info \<Rightarrow> bool \<times> peer_info" where
  "set_peer_id_and_validate_handshake B msg info =
     (let proto_str_len = unat (bb_peek_8 B 0 msg);
          proto_str = string_of (at_ptr (bb_get_read B msg) 1 proto_str_len);
          new_id = string_of (at_ptr (bb_get_read B msg) 48 20);
          info = (if peer_id info \<noteq> [] then info\<lparr>peer_id := new_id\<rparr> else info)
      in (bb_get_read_available B msg = proto_str_len + 49 \<and> proto_str = V1, info))"

definition chop :: "'b byte_buffer_api \<Rightarrow> byte list \<Rightarrow> nat \<Rightarrow> 'b \<times> byte list" where
  "chop B buffer slice_len = (bb_write B (take slice_len buffer) (bb_new B), drop slice_len buffer)"

definition handle_msg :: "('b, 'w) env \<Rightarrow> nat \<Rightarrow> 'b message \<Rightarrow> ('b, 'w) ast \<Rightarrow> ('b, 'w) ast" where
  "handle_msg V me msg = (\<lambda>(a, sh).
     case msg_id msg of
       CHOKE \<Rightarrow> sm_on_event V me EV_CHOKE (a, sh)
     | UNCHOKE \<Rightarrow> sm_on_event V me EV_UNCHOKE (a, sh)
     | BITFIELD \<Rightarrow>
         (let (_, ph) = have_bitfield (en_ext V) (en_ti V) (peer_id (ag_peer a)) (msg_payload msg) (sh_pieces sh)
          in (a, sh\<lparr>sh_pieces := ph\<rparr>))
     | PIECE \<Rightarrow>
         (let (stopped, ph) = received (en_ext V) (en_ti V) (msg_payload msg) (sh_pieces sh);
              sh = sh\<lparr>sh_pieces := ph, sh_blocks := sh_blocks sh @ [msg_payload msg]\<rparr>;
              sh = (if stopped then stop sh else sh)
          in request_pieces V me (a, sh))
     | _ \<Rightarrow> (a, sh))"

text \<open>One round of the loop in \<open>on_read\<close>: a slice is cut off and handled.\<close>

definition handle_slice :: "('b, 'w) env \<Rightarrow> nat \<Rightarrow> nat \<Rightarrow> ('b, 'w) ast \<Rightarrow> ('b, 'w) ast" where
  "handle_slice V me msg_len = (\<lambda>(a, sh).
     let (slice, rest) = chop (ex_bb (en_ext V)) (ag_msg_buffer a) msg_len;
         a = a\<lparr>ag_msg_buffer := rest\<rparr>
     in if \<not> handshake_received (ag_sm a) then
          (let (ok, info) = set_peer_id_and_validate_handshake (ex_bb (en_ext V)) slice (ag_peer a);
               st = (a\<lparr>ag_peer := info\<rparr>, sh)
           in if ok then sm_on_event V me EV_HANDSHAKE st else st)
        else handle_msg V me (message_ctor (ex_bb (en_ext V)) slice) (a, sh))"

fun on_read_loop :: "nat \<Rightarrow> ('b, 'w) env \<Rightarrow> nat \<Rightarrow> ('b, 'w) ast \<Rightarrow> ('b, 'w) ast res" where
  "on_read_loop 0 V me (a, sh) =
     (let msg_len = get_msg_len (ex_oob (en_ext V)) (ag_msg_buffer a) (handshake_received (ag_sm a)) in
      if length (ag_msg_buffer a) \<ge> 4 \<and> length (ag_msg_buffer a) \<ge> msg_len
      then Inl Out_of_fuel else Inr (a, sh))"
| "on_read_loop (Suc fuel) V me (a, sh) =
     (let msg_len = get_msg_len (ex_oob (en_ext V)) (ag_msg_buffer a) (handshake_received (ag_sm a)) in
      if length (ag_msg_buffer a) \<ge> 4 \<and> length (ag_msg_buffer a) \<ge> msg_len
      then on_read_loop fuel V me (handle_slice V me msg_len (a, sh)) else Inr (a, sh))"

definition on_read :: "('b, 'w) env \<Rightarrow> nat \<Rightarrow> 'b \<Rightarrow> ('b, 'w) ast \<Rightarrow> ('b, 'w) ast res" where
  "on_read V me buffer = (\<lambda>(a, sh).
     let B = ex_bb (en_ext V);
         bs = at_ptr (bb_get_read B buffer) 0 (bb_get_read_available B buffer)
     in on_read_loop (en_fuel V) V me (a\<lparr>ag_msg_buffer := ag_msg_buffer a @ bs\<rparr>, sh))"

subsection \<open>The calls of the reactor and of the timer\<close>

definition agent_read :: "('b, 'w) env \<Rightarrow> nat \<Rightarrow> ('b, 'w) ast \<Rightarrow> ('b, 'w) ast res" where
  "agent_read V me = (\<lambda>(a, sh).
     let B = ex_bb (en_ext V);
         (res, io, w) = tcp_read B (en_os V) (ag_socket a) (bb_reset B (ag_io_buffer a)) (sh_world sh);
         st = (a\<lparr>ag_io_buffer := io\<rparr>, sh\<lparr>sh_world := w\<rparr>);
         st = (if res = 0 then sm_on_event V me EV_DISCONNECTED st else st)
     in if bb_get_read_available B (ag_io_buffer (fst st)) > 0
        then on_read V me (ag_io_buffer (fst st)) st else Inr st)"

fun send :: "nat \<Rightarrow> 'b byte_buffer_api \<Rightarrow> 'w os_api \<Rightarrow> tcp_socket \<Rightarrow> 'b \<Rightarrow> 'w \<Rightarrow> (bool \<times> 'b \<times> 'w) res" where
  "send 0 B S fd buffer w =
     (if bb_get_read_available B buffer > 0 then Inl Out_of_fuel else Inr (True, buffer, w))"
| "send (Suc fuel) B S fd buffer w =
     (if bb_get_read_available B buffer > 0 then
        (let (res, buffer, w) = tcp_write B S fd buffer w
         in if res < 0 then Inr (False, buffer, w) else send fuel B S fd buffer w)
      else Inr (True, buffer, w))"

text \<open>The loop of \<open>write\<close>: whether the queue was emptied, what is left of it.\<close>

fun write_queue :: "('b, 'w) env \<Rightarrow> tcp_socket \<Rightarrow> 'b list \<Rightarrow> 'w \<Rightarrow> (bool \<times> 'b list \<times> 'w) res" where
  "write_queue V fd [] w = Inr (True, [], w)"
| "write_queue V fd (msg # msgs) w =
     res_bind (send (en_fuel V) (ex_bb (en_ext V)) (en_os V) fd msg w) (\<lambda>(success, _, w).
       if \<not> success then Inr (False, msgs, w) else write_queue V fd msgs w)"

definition agent_write :: "('b, 'w) env \<Rightarrow> nat \<Rightarrow> ('b, 'w) ast \<Rightarrow> ('b, 'w) ast res" where
  "agent_write V me = (\<lambda>(a, sh).
     if \<not> ag_connected a then
       (let (ok, error, w) = getsockopt (en_os V) (ag_socket a) (sh_world sh);
            sh = sh\<lparr>sh_world := w\<rparr>
        in if ok then
             (let st = (a\<lparr>ag_connected := (error = 0)\<rparr>, sh)
              in if error = 0 then Inr (sm_on_event V me EV_CONNECTED (unreg_self V EPOLLOUT st))
                 else Inr (agent_disconnected V me st))
           else Inr (a, sh))
     else
       res_bind (write_queue V (ag_socket a) (ag_send_queue a) (sh_world sh)) (\<lambda>(emptied, msgs, w).
         let st = (a\<lparr>ag_send_queue := msgs\<rparr>, sh\<lparr>sh_world := w\<rparr>)
         in if emptied then Inr (unreg_self V EPOLLOUT st) else Inr st))"

definition agent_on_timeout :: "('b, 'w) env \<Rightarrow> nat \<Rightarrow> ('b, 'w) ast \<Rightarrow> ('b, 'w) ast res" where
  "agent_on_timeout V me = (\<lambda>(a, sh).
     let sh = sh\<lparr>sh_timer := timer_unreg (sh_timer sh) me\<rparr>;
         a = a\<lparr>ag_send_queue := []\<rparr>
     in res_bind (tcp_reset (en_os V) (ag_socket a) (sh_world sh)) (\<lambda>(fd, w).
          let (_, w) = set_blocking (en_os V) fd False w;
              st = reg_self V me EPOLLIN (a\<lparr>ag_socket := fd\<rparr>, sh\<lparr>sh_world := w\<rparr>)
          in Inr (agent_start V me st)))"

definition execute :: "('b, 'w) env \<Rightarrow> nat \<Rightarrow> ('b, 'w) ast \<Rightarrow> ('b, 'w) ast" where
  "execute V me st = (if ag_connected (fst st) \<and> \<not> ag_choked (fst st) then request_pieces V me st else st)"

subsection \<open>Construction and destruction\<close>

definition io_buffer_size :: nat where
  [code del]: "io_buffer_size = 2 ^ 15"

definition torrent_agent_ctor ::
  "('b, 'w) env \<Rightarrow> nat \<Rightarrow> peer_info \<Rightarrow> ('b, 'w) shared \<Rightarrow> ('b, 'w) ast res" where
  "torrent_agent_ctor V me info sh =
     res_bind (tcp_socket_ctor (en_os V) (sh_world sh)) (\<lambda>(fd, w).
       let a = \<lparr>ag_peer = info, ag_socket = fd, ag_events = 0, ag_timer = \<lparr>timeout_ms = 0, elapsed = 0\<rparr>,
                ag_sm = session_sm, ag_io_buffer = bb_sized (ex_bb (en_ext V)) io_buffer_size, ag_msg_buffer = [],
                ag_send_queue = [], ag_connected = False, ag_choked = True, ag_attempts = 0\<rparr>;
           (_, w) = set_blocking (en_os V) fd False w
       in Inr (agent_start V me (reg_self V me EPOLLIN (a, sh\<lparr>sh_world := w\<rparr>))))"

definition torrent_agent_dtor :: "('b, 'w) env \<Rightarrow> ('b, 'w) ast \<Rightarrow> ('b, 'w) shared" where
  "torrent_agent_dtor V st =
     (let (a, sh) = unreg_self V 0 st;
          (_, w) = tcp_close (en_os V) (ag_socket a) (sh_world sh)
      in sh\<lparr>sh_world := w\<rparr>)"

end
