(* ===== verification/Agent_Stream.thy ===== *)
theory Agent_Stream
  imports Torrent_Agent
begin

section \<open>The stream of messages from a peer\<close>

text \<open>
  TCP delivers the bytes of a peer in chunks of any size. The loop of \<open>on_read\<close> cuts messages
  out of the bytes collected so far; what it does depends only on the bytes and not on how
  they were cut into chunks, nor on the memory behind the vector.
\<close>

subsection \<open>Operations leave the collected bytes alone\<close>

definition with_buf :: "byte list \<Rightarrow> ('b, 'w) ast \<Rightarrow> ('b, 'w) ast" where
  "with_buf x st = ((fst st)\<lparr>ag_msg_buffer := x\<rparr>, snd st)"

definition buf :: "('b, 'w) ast \<Rightarrow> byte list" where
  "buf st = ag_msg_buffer (fst st)"

lemma with_buf_simps [simp]:
  "buf (with_buf x st) = x" "with_buf x (with_buf y st) = with_buf x st" "with_buf (buf st) st = st"
  "ag_sm (fst (with_buf x st)) = ag_sm (fst st)" "snd (with_buf x st) = snd st"
  by (simp_all add: with_buf_def buf_def)

lemma with_buf_pair: "with_buf x (a, sh) = (a\<lparr>ag_msg_buffer := x\<rparr>, sh)"
  by (simp add: with_buf_def)

lemma reg_self_buf: "reg_self V me ev (with_buf x st) = with_buf x (reg_self V me ev st)"
  by (cases st) (simp add: reg_self_def with_buf_def split: prod.split)

lemma unreg_self_buf: "unreg_self V ev (with_buf x st) = with_buf x (unreg_self V ev st)"
  by (cases st) (simp add: unreg_self_def with_buf_def split: prod.split)

text \<open>A burst of requests is what \<open>take_requests\<close> takes from the piece handler, encoded and queued.\<close>

lemma request_loop_eq:
  "request_loop V n (a, sh) =
     (let (rs, ph) = take_requests (get_piece_request (en_ext V) (en_ti V) (peer_id (ag_peer a))) n (sh_pieces sh)
      in (length rs, (a\<lparr>ag_send_queue := ag_send_queue a @ map (new_request (ex_bb (en_ext V))) rs\<rparr>,
                      sh\<lparr>sh_pieces := ph\<rparr>)))"
proof (induction n arbitrary: a sh)
  case (Suc n)
  then show ?case by (auto simp: Let_def split: prod.splits)
qed simp

lemma request_pieces_eq:
  "request_pieces V me (a, sh) =
     (if ag_choked a then (a, sh)
      else let (rs, ph) = take_requests (get_piece_request (en_ext V) (en_ti V) (peer_id (ag_peer a))) MAX_BURST (sh_pieces sh);
               st = (a\<lparr>ag_send_queue := ag_send_queue a @ map (new_request (ex_bb (en_ext V))) rs\<rparr>, sh\<lparr>sh_pieces := ph\<rparr>)
           in if rs \<noteq> [] then reg_self V me EPOLLOUT st else st)"
  by (auto simp: request_pieces_def request_loop_eq Let_def split: prod.split)

lemma queue_buf_commute:
  "a\<lparr>ag_msg_buffer := x, ag_send_queue := q\<rparr> = a\<lparr>ag_send_queue := q, ag_msg_buffer := x\<rparr>"
  "a\<lparr>ag_msg_buffer := x, ag_choked := c\<rparr> = a\<lparr>ag_choked := c, ag_msg_buffer := x\<rparr>"
  "a\<lparr>ag_msg_buffer := x, ag_sm := s\<rparr> = a\<lparr>ag_sm := s, ag_msg_buffer := x\<rparr>"
  "a\<lparr>ag_msg_buffer := x, ag_peer := p\<rparr> = a\<lparr>ag_peer := p, ag_msg_buffer := x\<rparr>"
  "a\<lparr>ag_msg_buffer := x, ag_socket := fd, ag_connected := c, ag_timer := t\<rparr>
     = a\<lparr>ag_socket := fd, ag_connected := c, ag_timer := t, ag_msg_buffer := x\<rparr>"
  by (cases a; simp)+

lemma reg_self_upd: "reg_self V me ev (a\<lparr>ag_msg_buffer := x\<rparr>, sh) = with_buf x (reg_self V me ev (a, sh))"
  using reg_self_buf [of V me ev x "(a, sh)"] by (simp add: with_buf_pair)

lemma request_pieces_upd:
  "request_pieces V me (a\<lparr>ag_msg_buffer := x\<rparr>, sh) = with_buf x (request_pieces V me (a, sh))"
  by (simp add: request_pieces_eq queue_buf_commute reg_self_upd with_buf_pair Let_def split: prod.split)

lemma agent_disconnected_upd:
  "agent_disconnected V me (a\<lparr>ag_msg_buffer := x\<rparr>, sh) = with_buf x (agent_disconnected V me (a, sh))"
  using unreg_self_buf [of V 0 x "(a, sh)"]
  by (cases "unreg_self V 0 (a, sh)")
    (simp add: agent_disconnected_def with_buf_pair timer_reg_def Let_def queue_buf_commute split: prod.split)

lemma sm_on_event_upd:
  assumes "ev \<noteq> EV_START"
  shows "sm_on_event V me ev (a\<lparr>ag_msg_buffer := x\<rparr>, sh) = with_buf x (sm_on_event V me ev (a, sh))"
  using assms
  by (cases ev)
    (simp_all add: sm_on_event.simps queue_buf_commute agent_disconnected_upd agent_handshake_def
      agent_interested_def agent_choked_def agent_unchoked_def reg_self_upd request_pieces_upd Let_def
      with_buf_pair)

lemma handle_msg_upd:
  "handle_msg V me msg (a\<lparr>ag_msg_buffer := x\<rparr>, sh) = with_buf x (handle_msg V me msg (a, sh))"
  by (cases "msg_id msg")
    (simp_all add: handle_msg_def sm_on_event_upd request_pieces_upd with_buf_pair Let_def split: prod.split)


text \<open>A slice delivered to the agent, apart from cutting it off.\<close>

definition deliver :: "('b, 'w) env \<Rightarrow> nat \<Rightarrow> byte list \<Rightarrow> ('b, 'w) ast \<Rightarrow> ('b, 'w) ast" where
  "deliver V me bs = (\<lambda>(a, sh).
     let B = ex_bb (en_ext V); slice = bb_write B bs (bb_new B)
     in if \<not> handshake_received (ag_sm a) then
          (let (ok, info) = set_peer_id_and_validate_handshake B slice (ag_peer a);
               st = (a\<lparr>ag_peer := info\<rparr>, sh)
           in if ok then sm_on_event V me EV_HANDSHAKE st else st)
        else handle_msg V me (message_ctor B slice) (a, sh))"

lemma handle_slice_eq:
  "handle_slice V me n st = with_buf (drop n (buf st)) (deliver V me (take n (buf st)) st)"
  by (cases st)
    (simp add: handle_slice_def deliver_def chop_def buf_def Let_def queue_buf_commute sm_on_event_upd
      handle_msg_upd with_buf_pair split: prod.split)

lemma deliver_buf: "deliver V me bs (with_buf x st) = with_buf x (deliver V me bs st)"
  by (cases st)
    (simp add: with_buf_pair deliver_def Let_def queue_buf_commute sm_on_event_upd handle_msg_upd split: prod.split)

lemma buf_handle_slice: "buf (handle_slice V me n st) = drop n (buf st)"
  by (simp add: handle_slice_eq)

subsection \<open>The loop\<close>

text \<open>The loop with the state kept as a whole: it stops when \<open>ready\<close> fails.\<close>

definition msg_len_of :: "('b, 'w) env \<Rightarrow> ('b, 'w) ast \<Rightarrow> nat" where
  "msg_len_of V st = get_msg_len (ex_oob (en_ext V)) (buf st) (handshake_received (ag_sm (fst st)))"

definition ready :: "('b, 'w) env \<Rightarrow> ('b, 'w) ast \<Rightarrow> bool" where
  "ready V st \<longleftrightarrow> 4 \<le> length (buf st) \<and> msg_len_of V st \<le> length (buf st)"

lemma on_read_loop_eq:
  "on_read_loop fuel V me st =
     (if ready V st then
        (case fuel of 0 \<Rightarrow> Inl Out_of_fuel
         | Suc fuel \<Rightarrow> on_read_loop fuel V me (handle_slice V me (msg_len_of V st) st))
      else Inr st)"
  by (cases st; cases fuel) (simp_all add: ready_def msg_len_of_def buf_def Let_def)

declare on_read_loop.simps [simp del]

lemma ready_append:
  assumes "ready V st"
  shows "ready V (with_buf (buf st @ ys) st)" "msg_len_of V (with_buf (buf st @ ys) st) = msg_len_of V st"
proof -
  have "4 \<le> length (buf st)" using assms by (simp add: ready_def)
  then show "msg_len_of V (with_buf (buf st @ ys) st) = msg_len_of V st"
    by (simp add: msg_len_of_def get_msg_len_def read_mem_in_range)
  then show "ready V (with_buf (buf st @ ys) st)" using assms by (simp add: ready_def)
qed

lemma handle_slice_append:
  assumes "n \<le> length (buf st)"
  shows "handle_slice V me n (with_buf (buf st @ ys) st)
    = with_buf (buf (handle_slice V me n st) @ ys) (handle_slice V me n st)"
  using assms by (simp add: handle_slice_eq deliver_buf)

lemma on_read_loop_more:
  "on_read_loop f V me st = Inr st' \<Longrightarrow> on_read_loop (k + f) V me st = Inr st'"
proof (induction f arbitrary: st)
  case 0
  then have "\<not> ready V st \<and> st' = st"
    by (subst (asm) on_read_loop_eq) (simp split: if_splits)
  then show ?case by (subst on_read_loop_eq) simp
next
  case (Suc f)
  show ?case
  proof (cases "ready V st")
    case True
    with Suc.prems have "on_read_loop f V me (handle_slice V me (msg_len_of V st) st) = Inr st'"
      by (subst (asm) on_read_loop_eq) simp
    from Suc.IH [OF this] True show ?thesis by (subst on_read_loop_eq) simp
  next
    case False
    with Suc.prems show ?thesis by (subst on_read_loop_eq, subst (asm) on_read_loop_eq) simp
  qed
qed

lemma on_read_loop_append:
  assumes "on_read_loop f1 V me st = Inr st1"
    and "on_read_loop f2 V me (with_buf (buf st1 @ ys) st1) = Inr st2"
  shows "on_read_loop (f1 + f2) V me (with_buf (buf st @ ys) st) = Inr st2"
  using assms(1)
proof (induction f1 arbitrary: st)
  case 0
  then have "st1 = st" by (subst (asm) on_read_loop_eq) (simp split: if_splits)
  then show ?case using assms(2) by simp
next
  case (Suc f1)
  show ?case
  proof (cases "ready V st")
    case True
    have len: "msg_len_of V st \<le> length (buf st)" using True by (simp add: ready_def)
    have "on_read_loop f1 V me (handle_slice V me (msg_len_of V st) st) = Inr st1"
      using Suc.prems True by (subst (asm) on_read_loop_eq) simp
    from Suc.IH [OF this]
    show ?thesis
      by (subst on_read_loop_eq) (simp add: ready_append [OF True] handle_slice_append [OF len])
  next
    case False
    then have "st1 = st" using Suc.prems by (subst (asm) on_read_loop_eq) simp
    moreover have "on_read_loop (Suc f1 + f2) V me (with_buf (buf st @ ys) st) = Inr st2"
      if "on_read_loop f2 V me (with_buf (buf st @ ys) st) = Inr st2"
      using that by (rule on_read_loop_more)
    ultimately show ?thesis using assms(2) by simp
  qed
qed


subsection \<open>Whether the loop ends\<close>

text \<open>
  A length prefix of \<open>0xFFFFFFFC\<close> wraps to a message length of zero: the slice is empty, the
  vector stays as it is, and the loop never ends. Without that prefix in the stream every
  round takes at least one byte, and the number of collected bytes is enough fuel.
\<close>

definition hang_prefix :: "byte list" where
  "hang_prefix = [0xFF, 0xFF, 0xFF, 0xFC]"

lemma hang_prefix_be: "hang_prefix = be 4 (0xFFFFFFFC :: u32)"
  by code_simp

lemma get_msg_len_handshake: "xs \<noteq> [] \<Longrightarrow> get_msg_len oob xs False = unat (hd xs) + 49"
  by (cases xs) (simp_all add: get_msg_len_def read_mem_in_range)

lemma get_msg_len_message:
  "4 \<le> length xs \<Longrightarrow> get_msg_len oob xs True = unat (of_be (take 4 xs) + 4 :: u32)"
  by (simp add: get_msg_len_def read_mem_in_range native_load32)

lemma msg_len_zero:
  assumes "4 \<le> length (buf st)" "msg_len_of V st = 0"
  shows "take 4 (buf st) = hang_prefix" "handshake_received (ag_sm (fst st))"
proof -
  show hs: "handshake_received (ag_sm (fst st))"
    by (rule ccontr) (use assms(2) in \<open>simp add: msg_len_of_def get_msg_len_def\<close>)
  then have "unat (of_be (take 4 (buf st)) + 4 :: u32) = 0"
    using assms by (simp only: msg_len_of_def get_msg_len_message)
  then have "of_be (take 4 (buf st)) + 4 = (0 :: u32)" by (rule unsigned_eq_0_iff [THEN iffD1])
  then have "of_be (take 4 (buf st)) = (0xFFFFFFFC :: u32)"
    by (simp add: add_eq_0_iff2)
  moreover have "take 4 (buf st) = be 4 (of_be (take 4 (buf st)) :: u32)"
    using assms(1) by (simp add: be_of_be)
  ultimately show "take 4 (buf st) = hang_prefix" by (simp add: hang_prefix_be del: be.simps)
qed

lemma on_read_loop_ends:
  assumes "\<And>i. take 4 (drop i (buf st)) \<noteq> hang_prefix" "length (buf st) \<le> fuel"
  shows "\<exists>st'. on_read_loop fuel V me st = Inr st'"
  using assms
proof (induction fuel arbitrary: st)
  case 0
  then show ?case by (subst on_read_loop_eq) (simp add: ready_def)
next
  case (Suc fuel)
  show ?case
  proof (cases "ready V st")
    case True
    let ?n = "msg_len_of V st" and ?st = "handle_slice V me (msg_len_of V st) st"
    have "?n \<noteq> 0" using msg_len_zero(1) [of st V] Suc.prems(1) [of 0] True by (auto simp: ready_def)
    then have "length (buf ?st) \<le> fuel" using Suc.prems(2) by (simp add: buf_handle_slice)
    moreover have "take 4 (drop i (buf ?st)) \<noteq> hang_prefix" for i
      using Suc.prems(1) [of "i + ?n"] by (simp add: buf_handle_slice add.commute)
    ultimately have "\<exists>st'. on_read_loop fuel V me ?st = Inr st'" by (rule Suc.IH [rotated])
    then show ?thesis using True by (subst on_read_loop_eq) simp
  next
    case False
    then show ?thesis by (subst on_read_loop_eq) simp
  qed
qed


lemma reg_self_frame [frame_simps]:
  "ag_peer (fst (reg_self V me ev st)) = ag_peer (fst st)"
  "ag_socket (fst (reg_self V me ev st)) = ag_socket (fst st)"
  "ag_timer (fst (reg_self V me ev st)) = ag_timer (fst st)"
  "ag_sm (fst (reg_self V me ev st)) = ag_sm (fst st)"
  "ag_io_buffer (fst (reg_self V me ev st)) = ag_io_buffer (fst st)"
  "ag_msg_buffer (fst (reg_self V me ev st)) = ag_msg_buffer (fst st)"
  "ag_send_queue (fst (reg_self V me ev st)) = ag_send_queue (fst st)"
  "ag_connected (fst (reg_self V me ev st)) = ag_connected (fst st)"
  "ag_choked (fst (reg_self V me ev st)) = ag_choked (fst st)"
  "ag_attempts (fst (reg_self V me ev st)) = ag_attempts (fst st)"
  "sh_timer (snd (reg_self V me ev st)) = sh_timer (snd st)"
  "sh_pieces (snd (reg_self V me ev st)) = sh_pieces (snd st)"
  "sh_running (snd (reg_self V me ev st)) = sh_running (snd st)"
  "sh_notified (snd (reg_self V me ev st)) = sh_notified (snd st)"
  "sh_blocks (snd (reg_self V me ev st)) = sh_blocks (snd st)"
  by (cases st; simp add: reg_self_def split: prod.split)+

lemma unreg_self_frame [frame_simps]:
  "ag_peer (fst (unreg_self V ev st)) = ag_peer (fst st)"
  "ag_socket (fst (unreg_self V ev st)) = ag_socket (fst st)"
  "ag_timer (fst (unreg_self V ev st)) = ag_timer (fst st)"
  "ag_sm (fst (unreg_self V ev st)) = ag_sm (fst st)"
  "ag_io_buffer (fst (unreg_self V ev st)) = ag_io_buffer (fst st)"
  "ag_msg_buffer (fst (unreg_self V ev st)) = ag_msg_buffer (fst st)"
  "ag_send_queue (fst (unreg_self V ev st)) = ag_send_queue (fst st)"
  "ag_connected (fst (unreg_self V ev st)) = ag_connected (fst st)"
  "ag_choked (fst (unreg_self V ev st)) = ag_choked (fst st)"
  "ag_attempts (fst (unreg_self V ev st)) = ag_attempts (fst st)"
  "sh_timer (snd (unreg_self V ev st)) = sh_timer (snd st)"
  "sh_pieces (snd (unreg_self V ev st)) = sh_pieces (snd st)"
  "sh_running (snd (unreg_self V ev st)) = sh_running (snd st)"
  "sh_notified (snd (unreg_self V ev st)) = sh_notified (snd st)"
  "sh_blocks (snd (unreg_self V ev st)) = sh_blocks (snd st)"
  by (cases st; simp add: unreg_self_def split: prod.split)+

lemma request_pieces_frame [frame_simps]:
  "ag_peer (fst (request_pieces V me st)) = ag_peer (fst st)"
  "ag_socket (fst (request_pieces V me st)) = ag_socket (fst st)"
  "ag_timer (fst (request_pieces V me st)) = ag_timer (fst st)"
  "ag_sm (fst (request_pieces V me st)) = ag_sm (fst st)"
  "ag_io_buffer (fst (request_pieces V me st)) = ag_io_buffer (fst st)"
  "ag_msg_buffer (fst (request_pieces V me st)) = ag_msg_buffer (fst st)"
  "ag_connected (fst (request_pieces V me st)) = ag_connected (fst st)"
  "ag_choked (fst (request_pieces V me st)) = ag_choked (fst st)"
  "ag_attempts (fst (request_pieces V me st)) = ag_attempts (fst st)"
  "sh_timer (snd (request_pieces V me st)) = sh_timer (snd st)"
  "sh_running (snd (request_pieces V me st)) = sh_running (snd st)"
  "sh_notified (snd (request_pieces V me st)) = sh_notified (snd st)"
  "sh_blocks (snd (request_pieces V me st)) = sh_blocks (snd st)"
  by (cases st; simp add: request_pieces_eq Let_def frame_simps split: prod.split)+

lemma sm_on_event_state:
  "ag_sm (fst (sm_on_event V me EV_CHOKE st)) = ST_CHOKED"
  "ag_sm (fst (sm_on_event V me EV_UNCHOKE st)) = ST_UNCHOKED"
  "ag_sm (fst (sm_on_event V me EV_HANDSHAKE st)) = ST_HANDSHAKE_RECEIVED"
  "ag_sm (fst (sm_on_event V me EV_CONNECTED st)) = ST_CONNECTED"
  "ag_sm (fst (sm_on_event V me EV_DISCONNECTED st)) = ST_DISCONNECTED"
proof -
  obtain a sh where st: "st = (a, sh)" by (cases st)
  show "ag_sm (fst (sm_on_event V me EV_CHOKE st)) = ST_CHOKED"
    by (simp add: st sm_on_event.simps agent_choked_def)
  show "ag_sm (fst (sm_on_event V me EV_UNCHOKE st)) = ST_UNCHOKED"
    by (simp add: st sm_on_event.simps agent_unchoked_def frame_simps)
  show "ag_sm (fst (sm_on_event V me EV_HANDSHAKE st)) = ST_HANDSHAKE_RECEIVED"
    "ag_sm (fst (sm_on_event V me EV_CONNECTED st)) = ST_CONNECTED"
    by (simp_all add: st sm_on_event.simps agent_interested_def agent_handshake_def Let_def frame_simps)
  have "ag_sm (fst (agent_disconnected V me st')) = ag_sm (fst st')" for st' :: "('a, 'b) ast"
    using unreg_self_frame(4) [of V 0 st']
    by (cases "unreg_self V 0 st'") (simp add: agent_disconnected_def Let_def split: prod.split)
  then show "ag_sm (fst (sm_on_event V me EV_DISCONNECTED st)) = ST_DISCONNECTED"
    by (simp add: st sm_on_event.simps)
qed

lemma handle_msg_keeps_handshake:
  assumes "handshake_received (ag_sm (fst st))"
  shows "handshake_received (ag_sm (fst (handle_msg V me msg st)))"
proof -
  obtain a sh where st: "st = (a, sh)" by (cases st)
  show ?thesis
    using assms unfolding st
    by (cases "msg_id msg")
      (simp_all add: handle_msg_def sm_on_event_state frame_simps Let_def split: prod.split)
qed

lemma deliver_keeps_handshake:
  assumes "handshake_received (ag_sm (fst st))"
  shows "handshake_received (ag_sm (fst (deliver V me bs st)))"
  using handle_msg_keeps_handshake [OF assms] assms
  by (cases st) (simp add: deliver_def Let_def)

lemma on_read_loop_hangs:
  assumes "handshake_received (ag_sm (fst st))" "take 4 (buf st) = hang_prefix"
  shows "on_read_loop fuel V me st = Inl Out_of_fuel"
  using assms
proof (induction fuel arbitrary: st)
  case (0 st)
  have len: "4 \<le> length (buf st)" using 0(2) by (metis hang_prefix_be length_be length_take min.absorb_iff2 min.commute)
  then have "msg_len_of V st = 0"
    using 0 by (simp add: msg_len_of_def get_msg_len_message hang_prefix_be del: be.simps)
  with len show ?case by (subst on_read_loop_eq) (simp add: ready_def)
next
  case (Suc fuel)
  have len: "4 \<le> length (buf st)" using Suc.prems(2) by (metis hang_prefix_be length_be length_take min.absorb_iff2 min.commute)
  then have n: "msg_len_of V st = 0"
    using Suc.prems by (simp add: msg_len_of_def get_msg_len_message hang_prefix_be del: be.simps)
  let ?st = "handle_slice V me 0 st"
  have "handshake_received (ag_sm (fst ?st))"
    using deliver_keeps_handshake [OF Suc.prems(1)] by (simp add: handle_slice_eq)
  moreover have "buf ?st = buf st" by (simp add: buf_handle_slice)
  ultimately have "on_read_loop fuel V me ?st = Inl Out_of_fuel"
    using Suc.prems(2) by (intro Suc.IH) simp_all
  with len n show ?case by (subst on_read_loop_eq) (simp add: ready_def)
qed


subsection \<open>Fuel does not matter to what is done\<close>

lemma reg_self_fuel: "reg_self (V\<lparr>en_fuel := n\<rparr>) = reg_self V"
  by (simp add: reg_self_def fun_eq_iff)

lemma request_pieces_fuel: "request_pieces (V\<lparr>en_fuel := n\<rparr>) me (a, sh) = request_pieces V me (a, sh)"
  by (simp add: request_pieces_eq reg_self_fuel Let_def split: prod.split)

lemma sm_on_event_fuel:
  assumes "ev = EV_CHOKE \<or> ev = EV_UNCHOKE \<or> ev = EV_HANDSHAKE"
  shows "sm_on_event (V\<lparr>en_fuel := n\<rparr>) me ev (a, sh) = sm_on_event V me ev (a, sh)"
  using assms
  by (auto simp: sm_on_event.simps agent_unchoked_def agent_interested_def request_pieces_fuel reg_self_fuel Let_def)

lemma handle_slice_fuel: "handle_slice (V\<lparr>en_fuel := n\<rparr>) me k (a, sh) = handle_slice V me k (a, sh)"
proof -
  have "handle_msg (V\<lparr>en_fuel := n\<rparr>) me msg (a, sh) = handle_msg V me msg (a, sh)" for msg a sh
    by (cases "msg_id msg") (simp_all add: handle_msg_def sm_on_event_fuel request_pieces_fuel Let_def)
  then show ?thesis by (simp add: handle_slice_def sm_on_event_fuel Let_def split: prod.split)
qed

lemma on_read_loop_fuel: "on_read_loop f (V\<lparr>en_fuel := n\<rparr>) me st = on_read_loop f V me st"
proof (induction f arbitrary: st)
  case 0
  show ?case by (subst (1 2) on_read_loop_eq) (simp add: ready_def msg_len_of_def)
next
  case (Suc f)
  have "handle_slice (V\<lparr>en_fuel := n\<rparr>) me k st = handle_slice V me k st" for k
    using handle_slice_fuel by (cases st) simp
  then show ?case using Suc by (subst (1 2) on_read_loop_eq) (simp add: ready_def msg_len_of_def)
qed

lemma on_read_eq:
  "on_read V me b st = on_read_loop (en_fuel V) V me (with_buf (buf st @ rd (ex_bb (en_ext V)) b) st)"
  by (cases st) (simp add: on_read_def with_buf_def buf_def)

subsection \<open>A small agent\<close>

text \<open>An agent of the small torrent on the scripted operating system, for the witnesses.\<close>

definition small_V :: "(lbuf, script) env" where
  "small_V = \<lparr>en_ext = small_E, en_os = script_os, en_ti = small_ti,
     en_peer_id = ''-tent0001-0123456789'', en_fuel = 100\<rparr>"

definition small_agent :: "sm_state \<Rightarrow> lbuf agent" where
  "small_agent state = \<lparr>
     ag_peer = \<lparr>peer_id = [], peer_endpoint = \<lparr>sin_family = AF_INET, sin_port = 0, sin_addr = 0\<rparr>\<rparr>,
     ag_socket = 5, ag_events = EPOLLIN, ag_timer = \<lparr>timeout_ms = 0, elapsed = 0\<rparr>, ag_sm = state,
     ag_io_buffer = ([], [], 64), ag_msg_buffer = [], ag_send_queue = [], ag_connected = True,
     ag_choked = True, ag_attempts = 1\<rparr>"

definition small_shared :: "(lbuf, script) shared" where
  "small_shared = \<lparr>sh_reactor = \<lparr>rc_efd = 4, rc_wait_ms = 5000, rc_clients = [5 \<mapsto> 0]\<rparr>,
     sh_timer = \<lparr>tm_start = 0, tm_clients = []\<rparr>, sh_pieces = fst (piece_handler_ctor small_E small_ti),
     sh_running = True, sh_notified = False, sh_world = script_start, sh_blocks = []\<rparr>"

definition small_st :: "sm_state \<Rightarrow> (lbuf, script) ast" where
  "small_st state = (small_agent state, small_shared)"

lemma small_V_simps [simp]:
  "en_ext small_V = small_E" "en_os small_V = script_os" "en_ti small_V = small_ti" "en_fuel small_V = 100"
  by (simp_all add: small_V_def)

lemma small_st_simps [simp]:
  "buf (small_st state) = []" "ag_sm (fst (small_st state)) = state"
  "peer_id (ag_peer (fst (small_st state))) = []" "sh_pieces (snd (small_st state)) = fst (piece_handler_ctor small_E small_ti)"
  by (simp_all add: small_st_def buf_def small_agent_def small_shared_def)

lemma not_isl_Inr: "\<not> isl r \<Longrightarrow> r = Inr (projr r)"
  by (cases r) simp_all

lemma choke_bytes: "take 4 (drop i [0, 0, 0, 1, 0]) \<noteq> hang_prefix"
proof (cases "i < 5")
  case True
  have "\<forall>i\<in>set [0..<5]. take 4 (drop i [0, 0, 0, 1, 0]) \<noteq> hang_prefix" by code_simp
  then show ?thesis using True by simp
next
  case False
  then have "drop i [0, 0, 0, 1, 0 :: byte] = []" by simp
  then show ?thesis by (simp only:) (simp add: hang_prefix_def)
qed

subsection \<open>Properties\<close>

text \<open>C5: how the bytes of a peer are cut into chunks does not matter: handling two chunks one
  after the other leaves the agent, the piece handler, the reactor and the session in the state
  that handling their concatenation leaves them in.\<close>

theorem on_read_chunks:
  assumes "on_read V me b1 st = Inr st1" "on_read V me b2 st1 = Inr st2"
    and "rd (ex_bb (en_ext V)) b = rd (ex_bb (en_ext V)) b1 @ rd (ex_bb (en_ext V)) b2"
  shows "on_read (V\<lparr>en_fuel := en_fuel V + en_fuel V\<rparr>) me b st = Inr st2"
proof -
  let ?rd = "rd (ex_bb (en_ext V))"
  have "on_read_loop (en_fuel V) V me (with_buf (buf st @ ?rd b1) st) = Inr st1"
    "on_read_loop (en_fuel V) V me (with_buf (buf st1 @ ?rd b2) st1) = Inr st2"
    using assms(1,2) by (simp_all add: on_read_eq)
  from on_read_loop_append [OF this]
  show ?thesis by (simp add: on_read_eq assms(3) on_read_loop_fuel)
qed

theorem on_read_chunks_witness:
  "\<exists>st1 st2. on_read small_V 0 ([0, 0, 0], [], 0) (small_st ST_UNCHOKED) = Inr st1
     \<and> on_read small_V 0 ([1, 0], [], 0) st1 = Inr st2
     \<and> on_read (small_V\<lparr>en_fuel := 200\<rparr>) 0 ([0, 0, 0, 1, 0], [], 0) (small_st ST_UNCHOKED) = Inr st2"
proof -
  let ?st1 = "with_buf [0, 0, 0] (small_st ST_UNCHOKED)"
  have 1: "on_read small_V 0 ([0, 0, 0], [], 0) (small_st ST_UNCHOKED) = Inr ?st1"
    by (simp add: on_read_eq) (subst on_read_loop_eq, simp add: ready_def)
  have "\<exists>st2. on_read_loop 100 small_V 0 (with_buf [0, 0, 0, 1, 0] ?st1) = Inr st2"
    by (rule on_read_loop_ends) (simp_all add: choke_bytes)
  then obtain st2 where 2: "on_read small_V 0 ([1, 0], [], 0) ?st1 = Inr st2"
    by (auto simp: on_read_eq)
  show ?thesis
    using on_read_chunks [OF 1 2, of "([0, 0, 0, 1, 0], [], 0)"] 1 2 by auto
qed

text \<open>C19: the loop of \<open>on_read\<close> ends, with as much fuel as there are collected bytes, unless the
  four bytes \<open>FF FF FF FC\<close> occur among them.\<close>

theorem on_read_ends:
  assumes "\<And>i. take 4 (drop i (buf st @ rd (ex_bb (en_ext V)) b)) \<noteq> hang_prefix"
    and "length (buf st @ rd (ex_bb (en_ext V)) b) \<le> en_fuel V"
  shows "\<exists>st'. on_read V me b st = Inr st'"
  unfolding on_read_eq by (rule on_read_loop_ends) (use assms in simp_all)

theorem on_read_ends_witness:
  "\<exists>st'. on_read small_V 0 ([0, 0, 0, 1, 0], [], 0) (small_st ST_UNCHOKED) = Inr st'"
  by (rule on_read_ends) (simp_all add: choke_bytes)

text \<open>C37: once the handshake is done, a peer that sends the length prefix \<open>0xFFFFFFFC\<close> stops the
  whole client: the loop of \<open>on_read\<close> does not end, whatever the fuel.\<close>

theorem on_read_hangs:
  assumes "handshake_received (ag_sm (fst st))" "buf st = []"
    and "take 4 (rd (ex_bb (en_ext V)) b) = hang_prefix"
  shows "on_read (V\<lparr>en_fuel := fuel\<rparr>) me b st = Inl Out_of_fuel"
  unfolding on_read_eq by (rule on_read_loop_hangs) (use assms in simp_all)

theorem on_read_hangs_witness:
  "on_read (small_V\<lparr>en_fuel := 1000\<rparr>) 0 ([0xFF, 0xFF, 0xFF, 0xFC], [], 0) (small_st ST_CHOKED) = Inl Out_of_fuel"
  by (rule on_read_hangs) (simp_all add: hang_prefix_def)

text \<open>C23: after the handshake, a message that the factory would have written is cut out of the
  stream whole and handled with its id and its payload, and the bytes behind it are left for the
  next round.\<close>

theorem on_read_frame:
  assumes "bb_laws (ex_bb (en_ext V))" "handshake_received (ag_sm (fst st))"
    and "buf st = frame mid pl @ rest" "length pl + 5 < 2 ^ 32"
    and "mid \<noteq> KEEP_ALIVE" "\<forall>b. mid \<noteq> UNKNOWN b"
  shows "\<exists>m. msg_id m = mid \<and> rd (ex_bb (en_ext V)) (msg_payload m) = pl
     \<and> on_read_loop (Suc f) V me st = on_read_loop f V me (with_buf rest (handle_msg V me m st))"
proof -
  let ?B = "ex_bb (en_ext V)" and ?n = "word_of_nat (Suc (length pl)) :: u32"
  have n: "unat (?n + 4) = length pl + 5"
  proof -
    have "?n + 4 = word_of_nat (length pl + 5)" by simp
    then show ?thesis using assms(4) by (simp add: unat_of_nat del: of_nat_add)
  qed
  have "take 4 (buf st) = be 4 ?n" using assms(3) by (simp add: frame_def)
  then have len: "msg_len_of V st = length pl + 5"
    using assms(2,3) n by (simp add: msg_len_of_def get_msg_len_message)
  then have rdy: "ready V st" using assms(3) by (simp add: ready_def)
  let ?slice = "bb_write ?B (frame mid pl) (bb_new ?B)"
  have rs: "rd ?B ?slice = frame mid pl" by (simp add: bb_rd [OF assms(1)])
  let ?m = "message_ctor ?B ?slice"
  have m: "msg_id ?m = mid" "rd ?B (msg_payload ?m) = pl"
    using message_ctor_frame [OF assms(1) rs _ assms(5,6)] assms(4) by simp_all
  have "deliver V me (frame mid pl) st = handle_msg V me ?m st"
    using assms(2) by (cases st) (simp add: deliver_def Let_def)
  then have "handle_slice V me (msg_len_of V st) st = with_buf rest (handle_msg V me ?m st)"
    using assms(3) by (simp add: handle_slice_eq len)
  then show ?thesis
    using m rdy by (intro exI [of _ ?m]) (simp, subst on_read_loop_eq, simp)
qed


theorem on_read_frame_witness:
  "\<exists>m. msg_id m = BITFIELD \<and> rd list_buffer (msg_payload m) = [0x80]
     \<and> on_read_loop 1 small_V 0 (with_buf (frame BITFIELD [0x80] @ [0]) (small_st ST_CHOKED))
       = on_read_loop 0 small_V 0 (with_buf [0] (handle_msg small_V 0 m
           (with_buf (frame BITFIELD [0x80] @ [0]) (small_st ST_CHOKED))))"
  using on_read_frame [of small_V "with_buf (frame BITFIELD [0x80] @ [0]) (small_st ST_CHOKED)" BITFIELD
      "[0x80]" "[0]" 0 0] list_buffer_laws
  by simp

end
