(* ===== verification/Agent_Calls.thy ===== *)
theory Agent_Calls
  imports Agent_Stream
begin

section \<open>Sending, requesting and reconnecting\<close>

text \<open>
  What the calls of the reactor, the timer and the state machine do to an agent: the bytes a
  call of \<open>write\<close> puts on the wire, a burst of requests, the handshake, the back-off after a
  disconnect and what a reconnect keeps of the old connection.
\<close>

subsection \<open>Bytes on the wire\<close>

text \<open>
  \<open>wire w\<close> is the bytes the kernel has taken for a descriptor; \<open>write_log\<close> is what \<open>write(2)\<close> says
  of it: the first \<open>r\<close> bytes are taken when it returns \<open>r\<close>, none on an error, and no other call the
  agent makes adds to them.
\<close>

definition write_log :: "'w os_api \<Rightarrow> int \<Rightarrow> ('w \<Rightarrow> byte list) \<Rightarrow> bool" where
  "write_log S fd wire \<longleftrightarrow>
     (\<forall>bs w r w'. sys_write S fd bs w = (r, w') \<longrightarrow> wire w' = wire w @ take (nat r) bs) \<and>
     (\<forall>efd op d ev w r w'. sys_epoll_ctl S efd op d ev w = (r, w') \<longrightarrow> wire w' = wire w)"

lemma tcp_write_log:
  assumes "bb_laws B" "os_laws S" "write_log S fd wire" "tcp_write B S fd b w = (res, b', w')"
  shows "wire w' = wire w @ take (nat res) (rd B b)" "rd B b' = drop (nat res) (rd B b)"
proof -
  have "sys_write S fd (rd B b) w = (res, w')"
    using assms(4) by (auto simp: tcp_write_def split: prod.splits)
  then show "wire w' = wire w @ take (nat res) (rd B b)"
    using assms(3) unfolding write_log_def by blast
  show "rd B b' = drop (nat res) (rd B b)" using tcp_write_rd(1) [OF assms(1,2,4)] by simp
qed

lemma send_log:
  assumes "bb_laws B" "os_laws S" "write_log S fd wire" "send fuel B S fd b w = Inr (ok, b', w')"
  shows "\<exists>k. wire w' = wire w @ take k (rd B b) \<and> rd B b' = drop k (rd B b) \<and> k \<le> length (rd B b)
     \<and> (ok \<longleftrightarrow> k = length (rd B b))"
  using assms(4)
proof (induction fuel arbitrary: b w)
  case 0
  then show ?case by (auto split: if_splits intro: exI [of _ 0])
next
  case (Suc fuel)
  show ?case
  proof (cases "rd B b = []")
    case True
    then show ?thesis using Suc.prems by auto
  next
    case False
    obtain res b1 w1 where tw: "tcp_write B S fd b w = (res, b1, w1)" by (metis prod_cases3)
    note tl = tcp_write_log [OF assms(1-3) tw] and le = tcp_write_rd(2) [OF assms(1,2) tw]
    show ?thesis
    proof (cases "res < 0")
      case True
      then have "ok = False" "b' = b1" "w' = w1"
        using Suc.prems False tw by simp_all
      then show ?thesis using tl True False by (intro exI [of _ 0]) simp
    next
      case nonneg: False
      then have "send fuel B S fd b1 w1 = Inr (ok, b', w')"
        using Suc.prems False tw by simp
      from Suc.IH [OF this] obtain k where k: "wire w' = wire w1 @ take k (rd B b1)"
        "rd B b' = drop k (rd B b1)" "k \<le> length (rd B b1)" "ok \<longleftrightarrow> k = length (rd B b1)"
        by blast
      have "take (nat res) (rd B b) @ take k (drop (nat res) (rd B b)) = take (nat res + k) (rd B b)"
        by (simp add: take_add)
      then show ?thesis
        using k tl le nonneg by (intro exI [of _ "nat res + k"]) (auto simp: add.commute)
    qed
  qed
qed

lemma send_ends:
  assumes "bb_laws B" "os_laws S" "\<And>bs w. bs \<noteq> [] \<Longrightarrow> fst (sys_write S fd bs w) \<noteq> 0"
    and "length (rd B b) \<le> fuel"
  shows "\<not> isl (send fuel B S fd b w)"
  using assms(4)
proof (induction fuel arbitrary: b w)
  case 0
  then show ?case by simp
next
  case (Suc fuel)
  obtain res b1 w1 where tw: "tcp_write B S fd b w = (res, b1, w1)" by (metis prod_cases3)
  show ?case
  proof (cases "rd B b = [] \<or> res < 0")
    case True
    then show ?thesis using tw by auto
  next
    case False
    have "fst (sys_write S fd (rd B b) w) = res"
      using tw by (auto simp: tcp_write_def split: prod.splits)
    then have "res > 0" using assms(3) [of "rd B b" w] False by linarith
    then have "length (rd B b1) \<le> fuel"
      using tcp_write_rd [OF assms(1,2) tw] Suc.prems by auto
    then have "\<not> isl (send fuel B S fd b1 w1)" by (rule Suc.IH)
    then show ?thesis using tw False by simp
  qed
qed

lemma write_queue_log:
  assumes "bb_laws (ex_bb (en_ext V))" "os_laws (en_os V)" "write_log (en_os V) fd wire"
    and "write_queue V fd msgs w = Inr (emptied, msgs', w')"
  shows "if emptied then msgs' = [] \<and> wire w' = wire w @ concat (map (rd (ex_bb (en_ext V))) msgs)
     else \<exists>pre m k. msgs = pre @ m # msgs' \<and> k < length (rd (ex_bb (en_ext V)) m)
       \<and> wire w' = wire w @ concat (map (rd (ex_bb (en_ext V))) pre) @ take k (rd (ex_bb (en_ext V)) m)"
  using assms(4)
proof (induction msgs arbitrary: w)
  case Nil
  then show ?case by simp
next
  case (Cons m msgs)
  let ?rd = "rd (ex_bb (en_ext V))"
  obtain ok b' w1 where s: "send (en_fuel V) (ex_bb (en_ext V)) (en_os V) fd m w = Inr (ok, b', w1)"
    using Cons.prems by (auto simp: res_bind_eq_Inr)
  obtain k where k: "wire w1 = wire w @ take k (?rd m)" "k \<le> length (?rd m)" "ok \<longleftrightarrow> k = length (?rd m)"
    using send_log [OF assms(1-3) s] by blast
  show ?case
  proof (cases ok)
    case False
    then have "\<not> emptied" "msgs' = msgs" "w' = w1" using Cons.prems s by simp_all
    then show ?thesis using k False by (auto intro!: exI [of _ "[]"] exI [of _ k])
  next
    case True
    then have rest: "write_queue V fd msgs w1 = Inr (emptied, msgs', w')" using Cons.prems s by simp
    have w1: "wire w1 = wire w @ ?rd m" using k True by simp
    show ?thesis
    proof (cases emptied)
      case True
      then show ?thesis using Cons.IH [OF rest] w1 by simp
    next
      case False
      then obtain pre m' j where "msgs = pre @ m' # msgs'" "j < length (?rd m')"
        "wire w' = wire w1 @ concat (map ?rd pre) @ take j (?rd m')"
        using Cons.IH [OF rest] by auto
      then show ?thesis using False w1 by (auto intro!: exI [of _ "m # pre"] exI [of _ m'] exI [of _ j])
    qed
  qed
qed


lemma unreg_self_wire:
  assumes "write_log (en_os V) fd wire"
  shows "wire (sh_world (snd (unreg_self V ev st))) = wire (sh_world (snd st))"
  using assms
  by (cases st)
    (auto simp: unreg_self_def unreg_def ctl_mod_def write_log_def Let_def split: prod.splits option.splits if_splits)

subsection \<open>What the state machine's calls leave alone\<close>

lemma peer_id_empty_deliver:
  assumes "peer_id (ag_peer (fst st)) = []"
  shows "peer_id (ag_peer (fst (deliver V me bs st))) = []"
proof -
  obtain a sh where st: "st = (a, sh)" by (cases st)
  have ev: "ag_peer (fst (sm_on_event V me ev (b, sh))) = ag_peer b"
    if "ev = EV_CHOKE \<or> ev = EV_UNCHOKE \<or> ev = EV_HANDSHAKE" for ev b sh
    using that by (auto simp: sm_on_event.simps agent_choked_def agent_unchoked_def agent_interested_def frame_simps)
  have "ag_peer (fst (handle_msg V me msg (a, sh))) = ag_peer a" for msg
    by (cases "msg_id msg") (simp_all add: handle_msg_def ev frame_simps Let_def split: prod.split)
  then show ?thesis
    using assms by (simp add: st deliver_def set_peer_id_and_validate_handshake_def Let_def ev)
qed

lemma peer_id_empty_loop:
  "on_read_loop fuel V me st = Inr st' \<Longrightarrow> peer_id (ag_peer (fst st)) = [] \<Longrightarrow> peer_id (ag_peer (fst st')) = []"
proof (induction fuel arbitrary: st)
  case 0
  then have "st' = st" by (subst (asm) on_read_loop_eq) (simp split: if_splits)
  with 0 show ?case by simp
next
  case (Suc fuel)
  show ?case
  proof (cases "ready V st")
    case True
    then have "on_read_loop fuel V me (handle_slice V me (msg_len_of V st) st) = Inr st'"
      using Suc.prems(1) by (subst (asm) on_read_loop_eq) simp
    moreover have "peer_id (ag_peer (fst (handle_slice V me (msg_len_of V st) st))) = []"
      using peer_id_empty_deliver [OF Suc.prems(2)] by (simp add: handle_slice_eq with_buf_def)
    ultimately show ?thesis by (rule Suc.IH)
  next
    case False
    then have "st' = st" using Suc.prems(1) by (subst (asm) on_read_loop_eq) simp
    with Suc.prems show ?thesis by simp
  qed
qed

lemma agent_on_timeout_spec:
  assumes "agent_on_timeout V me (a, sh) = Inr (a', sh')"
  shows "ag_msg_buffer a' = ag_msg_buffer a \<and> ag_choked a' = ag_choked a
     \<and> ag_attempts a' = ag_attempts a + 1 \<and> me \<notin> set (tm_clients (sh_timer sh'))
     \<and> ag_send_queue a' = (if ag_connected a'
          then [new_handshake (ex_bb (en_ext V)) (ex_oob (en_ext V)) (en_peer_id V) (to_hex (ti_info_hash (en_ti V)))]
          else [])
     \<and> ag_sm a' = (if ag_connected a' then ST_CONNECTED else ST_STARTED)"
proof -
  let ?sh1 = "sh\<lparr>sh_timer := timer_unreg (sh_timer sh) me\<rparr>" and ?a1 = "a\<lparr>ag_send_queue := []\<rparr>"
  obtain fd w1 where t: "tcp_reset (en_os V) (ag_socket a) (sh_world sh) = Inr (fd, w1)"
    using assms by (auto simp: agent_on_timeout_def Let_def res_bind_eq_Inr)
  obtain ok w2 where b: "set_blocking (en_os V) fd False w1 = (ok, w2)" by fastforce
  obtain c sh2 where r: "reg_self V me EPOLLIN (?a1\<lparr>ag_socket := fd\<rparr>, ?sh1\<lparr>sh_world := w2\<rparr>) = (c, sh2)"
    by fastforce
  have c: "ag_msg_buffer c = ag_msg_buffer a" "ag_choked c = ag_choked a" "ag_attempts c = ag_attempts a"
    "ag_send_queue c = []" "sh_timer sh2 = timer_unreg (sh_timer sh) me"
    using reg_self_frame(6,9,10,7,11) [of V me EPOLLIN "(?a1\<lparr>ag_socket := fd\<rparr>, ?sh1\<lparr>sh_world := w2\<rparr>)"] r
    by simp_all
  have s: "(a', sh') = sm_on_event V me EV_START (c, sh2)"
    using assms t b r by (simp add: agent_on_timeout_def Let_def agent_start_def)
  obtain con w3 where k: "tcp_connect (en_os V) (ag_socket c) (peer_endpoint (ag_peer c)) (sh_world sh2) = (con, w3)"
    by fastforce
  let ?st = "(c\<lparr>ag_sm := ST_STARTED, ag_connected := con, ag_attempts := ag_attempts c + 1\<rparr>, sh2\<lparr>sh_world := w3\<rparr>)"
  have s2: "(a', sh') = (if con then sm_on_event V me EV_CONNECTED ?st else reg_self V me EPOLLOUT ?st)"
    using s k by (simp add: sm_on_event.simps(1) [of V me EV_START] agent_connect.simps)
  let ?hs = "new_handshake (ex_bb (en_ext V)) (ex_oob (en_ext V)) (en_peer_id V) (to_hex (ti_info_hash (en_ti V)))"
  let ?st2 = "((fst ?st)\<lparr>ag_sm := ST_CONNECTED, ag_send_queue := [?hs]\<rparr>, snd ?st)"
  have s3: "(a', sh') = reg_self V me EPOLLOUT (if con then ?st2 else ?st)"
    using s2 c(4) by (simp add: sm_on_event.simps(1) [of V me EV_CONNECTED] agent_handshake_def Let_def)
  have "me \<notin> set (tm_clients (sh_timer sh2))" by (simp add: c(5) timer_unreg_def)
  then show ?thesis
    using c reg_self_frame(6,9,10,11,7,4,8) [of V me EPOLLOUT "if con then ?st2 else ?st"]
    unfolding s3 [symmetric] by (cases con) simp_all
qed

subsection \<open>Properties\<close>

text \<open>C20: a call of \<open>write\<close> on a connected agent puts the queued messages on the wire in order. If
  the socket takes them all, the queue is empty. If it stops taking bytes inside a message, that
  message is removed from the queue all the same: the bytes of it that were not taken are lost,
  and the next call goes on with the message after it.\<close>

theorem write_in_order_or_loses:
  assumes "bb_laws (ex_bb (en_ext V))" "os_laws (en_os V)" "write_log (en_os V) (ag_socket a) wire"
    and "ag_connected a" "agent_write V me (a, sh) = Inr (a', sh')"
  shows "ag_send_queue a' = [] \<and> wire (sh_world sh') = wire (sh_world sh) @
       concat (map (rd (ex_bb (en_ext V))) (ag_send_queue a))
     \<or> (\<exists>pre m k. ag_send_queue a = pre @ m # ag_send_queue a' \<and> k < length (rd (ex_bb (en_ext V)) m)
       \<and> wire (sh_world sh') = wire (sh_world sh) @ concat (map (rd (ex_bb (en_ext V))) pre)
           @ take k (rd (ex_bb (en_ext V)) m))"
proof -
  obtain e q w where wq: "write_queue V (ag_socket a) (ag_send_queue a) (sh_world sh) = Inr (e, q, w)"
    using assms(4,5) by (auto simp: agent_write_def res_bind_eq_Inr)
  let ?st = "(a\<lparr>ag_send_queue := q\<rparr>, sh\<lparr>sh_world := w\<rparr>)"
  have r: "(a', sh') = (if e then unreg_self V EPOLLOUT ?st else ?st)"
    using assms(4,5) wq by (auto simp: agent_write_def Let_def split: if_splits)
  then have "ag_send_queue a' = q" "wire (sh_world sh') = wire w"
    using unreg_self_frame(7) [of V EPOLLOUT ?st] unreg_self_wire [OF assms(3), of EPOLLOUT ?st]
    by (metis fst_conv snd_conv agent.select_convs(8) agent.simps(19) agent.update_convs(8) shared.select_convs(6)
        shared.update_convs(6) surjective_pairing agent.surjective shared.surjective)+
  then show ?thesis
    using write_queue_log [OF assms(1-3) wq] by (cases e) auto
qed


lemma small_write_log: "write_log script_os fd sc_out"
  by (auto simp: write_log_def script_os_def script_write_def Let_def split: list.splits)

theorem write_in_order_or_loses_witness:
  "\<exists>a' sh'. agent_write small_V 0
       (small_agent ST_CHOKED\<lparr>ag_send_queue := [([1, 2, 3], [], 0), ([4], [], 0)]\<rparr>,
        small_shared\<lparr>sh_world := script_start\<lparr>sc_room := [2, -1]\<rparr>\<rparr>) = Inr (a', sh')
     \<and> ag_send_queue a' = [([4], [], 0)]
     \<and> (\<exists>pre m k. [([1, 2, 3], [], 0), ([4], [], 0)] = pre @ m # ag_send_queue a' \<and> k < length (rd list_buffer m)
       \<and> sc_out (sh_world sh') = concat (map (rd list_buffer) pre) @ take k (rd list_buffer m))"
proof -
  let ?a = "small_agent ST_CHOKED\<lparr>ag_send_queue := [([1, 2, 3], [], 0), ([4], [], 0)]\<rparr>"
  let ?sh = "small_shared\<lparr>sh_world := script_start\<lparr>sc_room := [2, -1]\<rparr>\<rparr>"
  let ?r = "agent_write small_V 0 (?a, ?sh)"
  have ok: "\<not> isl ?r" by code_simp
  have q: "ag_send_queue (fst (projr ?r)) = [([4], [], 0)]" by code_simp
  have c: "ag_connected ?a" "ag_socket ?a = 5" by code_simp+
  have out: "sc_out (sh_world ?sh) = []" by code_simp
  have r: "?r = Inr (fst (projr ?r), snd (projr ?r))" using not_isl_Inr [OF ok] by simp
  have laws: "bb_laws (ex_bb (en_ext small_V))" "os_laws (en_os small_V)"
    "write_log (en_os small_V) (ag_socket ?a) sc_out"
    using list_buffer_laws script_os_laws small_write_log by simp_all
  have "\<exists>pre m k. [([1, 2, 3], [], 0), ([4], [], 0)] = pre @ m # ag_send_queue (fst (projr ?r))
      \<and> k < length (rd list_buffer m)
      \<and> sc_out (sh_world (snd (projr ?r))) = concat (map (rd list_buffer) pre) @ take k (rd list_buffer m)"
    using write_in_order_or_loses [OF laws c(1) r] q out by simp
  then show ?thesis using r q by blast
qed


text \<open>C21: a burst of requests: nothing is asked of a peer that chokes us; otherwise at most fifteen
  requests are queued behind what is queued already, each for a block of a piece the peer has
  announced that has not been received, encoded as a \<open>REQUEST\<close> message, and the invariant of the
  request queues is kept.\<close>

theorem request_burst:
  assumes "bb_laws (ex_bb (en_ext V))" "iter_laws (en_ext V)" "requests_ok (en_ti V) (sh_pieces sh)"
    and "request_pieces V me (a, sh) = (a', sh')"
  shows "\<exists>rs. map (rd (ex_bb (en_ext V))) (ag_send_queue a') = map (rd (ex_bb (en_ext V))) (ag_send_queue a)
       @ map (\<lambda>r. frame REQUEST (be 4 (rq_index r) @ be 4 (rq_begin r) @ be 4 (rq_length r))) rs
     \<and> length rs \<le> 15 \<and> (ag_choked a \<longrightarrow> rs = [])
     \<and> (\<forall>r\<in>set rs. wanted (en_ti V) (peer_id (ag_peer a)) (sh_pieces sh) r)
     \<and> requests_ok (en_ti V) (sh_pieces sh')"
proof (cases "ag_choked a")
  case True
  then show ?thesis using assms(3,4) by (intro exI [of _ "[]"]) (simp add: request_pieces_eq)
next
  case False
  let ?B = "ex_bb (en_ext V)" and ?nxt = "get_piece_request (en_ext V) (en_ti V) (peer_id (ag_peer a))"
  obtain rs ph where t: "take_requests ?nxt MAX_BURST (sh_pieces sh) = (rs, ph)" by fastforce
  note w = ph_source.take_requests_wanted [OF conjI [OF assms(2,3)] t]
  let ?st = "(a\<lparr>ag_send_queue := ag_send_queue a @ map (new_request ?B) rs\<rparr>, sh\<lparr>sh_pieces := ph\<rparr>)"
  have "(a', sh') = (if rs \<noteq> [] then reg_self V me EPOLLOUT ?st else ?st)"
    using assms(4) False t by (simp add: request_pieces_eq Let_def)
  then have "ag_send_queue a' = ag_send_queue a @ map (new_request ?B) rs" "sh_pieces sh' = ph"
    using reg_self_frame(7,12) [of V me EPOLLOUT ?st] by (auto split: if_splits dest: sym)
  moreover have "rd ?B (new_request ?B r) = frame REQUEST (be 4 (rq_index r) @ be 4 (rq_begin r) @ be 4 (rq_length r))"
    for r by (simp add: new_request_def rd_request [OF assms(1)] bb_rd [OF assms(1)])
  ultimately show ?thesis
    using w False by (intro exI [of _ rs]) (simp add: MAX_BURST_def)
qed

theorem request_burst_witness:
  "\<exists>rs. length rs \<le> 15 \<and> (\<forall>r\<in>set rs. wanted small_ti [] (have_index small_E small_ti [] 0 (sh_pieces small_shared)) r)
     \<and> map (rd list_buffer) (ag_send_queue (fst (request_pieces small_V 0 (small_agent ST_UNCHOKED\<lparr>ag_choked := False\<rparr>,
         small_shared\<lparr>sh_pieces := have_index small_E small_ti [] 0 (sh_pieces small_shared)\<rparr>))))
       = map (\<lambda>r. frame REQUEST (be 4 (rq_index r) @ be 4 (rq_begin r) @ be 4 (rq_length r))) rs"
proof -
  let ?a = "small_agent ST_UNCHOKED\<lparr>ag_choked := False\<rparr>"
  let ?sh = "small_shared\<lparr>sh_pieces := have_index small_E small_ti [] 0 (sh_pieces small_shared)\<rparr>"
  obtain a' sh' where r: "request_pieces small_V 0 (?a, ?sh) = (a', sh')" by fastforce
  have "requests_ok small_ti (fst (piece_handler_ctor small_E small_ti))"
    by (simp add: piece_handler_ctor_def Let_def requests_ok_def haves_def queue_def lookup_or_def)
  then have ok: "requests_ok (en_ti small_V) (sh_pieces ?sh)"
    using have_index_ok by (simp add: small_shared_def)
  have laws: "bb_laws (ex_bb (en_ext small_V))" "iter_laws (en_ext small_V)" using small_laws by simp_all
  have "ag_send_queue ?a = []" "peer_id (ag_peer ?a) = []" by (simp_all add: small_agent_def)
  then show ?thesis using request_burst [OF laws ok r] r by auto
qed

text \<open>C22: the handshake this client writes is accepted by an agent of this client: the state
  becomes \<open>HANDSHAKE_RECEIVED\<close>, an \<open>INTERESTED\<close> message is queued, and the bytes that follow stay
  for the next round.\<close>

theorem handshake_accepted:
  assumes "bb_laws (ex_bb (en_ext V))" "\<not> handshake_received (ag_sm (fst st))"
    and "buf st = rd (ex_bb (en_ext V)) (new_handshake (ex_bb (en_ext V)) oob pid hash) @ rest"
  shows "\<exists>st'. on_read_loop (Suc f) V me st = on_read_loop f V me st' \<and> buf st' = rest
     \<and> ag_sm (fst st') = ST_HANDSHAKE_RECEIVED
     \<and> map (rd (ex_bb (en_ext V))) (ag_send_queue (fst st'))
       = map (rd (ex_bb (en_ext V))) (ag_send_queue (fst st)) @ [frame INTERESTED []]"
proof -
  let ?B = "ex_bb (en_ext V)"
  define hs where "hs = rd ?B (new_handshake ?B oob pid hash)"
  have hs: "hs = 19 # bytes_of V1 @ be 8 (0 :: u64) @ read_mem oob (hex_str_to_byte_buff hash) 20
      @ read_mem oob (bytes_of pid) 20"
    by (simp add: hs_def new_handshake_def rd_handshake [OF assms(1)] bb_rd [OF assms(1)])
  have l1: "length V1 = 19" by (simp add: V1_def)
  have len: "length hs = 68" by (simp add: hs l1)
  have hd: "hs ! 0 = 19" and pre: "take 19 (drop 1 hs) = bytes_of V1" by (simp_all add: hs l1)
  have ml: "msg_len_of V st = 68"
    using assms(2,3) by (simp add: msg_len_of_def get_msg_len_handshake hs_def [symmetric] hs)
  have rdy: "ready V st" using assms(3) len by (simp add: ready_def ml hs_def)
  let ?slice = "bb_write ?B hs (bb_new ?B)"
  have rs: "rd ?B ?slice = hs" by (simp add: bb_rd [OF assms(1)])
  have "bb_peek_8 ?B 0 ?slice = 19" using bb_peek(1) [OF assms(1), of 0 ?slice] hd len by (simp add: rs)
  moreover have "at_ptr (bb_get_read ?B ?slice) 1 19 = bytes_of V1" using len pre by (simp add: at_ptr_rd rs)
  ultimately have ok: "fst (set_peer_id_and_validate_handshake ?B ?slice info)" for info
    using len by (simp add: set_peer_id_and_validate_handshake_def Let_def rs)
  obtain a sh where st: "st = (a, sh)" by (cases st)
  obtain info where d: "deliver V me hs st = sm_on_event V me EV_HANDSHAKE (a\<lparr>ag_peer := info\<rparr>, sh)"
    using ok assms(2) by (cases "set_peer_id_and_validate_handshake ?B ?slice (ag_peer a)")
      (auto simp: st deliver_def Let_def, metis fst_conv)
  let ?st' = "with_buf rest (deliver V me hs st)"
  have "on_read_loop (Suc f) V me st = on_read_loop f V me ?st'"
    using rdy len assms(3) by (subst on_read_loop_eq) (simp add: handle_slice_eq ml hs_def)
  moreover have "ag_sm (fst ?st') = ST_HANDSHAKE_RECEIVED" by (simp add: d sm_on_event_state)
  moreover have "ag_send_queue (fst ?st') = ag_send_queue a @ [new_interested ?B]"
    by (simp add: d sm_on_event.simps agent_interested_def with_buf_def frame_simps)
  moreover have "rd ?B (new_interested ?B) = frame INTERESTED []"
    by (simp add: new_interested_def rd_simple_messages [OF assms(1)] bb_rd [OF assms(1)])
  ultimately show ?thesis by (intro exI [of _ ?st']) (simp add: st)
qed


theorem handshake_accepted_witness:
  "\<exists>st'. on_read_loop 1 small_V 0 (with_buf (rd list_buffer (new_handshake list_buffer (\<lambda>_. 0)
       ''-tent0001-0123456789'' (to_hex (ti_info_hash small_ti))) @ [0]) (small_st ST_CONNECTED)) = on_read_loop 0 small_V 0 st'
     \<and> buf st' = [0] \<and> ag_sm (fst st') = ST_HANDSHAKE_RECEIVED"
  using handshake_accepted [of small_V "with_buf (rd list_buffer (new_handshake list_buffer (\<lambda>_. 0)
       ''-tent0001-0123456789'' (to_hex (ti_info_hash small_ti))) @ [0]) (small_st ST_CONNECTED)" "\<lambda>_. 0"
       "''-tent0001-0123456789''" "to_hex (ti_info_hash small_ti)" "[0]" 0 0] list_buffer_laws
  by auto

text \<open>C38: the peer id the handshake carries is not recorded for a peer whose id is empty, which is
  how both tracker clients create every compact peer: no sequence of received bytes sets it. All
  such peers share the entry of the piece handler for the empty id.\<close>

theorem peer_id_never_set:
  assumes "agent_read V me (a, sh) = Inr (a', sh')" "peer_id (ag_peer a) = []"
  shows "peer_id (ag_peer a') = []"
proof -
  let ?B = "ex_bb (en_ext V)"
  obtain res io w where t: "tcp_read ?B (en_os V) (ag_socket a) (bb_reset ?B (ag_io_buffer a)) (sh_world sh) = (res, io, w)"
    by (metis prod_cases3)
  let ?st = "(a\<lparr>ag_io_buffer := io\<rparr>, sh\<lparr>sh_world := w\<rparr>)"
  let ?st1 = "if res = 0 then sm_on_event V me EV_DISCONNECTED ?st else ?st"
  have "ag_peer (fst (agent_disconnected V me st)) = ag_peer (fst st)" for st
    using unreg_self_frame(1) [of V 0 st]
    by (cases "unreg_self V 0 st") (simp add: agent_disconnected_def Let_def split: prod.split)
  then have p: "peer_id (ag_peer (fst ?st1)) = []" using assms(2) by (simp add: sm_on_event.simps)
  have r: "(if bb_get_read_available ?B (ag_io_buffer (fst ?st1)) > 0
      then on_read V me (ag_io_buffer (fst ?st1)) ?st1 else Inr ?st1) = Inr (a', sh')"
    using assms(1) t by (simp add: agent_read_def Let_def split del: if_split)
  show ?thesis
  proof (cases "bb_get_read_available ?B (ag_io_buffer (fst ?st1)) > 0")
    case True
    with r have "on_read V me (ag_io_buffer (fst ?st1)) ?st1 = Inr (a', sh')" by simp
    then show ?thesis
      unfolding on_read_eq using peer_id_empty_loop p by (fastforce simp: with_buf_def)
  next
    case False
    with r have "?st1 = (a', sh')" by simp
    then show ?thesis using p by simp
  qed
qed

theorem peer_id_never_set_witness:
  "\<exists>a' sh'. agent_read small_V 0 (small_agent ST_CONNECTED,
       small_shared\<lparr>sh_world := script_start\<lparr>sc_in := [[0, 0]]\<rparr>\<rparr>) = Inr (a', sh') \<and> peer_id (ag_peer a') = []"
proof -
  let ?r = "agent_read small_V 0 (small_agent ST_CONNECTED, small_shared\<lparr>sh_world := script_start\<lparr>sc_in := [[0, 0]]\<rparr>\<rparr>)"
  have "\<not> isl ?r" by code_simp
  then obtain a' sh' where r: "?r = Inr (a', sh')" by (metis not_isl_Inr surjective_pairing)
  moreover have "peer_id (ag_peer (small_agent ST_CONNECTED)) = []" by (simp add: small_agent_def)
  ultimately show ?thesis using peer_id_never_set [OF r] by blast
qed

text \<open>After a disconnect the agent is out of the reactor, its socket is closed and invalid, and
  it waits in the timer for five seconds, doubled for every further connection attempt, exactly
  (the delay is a single precision number as long as it is finite).\<close>

theorem disconnect_backoff:
  assumes "0 \<le> ag_attempts a" "agent_disconnected V me (a, sh) = (a', sh')"
  shows "rc_clients (sh_reactor sh') = (rc_clients (sh_reactor sh))(ag_socket a := None)
     \<and> ag_socket a' = -1 \<and> \<not> ag_connected a'
     \<and> tm_clients (sh_timer sh') = tm_clients (sh_timer sh) @ [me]
     \<and> ag_timer a' = \<lparr>timeout_ms = 5000 * 2 ^ nat (ag_attempts a - 1), elapsed = 0\<rparr>
     \<and> ag_msg_buffer a' = ag_msg_buffer a \<and> ag_send_queue a' = ag_send_queue a"
proof -
  obtain b sh1 where u: "unreg_self V 0 (a, sh) = (b, sh1)" by fastforce
  have b: "ag_socket b = ag_socket a" "ag_attempts b = ag_attempts a" "ag_msg_buffer b = ag_msg_buffer a"
    "ag_send_queue b = ag_send_queue a" "sh_timer sh1 = sh_timer sh"
    using unreg_self_frame(2,10,6,7,11) [of V 0 "(a, sh)"] u by simp_all
  have r: "rc_clients (sh_reactor sh1) = (rc_clients (sh_reactor sh))(ag_socket a := None)"
    using u by (auto simp: unreg_self_def unreg_def split: prod.splits)
  have m: "nat (max 0 (ag_attempts a - 1)) = nat (ag_attempts a - 1)" by simp
  have f: "fl32 (5000 * 2 ^ nat (ag_attempts a - 1)) = 5000 * 2 ^ nat (ag_attempts a - 1)"
    by (rule fl32_exact) simp_all
  obtain fd w where c: "tcp_close (en_os V) (ag_socket b) (sh_world sh1) = (fd, w)" by fastforce
  then have "fd = -1" by (auto simp: tcp_close_def valid_def split: if_splits)
  then show ?thesis
    using assms(2) u c b r f by (auto simp: agent_disconnected_def timer_reg_def m TIME_TO_RECONNECT_MS_def)
qed

theorem disconnect_backoff_witness:
  "timeout_ms (ag_timer (fst (agent_disconnected small_V 0 (small_agent ST_CHOKED\<lparr>ag_attempts := 3\<rparr>, small_shared)))) = 20000"
proof -
  obtain a' sh' where d: "agent_disconnected small_V 0 (small_agent ST_CHOKED\<lparr>ag_attempts := 3\<rparr>, small_shared) = (a', sh')"
    by fastforce
  show ?thesis using disconnect_backoff [OF _ d] d by simp
qed

text \<open>A reconnect starts with an empty send queue (a handshake is queued if the connection is
  made at once), but keeps the bytes collected from the old connection, so they are read as the
  start of the new one, and it keeps the choke flag.\<close>

theorem reconnect_keeps_stale_bytes:
  assumes "agent_on_timeout V me (a, sh) = Inr (a', sh')"
  shows "ag_msg_buffer a' = ag_msg_buffer a \<and> ag_choked a' = ag_choked a
     \<and> ag_attempts a' = ag_attempts a + 1 \<and> me \<notin> set (tm_clients (sh_timer sh'))
     \<and> ag_send_queue a' = (if ag_connected a'
          then [new_handshake (ex_bb (en_ext V)) (ex_oob (en_ext V)) (en_peer_id V) (to_hex (ti_info_hash (en_ti V)))]
          else [])
     \<and> ag_sm a' = (if ag_connected a' then ST_CONNECTED else ST_STARTED)"
  by (rule agent_on_timeout_spec [OF assms])

theorem reconnect_keeps_stale_bytes_witness:
  "\<exists>a' sh'. agent_on_timeout small_V 0 (small_agent ST_DISCONNECTED\<lparr>ag_msg_buffer := [0, 0, 0]\<rparr>, small_shared) = Inr (a', sh')
     \<and> ag_msg_buffer a' = [0, 0, 0] \<and> ag_sm a' = ST_STARTED"
proof -
  let ?r = "agent_on_timeout small_V 0 (small_agent ST_DISCONNECTED\<lparr>ag_msg_buffer := [0, 0, 0]\<rparr>, small_shared)"
  have "\<not> isl ?r" "\<not> ag_connected (fst (projr ?r))" by code_simp+
  then obtain a' sh' where r: "?r = Inr (a', sh')" "\<not> ag_connected a'"
    by (metis not_isl_Inr surjective_pairing fst_conv sum.sel(2))
  then show ?thesis using reconnect_keeps_stale_bytes [OF r(1)] by auto
qed

end
