(* ===== verification/Bdecode.thy ===== *)
theory Bdecode
  imports Prelude
begin

section \<open>Decoding bencoded data\<close>

text \<open>
  \<open>extern/libtorrent/src/bdecode.cpp\<close>, which the client calls on the answers of HTTP trackers. The
  decoder turns the buffer into a flat array of tokens; a node is an index into that array. The
  caches inside a node (\<open>m_last_index\<close>, \<open>m_last_token\<close>, \<open>m_size\<close>) only remember results and are
  left out. Positions are offsets from the start of the buffer.
\<close>

subsection \<open>Integers\<close>

datatype bd_error =
    expected_digit | expected_colon | unexpected_eof | expected_value
  | depth_exceeded | limit_exceeded | overflow

definition numeric :: "char \<Rightarrow> bool" where
  "numeric c \<longleftrightarrow> (48 :: nat) \<le> of_char c \<and> (of_char c :: nat) \<le> 57"

text \<open>
  The \<open>do\<close> loop of \<open>check_integer\<close> on the bytes from \<open>start\<close> on, of which there is at least
  one: the error, if any, and how many digits were passed.
\<close>

fun check_digits :: "string \<Rightarrow> nat \<Rightarrow> bd_error option \<times> nat" where
  "check_digits [] digits = (Some unexpected_eof, digits)"
| "check_digits (c # cs) digits =
     (if \<not> numeric c then (Some expected_digit, digits)
      else if cs = [] then (Some unexpected_eof, Suc digits)
      else if hd cs = CHR ''e'' then (None, Suc digits)
      else check_digits cs (Suc digits))"

definition check_integer :: "string \<Rightarrow> bd_error option \<times> nat" where
  "check_integer rest =
     (if rest = [] then (Some unexpected_eof, 0)
      else
        let sign = (if hd rest = CHR ''-'' then 1 else 0 :: nat);
            rest = drop sign rest
        in if rest = [] then (Some unexpected_eof, sign)
           else
             let (e, digits) = check_digits rest 0
             in (if digits > 20 then Some overflow else e, sign + digits))"

definition INT64_MAX :: int where
  "INT64_MAX = 2 ^ 63 - 1"

fun parse_int :: "string \<Rightarrow> char \<Rightarrow> int \<Rightarrow> bd_error option \<times> nat \<times> int" where
  "parse_int [] delimiter val = (None, 0, val)"
| "parse_int (c # cs) delimiter val =
     (if c = delimiter then (None, 0, val)
      else if \<not> numeric c then (Some expected_digit, 0, val)
      else if val > INT64_MAX div 10 then (Some overflow, 0, val)
      else
        let val = val * 10; d = of_char c - 48
        in if val > INT64_MAX - d then (Some overflow, 0, val)
           else let (e, n, v) = parse_int cs delimiter (val + d) in (e, Suc n, v))"

subsection \<open>Tokens\<close>

datatype token_type = T_none | T_dict | T_list | T_string | T_integer | T_end

record bdecode_token =
  tk_offset :: nat
  tk_type :: token_type
  tk_next :: nat
  tk_header :: nat

definition token2 :: "nat \<Rightarrow> token_type \<Rightarrow> bdecode_token" where
  "token2 off t = \<lparr>tk_offset = off, tk_type = t, tk_next = 0, tk_header = 0\<rparr>"

definition token4 :: "nat \<Rightarrow> nat \<Rightarrow> token_type \<Rightarrow> nat \<Rightarrow> bdecode_token" where
  "token4 off nxt t header_size =
     \<lparr>tk_offset = off, tk_type = t, tk_next = nxt,
      tk_header = (if t = T_string then header_size - 2 else 0)\<rparr>"

definition start_offset :: "bdecode_token \<Rightarrow> nat" where
  "start_offset t = tk_header t + 2"

definition max_offset :: int where
  "max_offset = 2 ^ 29 - 1"

definition max_next_item :: int where
  "max_next_item = 2 ^ 29 - 1"

definition max_header :: nat where
  "max_header = 2 ^ 3 - 1"

text \<open>A stack frame: the index of its token, and whether a dictionary waits for a value.\<close>

type_synonym stack_frame = "nat \<times> bool"

subsection \<open>The decoder\<close>

text \<open>
  The main loop. The stack has its top first. The result is the error, if any, the stack, the
  tokens and \<open>start\<close> at the label \<open>done\<close>.
\<close>

definition parent_is_dict :: "bdecode_token list \<Rightarrow> stack_frame list \<Rightarrow> bool" where
  "parent_is_dict toks stack \<longleftrightarrow>
     (case stack of [] \<Rightarrow> False | (t, state) # _ \<Rightarrow> tk_type (toks ! t) = T_dict)"

text \<open>The last lines of a round: the frame that was on top when it began changes its state.\<close>

definition flip_frame :: "nat \<Rightarrow> bdecode_token list \<Rightarrow> stack_frame list \<Rightarrow> stack_frame list" where
  "flip_frame depth toks stack =
     (if depth > 0 \<and> depth \<le> length stack then
        (let i = length stack - depth; (t, state) = stack ! i
         in if tk_type (toks ! t) = T_dict then stack[i := (t, \<not> state)] else stack)
      else stack)"

definition bd_string :: "string \<Rightarrow> nat \<Rightarrow> (bd_error \<times> nat) + (bdecode_token \<times> nat)" where
  "bd_string buffer start =
     (let str_start = start;
          len = of_char (buffer ! start) - 48 :: int;
          start = Suc start
      in if start \<ge> length buffer then Inl (unexpected_eof, start)
         else
           let (e, n, len) = parse_int (drop start buffer) CHR '':'' len;
               start = start + n
           in case e of
                Some e \<Rightarrow> Inl (e, start)
              | None \<Rightarrow>
                  if start = length buffer then Inl (expected_colon, start)
                  else if len > int (length buffer - start - 1) then Inl (unexpected_eof, start)
                  else if len < 0 then Inl (overflow, start)
                  else
                    let start = Suc start
                    in if start - str_start - 2 > max_header then Inl (limit_exceeded, start)
                       else Inr (token4 str_start 1 T_string (start - str_start), start + nat len))"

text \<open>One round up to the end of the \<open>switch\<close>: an error with the tokens and the position, or go on.\<close>

definition bd_step ::
  "string \<Rightarrow> stack_frame list \<Rightarrow> bdecode_token list \<Rightarrow> nat
     \<Rightarrow> (bd_error \<times> bdecode_token list \<times> nat) + (stack_frame list \<times> bdecode_token list \<times> nat)" where
  "bd_step buffer stack toks start =
     (let t = buffer ! start in
      if parent_is_dict toks stack \<and> \<not> snd (hd stack) \<and> \<not> numeric t \<and> t \<noteq> CHR ''e''
      then Inl (expected_digit, toks, start)
      else if t = CHR ''d'' then
        Inr ((length toks, False) # stack, toks @ [token2 start T_dict], Suc start)
      else if t = CHR ''l'' then
        Inr ((length toks, False) # stack, toks @ [token2 start T_list], Suc start)
      else if t = CHR ''i'' then
        (let (e, n) = check_integer (drop (Suc start) buffer) in
         case e of
           Some e \<Rightarrow> Inl (e, toks, start)
         | None \<Rightarrow> Inr (stack, toks @ [token4 start 1 T_integer 1], Suc (Suc start + n)))
      else if t = CHR ''e'' then
        (if stack = [] then Inl (unexpected_eof, toks, start)
         else if parent_is_dict toks stack \<and> snd (hd stack) then Inl (expected_value, toks, start)
         else
           let toks = toks @ [token4 start 1 T_end 0]; top = fst (hd stack) in
           if int (length toks - top) > max_next_item then Inl (limit_exceeded, toks, start)
           else Inr (tl stack, toks[top := (toks ! top)\<lparr>tk_next := length toks - top\<rparr>], Suc start))
      else if \<not> numeric t then Inl (expected_value, toks, start)
      else
        (case bd_string buffer start of
           Inl (e, pos) \<Rightarrow> Inl (e, toks, pos)
         | Inr (tok, start) \<Rightarrow> Inr (stack, toks @ [tok], start)))"

lemma bd_string_moves: "bd_string buffer start = Inr (tok, start') \<Longrightarrow> start < start'"
  by (auto simp: bd_string_def Let_def split: if_splits prod.splits option.splits)

lemma bd_step_moves: "bd_step buffer stack toks start = Inr (stack', toks', start') \<Longrightarrow> start < start'"
  by (auto simp: bd_step_def Let_def dest: bd_string_moves split: if_splits prod.splits option.splits sum.splits)

function bd_loop ::
  "string \<Rightarrow> nat \<Rightarrow> int \<Rightarrow> stack_frame list \<Rightarrow> bdecode_token list \<Rightarrow> nat
     \<Rightarrow> bd_error option \<times> stack_frame list \<times> bdecode_token list \<times> nat" where
  "bd_loop buffer depth_limit token_limit stack toks start =
     (if start \<ge> length buffer then (Some unexpected_eof, stack, toks, start)
      else if length stack \<ge> depth_limit then (Some depth_exceeded, stack, toks, start)
      else if token_limit - 1 < 0 then (Some limit_exceeded, stack, toks, start)
      else
        case bd_step buffer stack toks start of
          Inl (e, toks, pos) \<Rightarrow> (Some e, stack, toks, pos)
        | Inr (stack', toks', start') \<Rightarrow>
            (let stack' = flip_frame (length stack) toks' stack' in
             if stack' = [] then (None, stack', toks', start')
             else bd_loop buffer depth_limit (token_limit - 1) stack' toks' start'))"
  by pat_completeness auto
termination
  by (relation "measure (\<lambda>(buffer, depth_limit, token_limit, stack, toks, start). length buffer - start)")
    (auto dest!: bd_step_moves)

declare bd_loop.simps [simp del]

text \<open>What follows the label \<open>done\<close>: open lists and dictionaries are closed.\<close>

fun bd_unwind :: "stack_frame list \<Rightarrow> bdecode_token list \<Rightarrow> nat \<Rightarrow> bdecode_token list" where
  "bd_unwind [] toks start = toks @ [token4 start 0 T_end 0]"
| "bd_unwind ((tp, state) # stack) toks start =
     (let toks = (if tk_type (toks ! tp) = T_dict \<and> state
                  then toks @ [token4 start 2 T_dict 0, token2 start T_end] else toks);
          toks = toks[tp := (toks ! tp)\<lparr>tk_next := length toks - tp\<rparr>]
      in bd_unwind stack (toks @ [token4 start 1 T_end 0]) start)"

record bdecode_node =
  bn_tokens :: "bdecode_token list"
  bn_buffer :: string
  bn_idx :: int

definition null_node :: bdecode_node where
  "null_node = \<lparr>bn_tokens = [], bn_buffer = [], bn_idx = -1\<rparr>"

definition bdecode :: "string \<Rightarrow> nat \<Rightarrow> int \<Rightarrow> bd_error option \<times> bdecode_node" where
  "bdecode buffer depth_limit token_limit =
     (if int (length buffer) > max_offset then (Some limit_exceeded, null_node)
      else
        let (ec, stack, toks, start) = bd_loop buffer depth_limit token_limit [] [] 0
        in (ec, \<lparr>bn_tokens = bd_unwind stack toks start, bn_buffer = buffer, bn_idx = 0\<rparr>))"

subsection \<open>Nodes\<close>

text \<open>Walking over the array stops after as many steps as it has tokens.\<close>

definition node_at :: "bdecode_node \<Rightarrow> nat \<Rightarrow> bdecode_node" where
  "node_at n i = n\<lparr>bn_idx := int i\<rparr>"

definition node_type :: "bdecode_node \<Rightarrow> token_type" where
  "node_type n = (if bn_idx n = -1 then T_none else tk_type (bn_tokens n ! nat (bn_idx n)))"

definition token_source_span :: "bdecode_token list \<Rightarrow> nat \<Rightarrow> nat" where
  "token_source_span toks i = tk_offset (toks ! Suc i) - tk_offset (toks ! i)"

fun skip_items :: "bdecode_token list \<Rightarrow> nat \<Rightarrow> nat \<Rightarrow> nat" where
  "skip_items toks token 0 = token"
| "skip_items toks token (Suc i) = skip_items toks (token + tk_next (toks ! token)) i"

definition list_at :: "bdecode_node \<Rightarrow> nat \<Rightarrow> bdecode_node" where
  "list_at n i = node_at n (skip_items (bn_tokens n) (nat (bn_idx n) + 1) i)"

fun count_items :: "nat \<Rightarrow> bdecode_token list \<Rightarrow> nat \<Rightarrow> nat" where
  "count_items 0 toks token = 0"
| "count_items (Suc fuel) toks token =
     (if tk_type (toks ! token) \<noteq> T_end then Suc (count_items fuel toks (token + tk_next (toks ! token))) else 0)"

definition list_size :: "bdecode_node \<Rightarrow> nat" where
  "list_size n = count_items (length (bn_tokens n)) (bn_tokens n) (nat (bn_idx n) + 1)"

definition token_string :: "bdecode_node \<Rightarrow> nat \<Rightarrow> string" where
  "token_string n i =
     (let t = bn_tokens n ! i
      in take (token_source_span (bn_tokens n) i - start_offset t) (drop (tk_offset t + start_offset t) (bn_buffer n)))"

fun dict_find_loop :: "nat \<Rightarrow> bdecode_node \<Rightarrow> string \<Rightarrow> nat \<Rightarrow> bdecode_node" where
  "dict_find_loop 0 n key token = null_node"
| "dict_find_loop (Suc fuel) n key token =
     (let toks = bn_tokens n in
      if tk_type (toks ! token) \<noteq> T_end then
        (let val = token + tk_next (toks ! token) in
         if token_string n token = key then node_at n val
         else dict_find_loop fuel n key (val + tk_next (toks ! val)))
      else null_node)"

definition dict_find :: "bdecode_node \<Rightarrow> string \<Rightarrow> bdecode_node" where
  "dict_find n key = dict_find_loop (length (bn_tokens n)) n key (nat (bn_idx n) + 1)"

definition dict_find_list :: "bdecode_node \<Rightarrow> string \<Rightarrow> bdecode_node" where
  "dict_find_list n key = (let ret = dict_find n key in if node_type ret = T_list then ret else null_node)"

definition dict_find_string :: "bdecode_node \<Rightarrow> string \<Rightarrow> bdecode_node" where
  "dict_find_string n key = (let ret = dict_find n key in if node_type ret = T_string then ret else null_node)"

definition string_value :: "bdecode_node \<Rightarrow> string" where
  "string_value n = token_string n (nat (bn_idx n))"

definition int_value :: "bdecode_node \<Rightarrow> int" where
  "int_value n =
     (let i = nat (bn_idx n); toks = bn_tokens n;
          ptr = tk_offset (toks ! i) + 1;
          negative = (bn_buffer n ! ptr = CHR ''-'');
          first = ptr + (if negative then 1 else 0);
          (e, _, val) = parse_int (take (ptr + token_source_span toks i - first) (drop first (bn_buffer n))) CHR ''e'' 0
      in if e \<noteq> None then 0 else if negative then - val else val)"

definition dict_find_string_value :: "bdecode_node \<Rightarrow> string \<Rightarrow> string" where
  "dict_find_string_value n key =
     (let n = dict_find n key in if node_type n \<noteq> T_string then [] else string_value n)"

definition dict_find_int_value :: "bdecode_node \<Rightarrow> string \<Rightarrow> int" where
  "dict_find_int_value n key =
     (let n = dict_find n key in if node_type n \<noteq> T_integer then 0 else int_value n)"

end
