(* ===== verification/Http.thy ===== *)
theory Http
  imports Net
begin

section \<open>Strings and HTTP messages\<close>

text \<open>
  \<open>src/http_messages.cpp\<close>, \<open>src/http_client.cpp\<close> and the functions of \<open>std::string\<close> that they and the
  tracker clients use. What curl does with a URL is a parameter: the header lines it passes
  to \<open>header_cb\<close>, the body (\<open>None\<close> when \<open>perform\<close> throws one of the two exceptions that \<open>get\<close>
  catches) and the response code.
\<close>

subsection \<open>Strings\<close>

text \<open>\<open>find\<close> of a string: the position of the first occurrence, \<open>None\<close> for \<open>npos\<close>.\<close>

fun find_str :: "string \<Rightarrow> string \<Rightarrow> nat option" where
  "find_str pat [] = (if pat = [] then Some 0 else None)"
| "find_str pat (c # cs) =
     (if take (length pat) (c # cs) = pat then Some 0 else map_option Suc (find_str pat cs))"

text \<open>
  \<open>substr(pos, count)\<close> throws when \<open>pos\<close> is past the end and stops at the end of the string.
  A count is a \<open>size_t\<close>: the difference of two of them that would be negative is huge.
\<close>

definition substr :: "string \<Rightarrow> nat \<Rightarrow> int \<Rightarrow> string res" where
  "substr s pos n =
     (if pos > length s then Inl Out_of_range
      else Inr (take (nat (n mod 2 ^ 64)) (drop pos s)))"

subsection \<open>Responses\<close>

record response =
  rs_location :: "string option"
  rs_body :: string
  rs_code :: int

datatype status_code = OK | MOVED_PERMANENTLY | Other_status int

definition status :: "response \<Rightarrow> status_code" where
  "status r = (if rs_code r = 200 then OK else if rs_code r = 301 then MOVED_PERMANENTLY else Other_status (rs_code r))"

text \<open>\<open>field(LOCATION)\<close> is \<open>unordered_map::at\<close>.\<close>

definition field_location :: "response \<Rightarrow> string res" where
  "field_location r = (case rs_location r of None \<Rightarrow> Inl Out_of_range | Some l \<Rightarrow> Inr l)"

definition location_match :: string where
  "location_match = ''Location: ''"

definition header_cb :: "string \<Rightarrow> response \<Rightarrow> response res" where
  "header_cb field r =
     (case find_str location_match field of
        None \<Rightarrow> Inr r
      | Some start \<Rightarrow>
          (let start = start + length location_match in
           res_bind (substr field start (int (length field) - int start - 2))
             (\<lambda>l. Inr (r\<lparr>rs_location := Some l\<rparr>))))"

type_synonym 'w curl = "string \<Rightarrow> 'w \<Rightarrow> string list \<times> string option \<times> int \<times> 'w"

fun header_cbs :: "string list \<Rightarrow> response \<Rightarrow> response res" where
  "header_cbs [] r = Inr r"
| "header_cbs (l # ls) r = res_bind (header_cb l r) (header_cbs ls)"

definition http_get :: "'w curl \<Rightarrow> string \<Rightarrow> 'w \<Rightarrow> (response \<times> 'w) res" where
  "http_get curl url w =
     (let (lines, body, code, w) = curl url w;
          resp = \<lparr>rs_location = None, rs_body = [], rs_code = code\<rparr>
      in res_bind (header_cbs lines resp) (\<lambda>resp.
           Inr (case body of None \<Rightarrow> resp | Some b \<Rightarrow> resp\<lparr>rs_body := b\<rparr>, w)))"

subsection \<open>What is found\<close>

lemma find_str_le: "find_str pat s = Some i \<Longrightarrow> i + length pat \<le> length s \<and> take (length pat) (drop i s) = pat"
proof (induction s arbitrary: i)
  case Nil
  then show ?case by (simp split: if_splits)
next
  case (Cons c cs)
  show ?case
  proof (cases "take (length pat) (c # cs) = pat")
    case True
    then have "length pat \<le> length (c # cs)" by (metis length_take min.cobounded1)
    then show ?thesis using True Cons.prems by simp
  next
    case False
    then obtain j where "find_str pat cs = Some j" "i = Suc j" using Cons.prems by auto
    then show ?thesis using Cons.IH by simp
  qed
qed

lemma find_str_first:
  assumes "pat \<noteq> []" "\<And>i. i < length pre \<Longrightarrow> take (length pat) (drop i (pre @ pat @ post)) \<noteq> pat"
  shows "find_str pat (pre @ pat @ post) = Some (length pre)"
  using assms(2)
proof (induction pre)
  case Nil
  then show ?case using assms(1) by (cases pat) simp_all
next
  case (Cons c pre)
  have "take (length pat) ((c # pre) @ pat @ post) \<noteq> pat" using Cons.prems [of 0] by simp
  moreover have "find_str pat (pre @ pat @ post) = Some (length pre)"
  proof (rule Cons.IH)
    fix i assume "i < length pre"
    then show "take (length pat) (drop i (pre @ pat @ post)) \<noteq> pat" using Cons.prems [of "Suc i"] by simp
  qed
  ultimately show ?case by simp
qed

lemma find_char:
  "c \<notin> set pre \<Longrightarrow> find_str [c] (pre @ c # post) = Some (length pre)"
  by (induction pre) auto

end
