(* ===== verification/Tracker.thy ===== *)
theory Tracker
  imports Bdecode Http Msg_Factory Net_Reactor
begin

section \<open>The tracker clients\<close>

text \<open>
  \<open>src/tracker_client.cpp\<close>, \<open>src/udp_tracker_client.cpp\<close> and \<open>src/random.cpp\<close>: the client asks every
  tracker of the torrent for peers, over UDP or HTTP, and collects the peers it has not seen.
  The environment holds the byte buffer, the system calls, name resolution
  (\<open>getaddrinfo\<close>: \<open>None\<close> when it fails), curl, the memory behind a string and the fuel of the loop
  that polls for answers.
\<close>

record ('b, 'w) tenv =
  te_bb :: "'b byte_buffer_api"
  te_os :: "'w os_api"
  te_resolve :: "string \<Rightarrow> 'w \<Rightarrow> endpoint list option \<times> 'w"
  te_curl :: "'w curl"
  te_oob :: "nat \<Rightarrow> byte"
  te_fuel :: nat

subsection \<open>Random numbers\<close>

definition rnd_uint32 :: "'w os_api \<Rightarrow> 'w \<Rightarrow> u32 \<times> 'w" where
  "rnd_uint32 S w = sys_random S w"

definition transaction_id :: "'w os_api \<Rightarrow> 'w \<Rightarrow> u32 \<times> 'w" where
  "transaction_id S w = rnd_uint32 S w"

subsection \<open>The list of peers\<close>

text \<open>
  A peer is appended when no peer in the list has its address and port. Both clients print the
  address of a known peer and compare it with the printed address of the new one.
\<close>

definition same_peer :: "string \<Rightarrow> u16 \<Rightarrow> peer_info \<Rightarrow> bool" where
  "same_peer peer_ip peer_port p \<longleftrightarrow>
     inet_ntop (sin_addr (peer_endpoint p)) = peer_ip \<and> ntohs (sin_port (peer_endpoint p)) = peer_port"

definition add_peer :: "string \<Rightarrow> string \<Rightarrow> u16 \<Rightarrow> peer_info list \<Rightarrow> peer_info list res" where
  "add_peer pid peer_ip peer_port peers =
     (if list_ex (same_peer peer_ip peer_port) peers then Inr peers
      else res_bind (peer_info_ctor pid peer_ip peer_port) (\<lambda>p. Inr (peers @ [p])))"

subsection \<open>The UDP tracker client\<close>

record ('b, 'w) udp_tracker =
  ut_buffer :: 'b
  ut_ep :: endpoint
  ut_reactor :: "unit net_reactor"
  ut_events :: u32
  ut_peers :: "peer_info list"
  ut_socket :: udp_socket
  ut_info :: torrent_info
  ut_peer_id :: string
  ut_info_hash :: string
  ut_port :: u16
  ut_tid :: u32
  ut_world :: 'w

definition udp_buffer_size :: nat where
  [code del]: "udp_buffer_size = 2048"

definition udp_tracker_ctor ::
  "('b, 'w) tenv \<Rightarrow> torrent_info \<Rightarrow> string \<Rightarrow> u16 \<Rightarrow> peer_info list \<Rightarrow> 'w \<Rightarrow> ('b, 'w) udp_tracker res" where
  "udp_tracker_ctor V info pid port peers w =
     (let (r, w) = net_reactor_ctor (te_os V) 200 w
      in res_bind (udp_socket_ctor (te_os V) w) (\<lambda>(fd, w).
           let (_, r, ev, w) = reg (te_os V) r () fd 0 EPOLLIN w
           in Inr \<lparr>ut_buffer = bb_sized (te_bb V) udp_buffer_size,
                   ut_ep = \<lparr>sin_family = 0, sin_port = 0, sin_addr = 0\<rparr>,
                   ut_reactor = r, ut_events = ev, ut_peers = peers, ut_socket = fd, ut_info = info,
                   ut_peer_id = pid, ut_info_hash = to_hex (ti_info_hash info), ut_port = port,
                   ut_tid = 0, ut_world = w\<rparr>))"

definition udp_tracker_dtor :: "('b, 'w) tenv \<Rightarrow> ('b, 'w) udp_tracker \<Rightarrow> 'w" where
  "udp_tracker_dtor V u =
     (let (_, _, _, w) = unreg (te_os V) (ut_reactor u) (ut_socket u) (ut_events u) 0 (ut_world u);
          (_, w) = udp_socket_dtor (te_os V) (ut_socket u) w
      in w)"

text \<open>The loop over the peers of an announce response; each round takes six bytes.\<close>

fun read_peers :: "nat \<Rightarrow> 'b byte_buffer_api \<Rightarrow> 'b \<Rightarrow> peer_info list \<Rightarrow> ('b \<times> peer_info list) res" where
  "read_peers 0 B buffer peers = Inr (buffer, peers)"
| "read_peers (Suc fuel) B buffer peers =
     (if bb_get_read_available B buffer \<ge> 6 then
        (let (ipaddr, buffer) = bb_read_32 B buffer;
             (port, buffer) = bb_read_16 B buffer;
             peer_ip = saddr_to_str ipaddr
         in res_bind (add_peer [] peer_ip port peers) (read_peers fuel B buffer))
      else Inr (buffer, peers))"

definition udp_read :: "('b, 'w) tenv \<Rightarrow> ('b, 'w) udp_tracker \<Rightarrow> ('b, 'w) udp_tracker res" where
  "udp_read V u =
     (let B = te_bb V;
          (res, buffer, _, w) = udp_recvfrom B (te_os V) (ut_socket u) (bb_reset B (ut_buffer u)) 0 (ut_world u);
          u = u\<lparr>ut_buffer := buffer, ut_world := w\<rparr>
      in if res > 0 then
           (let (action, buffer) = bb_read_32 B buffer;
                (tid, buffer) = bb_read_32 B buffer;
                u = u\<lparr>ut_buffer := buffer\<rparr>
            in if tid = ut_tid u \<and> action = 0 then
                 (let (connection_id, buffer) = bb_read_64 B buffer;
                      (key, w) = rnd_uint32 (te_os V) w;
                      (new_tid, w) = transaction_id (te_os V) w;
                      buffer = announce B (te_oob V) (bb_reset B buffer) connection_id new_tid (ut_info_hash u)
                                 (ut_peer_id u) (word_of_int (fs_total_size (ti_files (ut_info u)))) key (ut_port u);
                      (_, buffer, w) = udp_sendto B (te_os V) (ut_socket u) buffer (ut_ep u) 0 w
                  in Inr (u\<lparr>ut_tid := new_tid, ut_buffer := buffer, ut_world := w\<rparr>))
               else if tid = ut_tid u \<and> action = 1 then
                 (let (_, buffer) = bb_read_32 B buffer;
                      (_, buffer) = bb_read_32 B buffer;
                      (_, buffer) = bb_read_32 B buffer
                  in res_bind (read_peers (bb_get_read_available B buffer) B buffer (ut_peers u)) (\<lambda>(buffer, peers).
                       Inr (u\<lparr>ut_buffer := buffer, ut_peers := peers\<rparr>)))
               else Inr u)
         else Inr u)"

text \<open>\<open>while(reactor_.poll() > 0);\<close>\<close>

fun udp_poll_loop :: "nat \<Rightarrow> ('b, 'w) tenv \<Rightarrow> ('b, 'w) udp_tracker \<Rightarrow> ('b, 'w) udp_tracker res" where
  "udp_poll_loop 0 V u = Inl Out_of_fuel"
| "udp_poll_loop (Suc fuel) V u =
     res_bind (poll (te_os V) ut_reactor ut_world (\<lambda>w u. u\<lparr>ut_world := w\<rparr>)
                 (\<lambda>_. udp_read V) (\<lambda>_ u. Inr u) u)
       (\<lambda>(nfds, u). if nfds > 0 then udp_poll_loop fuel V u else Inr u)"

text \<open>
  \<open>std::stoi\<close>: white space, a sign, decimal digits; \<open>invalid_argument\<close> without a digit,
  \<open>out_of_range\<close> outside \<open>int\<close>. What follows the digits is ignored.
\<close>

definition is_space :: "char \<Rightarrow> bool" where
  "is_space c \<longleftrightarrow> (of_char c :: nat) = 32 \<or> (9 \<le> (of_char c :: nat) \<and> (of_char c :: nat) \<le> 13)"

definition stoi :: "string \<Rightarrow> int res" where
  "stoi s =
     (let s = dropWhile is_space s;
          neg = (s \<noteq> [] \<and> hd s = CHR ''-'');
          s = (if s \<noteq> [] \<and> (hd s = CHR ''-'' \<or> hd s = CHR ''+'') then tl s else s);
          digits = takeWhile numeric s;
          n = foldl (\<lambda>n c. n * 10 + (of_char c - 48)) 0 digits :: int;
          v = (if neg then - n else n)
      in if digits = [] then Inl Invalid_argument
         else if v < - (2 ^ 31) \<or> v \<ge> 2 ^ 31 then Inl Out_of_range
         else Inr v)"

text \<open>The loop over the addresses of the tracker.\<close>

fun announce_addrs :: "('b, 'w) tenv \<Rightarrow> string \<Rightarrow> endpoint list \<Rightarrow> ('b, 'w) udp_tracker \<Rightarrow> ('b, 'w) udp_tracker res" where
  "announce_addrs V peer_port [] u = Inr u"
| "announce_addrs V peer_port (addr # addrs) u =
     (if sin_family addr = AF_INET then
        res_bind (stoi peer_port) (\<lambda>port.
          let (tid, w) = transaction_id (te_os V) (ut_world u);
              u = u\<lparr>ut_ep := endpoint_of_sockaddr (addr\<lparr>sin_port := htons (word_of_int port)\<rparr>), ut_tid := tid\<rparr>;
              buffer = connect (te_bb V) (bb_reset (te_bb V) (ut_buffer u)) tid;
              (res, buffer, w) = udp_sendto (te_bb V) (te_os V) (ut_socket u) buffer (ut_ep u) 0 w;
              u = u\<lparr>ut_buffer := buffer, ut_world := w\<rparr>
          in res_bind (if res > 0 then udp_poll_loop (te_fuel V) V u else Inr u)
               (announce_addrs V peer_port addrs))
      else announce_addrs V peer_port addrs u)"

definition udp_announce :: "('b, 'w) tenv \<Rightarrow> string \<Rightarrow> ('b, 'w) udp_tracker \<Rightarrow> (bool \<times> ('b, 'w) udp_tracker) res" where
  "udp_announce V url u =
     (let finish = (\<lambda>u. Inr (ut_peers u \<noteq> [], u)) in
      case find_str ''udp://'' url of
        None \<Rightarrow> finish u
      | Some it \<Rightarrow>
          (let rest = drop (it + 6) url in
           case (find_str '':'' rest, find_str ''/'' rest) of
             (Some peername_delim, Some port_delim) \<Rightarrow>
               res_bind (substr rest 0 (int peername_delim)) (\<lambda>peername.
               res_bind (substr rest (peername_delim + 1) (int port_delim - int peername_delim - 1)) (\<lambda>peer_port.
                 let (addrs, w) = te_resolve V peername (ut_world u);
                     u = u\<lparr>ut_world := w\<rparr>
                 in case addrs of
                      None \<Rightarrow> Inr (False, u)
                    | Some addrs \<Rightarrow> res_bind (announce_addrs V peer_port addrs u) finish))
           | _ \<Rightarrow> finish u))"

subsection \<open>The HTTP tracker client\<close>

text \<open>
  The loop of \<open>percent_encode\<close> with its default arguments: \<open>it\<close> is moved two characters on, a
  separator is inserted there, and \<open>it\<close> is moved past it.
\<close>

function percent_loop :: "string \<Rightarrow> nat \<Rightarrow> string" where
  "percent_loop result it =
     (if 3 \<le> length result - it
      then percent_loop (take (it + 2) result @ CHR ''%'' # drop (it + 2) result) (it + 3)
      else result)"
  by pat_completeness auto
termination by (relation "measure (\<lambda>(result, it). length result - it)") auto

declare percent_loop.simps [simp del]

definition percent_encode :: "byte list \<Rightarrow> string" where
  "percent_encode hash = percent_loop (CHR ''%'' # to_hex hash) 1"

text \<open>The peers of a list of dictionaries, and of a compact string.\<close>

fun parse_peer_list :: "bdecode_node \<Rightarrow> nat list \<Rightarrow> peer_info list \<Rightarrow> peer_info list res" where
  "parse_peer_list node [] peers = Inr peers"
| "parse_peer_list node (i # is) peers =
     (let peer_dict = list_at node i;
          pid = dict_find_string_value peer_dict ''peer id'';
          peer_ip = dict_find_string_value peer_dict ''ip'';
          peer_port = dict_find_int_value peer_dict ''port''
      in res_bind (add_peer pid peer_ip (word_of_int peer_port) peers) (parse_peer_list node is))"

function parse_compact :: "(nat \<Rightarrow> byte) \<Rightarrow> byte list \<Rightarrow> nat \<Rightarrow> peer_info list \<Rightarrow> peer_info list res" where
  "parse_compact oob bs offset peers =
     (if offset < length bs then
        (let peer_ip = saddr_to_str (ntohl (of_be (rev (read_mem (\<lambda>i. oob (offset + i)) (drop offset bs) 4))));
             peer_port = ntohs (of_be (rev (read_mem (\<lambda>i. oob (offset + 4 + i)) (drop (offset + 4) bs) 2)))
         in res_bind (add_peer [] peer_ip peer_port peers) (parse_compact oob bs (offset + 6)))
      else Inr peers)"
  by pat_completeness auto
termination by (relation "measure (\<lambda>(oob, bs, offset, peers). length bs - offset)") auto

declare parse_compact.simps [simp del]

definition parse_peers :: "(nat \<Rightarrow> byte) \<Rightarrow> string \<Rightarrow> peer_info list \<Rightarrow> peer_info list res" where
  "parse_peers oob tracker_rsp peers =
     (let (error, decoded) = bdecode tracker_rsp 100 2000000 in
      if error \<noteq> None then Inr peers
      else
        let peer_list = dict_find_list decoded ''peers'';
            peer_string_node = dict_find_string decoded ''peers''
        in if node_type peer_list \<noteq> T_list \<and> node_type peer_string_node \<noteq> T_string then Inr peers
           else if node_type peer_list = T_list
           then parse_peer_list peer_list [0..<list_size peer_list] peers
           else if node_type peer_string_node = T_string
           then parse_compact oob (bytes_of (string_value peer_string_node)) 0 peers
           else Inr peers)"

definition announce_url :: "torrent_info \<Rightarrow> string \<Rightarrow> string \<Rightarrow> u16 \<Rightarrow> string" where
  "announce_url info url pid port =
     url @ ''?info_hash='' @ percent_encode (ti_info_hash info) @ ''&peer_id='' @ pid @ ''&port='' @ dec (unat port)
       @ ''&downloaded=0&uploaded=0&left='' @ dec (nat (fs_total_size (ti_files info))) @ ''&event=started''"

lemma announce_url_code [code]:
  "announce_url info url pid port =
     url @ ''?info_hash='' @ percent_encode (ti_info_hash info) @ ''&peer_id='' @ pid @ ''&port='' @ dec_int (uint port)
       @ ''&downloaded=0&uploaded=0&left='' @ dec_int (fs_total_size (ti_files info)) @ ''&event=started''"
  by (simp add: announce_url_def dec_int_def)

definition http_announce ::
  "('b, 'w) tenv \<Rightarrow> torrent_info \<Rightarrow> string \<Rightarrow> string \<Rightarrow> u16 \<Rightarrow> peer_info list \<Rightarrow> 'w \<Rightarrow> (peer_info list \<times> 'w) res" where
  "http_announce V info url pid port peers w =
     res_bind (http_get (te_curl V) (announce_url info url pid port) w) (\<lambda>(resp, w).
     res_bind (if status resp = MOVED_PERMANENTLY
               then res_bind (field_location resp) (\<lambda>l. http_get (te_curl V) l w)
               else Inr (resp, w)) (\<lambda>(resp, w).
     if status resp = OK
     then res_bind (parse_peers (te_oob V) (rs_body resp) peers) (\<lambda>peers. Inr (peers, w))
     else Inr (peers, w)))"

text \<open>The UDP client and \<open>announce\<close> share the vector of peers and the world.\<close>

fun announce_trackers ::
  "('b, 'w) tenv \<Rightarrow> torrent_info \<Rightarrow> string \<Rightarrow> u16 \<Rightarrow> string list \<Rightarrow> ('b, 'w) udp_tracker \<Rightarrow> ('b, 'w) udp_tracker res" where
  "announce_trackers V info pid port [] u = Inr u"
| "announce_trackers V info pid port (url # urls) u =
     res_bind
       (if find_str ''udp'' url \<noteq> None then res_bind (udp_announce V url u) (\<lambda>(_, u). Inr u)
        else res_bind (http_announce V info url pid port (ut_peers u) (ut_world u))
               (\<lambda>(peers, w). Inr (u\<lparr>ut_peers := peers, ut_world := w\<rparr>)))
       (announce_trackers V info pid port urls)"

definition tracker_announce ::
  "('b, 'w) tenv \<Rightarrow> torrent_info \<Rightarrow> u16 \<Rightarrow> string \<Rightarrow> peer_info list \<Rightarrow> 'w \<Rightarrow> (bool \<times> peer_info list \<times> 'w) res" where
  "tracker_announce V info port pid received_peers w =
     (if ti_trackers info = [] then Inr (False, received_peers, w)
      else
        res_bind (udp_tracker_ctor V info pid port [] w) (\<lambda>u.
        res_bind (announce_trackers V info pid port (ti_trackers info) u) (\<lambda>u.
          Inr (ut_peers u \<noteq> [], ut_peers u, udp_tracker_dtor V u))))"

end
