(* ===== verification/Tracker_Peers.thy ===== *)
theory Tracker_Peers
  imports Tracker
begin

section \<open>The peers a tracker hands out\<close>

text \<open>
  Both tracker clients decode the same six-byte form of a peer, in different ways. Each refines
  the same merge of a list of addresses into the list of known peers: an address and port is
  added once, in order, with the endpoint a socket needs to connect to it.
\<close>

subsection \<open>Merging addresses\<close>

definition new_peer :: "u32 \<Rightarrow> u16 \<Rightarrow> peer_info" where
  "new_peer ip port = \<lparr>peer_id = [],
     peer_endpoint = \<lparr>sin_family = AF_INET, sin_port = htons port, sin_addr = htonl ip\<rparr>\<rparr>"

definition knows :: "peer_info list \<Rightarrow> u32 \<times> u16 \<Rightarrow> bool" where
  "knows peers a \<longleftrightarrow> (\<exists>p\<in>set peers. sin_addr (peer_endpoint p) = htonl (fst a) \<and> sin_port (peer_endpoint p) = htons (snd a))"

definition merge :: "peer_info list \<Rightarrow> (u32 \<times> u16) list \<Rightarrow> peer_info list" where
  "merge peers as = foldl (\<lambda>ps a. if knows ps a then ps else ps @ [new_peer (fst a) (snd a)]) peers as"

lemma merge_simps [simp]:
  "merge peers [] = peers"
  "merge peers (a # as) = merge (if knows peers a then peers else peers @ [new_peer (fst a) (snd a)]) as"
  by (simp_all add: merge_def)

lemma inet_ntop_inj: "inet_ntop a = inet_ntop b \<longleftrightarrow> a = b"
  by (metis inet_pton_ntop_aux option.inject)

lemma same_peer_printed:
  "same_peer (saddr_to_str ip) port p \<longleftrightarrow>
     sin_addr (peer_endpoint p) = htonl ip \<and> sin_port (peer_endpoint p) = htons port"
proof -
  have "ntohs (sin_port (peer_endpoint p)) = port \<longleftrightarrow> sin_port (peer_endpoint p) = htons port"
    by (metis htons_htons)
  then show ?thesis by (simp add: same_peer_def saddr_to_str_def inet_ntop_inj)
qed

lemma add_peer_printed:
  "add_peer [] (saddr_to_str ip) port peers
     = Inr (if knows peers (ip, port) then peers else peers @ [new_peer ip port])"
proof -
  have "peer_info_ctor [] (saddr_to_str ip) port = Inr (new_peer ip port)"
    by (simp add: peer_info_ctor_def endpoint_ctor_def saddr_to_str_def inet_pton_ntop_aux new_peer_def)
  then show ?thesis
    by (simp add: add_peer_def list_ex_iff same_peer_printed knows_def)
qed

definition enc_peer :: "u32 \<times> u16 \<Rightarrow> byte list" where
  "enc_peer a = be 4 (fst a) @ be 2 (snd a)"

lemma length_enc_peer [simp]: "length (enc_peer a) = 6"
  by (simp add: enc_peer_def)

lemma length_enc_peers: "length (concat (map enc_peer as)) = 6 * length as"
  by (induction as) auto

lemma merge_knows: "set as \<subseteq> {a. knows (merge peers as) a}" "knows peers a \<Longrightarrow> knows (merge peers as) a"
proof -
  have mono: "knows peers a \<Longrightarrow> knows (merge peers as) a" for peers a as
  proof (induction as arbitrary: peers)
    case (Cons b as)
    then show ?case by (auto simp: knows_def)
  qed simp
  show "knows peers a \<Longrightarrow> knows (merge peers as) a" by (rule mono)
  show "set as \<subseteq> {a. knows (merge peers as) a}"
  proof (induction as arbitrary: peers)
    case (Cons b as)
    have "knows (if knows peers b then peers else peers @ [new_peer (fst b) (snd b)]) b"
      by (auto simp: knows_def new_peer_def)
    then show ?case using Cons mono by auto
  qed simp
qed

lemma merge_appends: "\<exists>new. merge peers as = peers @ new \<and> (\<forall>p\<in>set new. \<exists>a\<in>set as. p = new_peer (fst a) (snd a))"
proof (induction as arbitrary: peers)
  case (Cons a as)
  obtain new where new: "merge (if knows peers a then peers else peers @ [new_peer (fst a) (snd a)]) as
      = (if knows peers a then peers else peers @ [new_peer (fst a) (snd a)]) @ new"
    "\<forall>p\<in>set new. \<exists>a\<in>set as. p = new_peer (fst a) (snd a)" using Cons.IH by blast
  then show ?case
    by (intro exI [of _ "(if knows peers a then [] else [new_peer (fst a) (snd a)]) @ new"]) auto
qed simp

definition peers_ok :: "peer_info list \<Rightarrow> bool" where
  "peers_ok peers \<longleftrightarrow>
     distinct (map peer_endpoint peers) \<and> (\<forall>p\<in>set peers. sin_family (peer_endpoint p) = AF_INET)"

lemma merge_ok: "peers_ok peers \<Longrightarrow> peers_ok (merge peers as)"
proof (induction as arbitrary: peers)
  case (Cons a as)
  have "peers_ok (if knows peers a then peers else peers @ [new_peer (fst a) (snd a)])"
  proof (cases "knows peers a")
    case False
    then have "peer_endpoint (new_peer (fst a) (snd a)) \<notin> peer_endpoint ` set peers"
    proof (rule contrapos_nn)
      assume "peer_endpoint (new_peer (fst a) (snd a)) \<in> peer_endpoint ` set peers"
      then obtain p where "p \<in> set peers" "peer_endpoint p = peer_endpoint (new_peer (fst a) (snd a))" by auto
      then show "knows peers a" unfolding knows_def by (intro bexI [of _ p]) (simp_all add: new_peer_def)
    qed
    then show ?thesis using False Cons.prems by (auto simp: peers_ok_def new_peer_def)
  qed (use Cons.prems in simp)
  then show ?case using Cons.IH by simp
qed simp

subsection \<open>Two decoders\<close>

lemma read_peers_spec:
  assumes "bb_laws B" "rd B b = concat (map enc_peer as) @ tail" "length tail < 6" "length (rd B b) \<le> fuel"
  shows "\<exists>b'. read_peers fuel B b peers = Inr (b', merge peers as) \<and> rd B b' = tail"
  using assms(2,4)
proof (induction as arbitrary: b peers fuel)
  case Nil
  then show ?case using assms(3) by (cases fuel) auto
next
  case (Cons a as)
  then obtain f where f: "fuel = Suc f" by (cases fuel) auto
  obtain ip b1 where r1: "bb_read_32 B b = (ip, b1)" by fastforce
  have b: "rd B b = be 4 (fst a) @ be 2 (snd a) @ concat (map enc_peer as) @ tail"
    using Cons.prems(1) by (simp add: enc_peer_def [of a])
  have ip: "ip = fst a" and b1: "rd B b1 = be 2 (snd a) @ concat (map enc_peer as) @ tail"
    using bb_consume(8,9) [OF assms(1), of b] r1 by (simp_all add: b)
  obtain port b2 where r2: "bb_read_16 B b1 = (port, b2)" by fastforce
  have port: "port = snd a" and b2: "rd B b2 = concat (map enc_peer as) @ tail"
    using bb_consume(6,7) [OF assms(1), of b1] r2 by (simp_all add: b1)
  have "length (rd B b2) \<le> f" using Cons.prems(2) by (simp add: b b2 f)
  from Cons.IH [OF b2 this]
  obtain b' where "read_peers f B b2 (if knows peers a then peers else peers @ [new_peer (fst a) (snd a)])
      = Inr (b', merge peers (a # as))" "rd B b' = tail" by auto
  moreover have "6 \<le> length (rd B b)" by (simp add: b)
  ultimately show ?case by (simp add: f r1 r2 ip port add_peer_printed)
qed

lemma parse_compact_spec:
  assumes "length pre = offset"
  shows "parse_compact oob (pre @ concat (map enc_peer as)) offset peers = Inr (merge peers as)"
  using assms
proof (induction as arbitrary: pre offset peers)
  case Nil
  then show ?case by (subst parse_compact.simps) simp
next
  case (Cons a as)
  let ?bs = "pre @ concat (map enc_peer (a # as))"
  have d: "drop offset ?bs = be 4 (fst a) @ be 2 (snd a) @ concat (map enc_peer as)"
    "drop (offset + 4) ?bs = be 2 (snd a) @ concat (map enc_peer as)"
    using Cons.prems by (simp_all add: enc_peer_def [of a])
  have ip: "ntohl (of_be (rev (read_mem o1 (drop offset ?bs) 4))) = fst a" for o1
    by (simp only: d) (simp add: read_mem_in_range native_load32)
  have port: "ntohs (of_be (rev (read_mem o1 (drop (offset + 4) ?bs) 2))) = snd a" for o1
    by (simp only: d) (simp add: read_mem_in_range native_load16)
  have lt: "offset < length ?bs" using Cons.prems by simp
  have e: "?bs = (pre @ enc_peer a) @ concat (map enc_peer as)" by simp
  have "parse_compact oob ?bs offset peers
      = parse_compact oob ?bs (offset + 6) (if knows peers a then peers else peers @ [new_peer (fst a) (snd a)])"
    using lt by (subst parse_compact.simps) (simp only: ip port if_True Let_def add_peer_printed res_bind_simps, simp)
  also have "\<dots> = Inr (merge peers (a # as))"
    unfolding e by (subst Cons.IH) (use Cons.prems in simp_all)
  finally show ?case .
qed


subsection \<open>Percent encoding\<close>

definition pct :: "byte \<Rightarrow> string" where
  "pct b = CHR ''%'' # to_hex [b]"

lemma percent_loop_spec:
  assumes "it = length pre" "hs \<noteq> []"
  shows "percent_loop (pre @ to_hex hs) it = pre @ to_hex [hd hs] @ concat (map pct (tl hs))"
  using assms
proof (induction hs arbitrary: pre it)
  case (Cons h hs)
  let ?x = "hex_chars ! unat (drop_bit 4 h)" and ?y = "hex_chars ! unat (h AND 0xf)"
  show ?case
  proof (cases hs)
    case Nil
    then show ?thesis using Cons.prems by (subst percent_loop.simps) simp
  next
    case (Cons h' hs')
    then have "3 \<le> length (pre @ to_hex (h # hs)) - it" using Cons.prems by simp
    moreover have "take (it + 2) (pre @ to_hex (h # hs)) @ CHR ''%'' # drop (it + 2) (pre @ to_hex (h # hs))
        = (pre @ ?x # ?y # ''%'') @ to_hex hs"
      using \<open>it = length pre\<close> by simp
    ultimately have "percent_loop (pre @ to_hex (h # hs)) it = percent_loop ((pre @ ?x # ?y # ''%'') @ to_hex hs) (it + 3)"
      by (subst percent_loop.simps) simp
    also have "\<dots> = (pre @ ?x # ?y # ''%'') @ to_hex [hd hs] @ concat (map pct (tl hs))"
      using \<open>it = length pre\<close> Cons by (intro Cons.IH) simp_all
    finally show ?thesis using Cons by (simp add: pct_def [of h'])
  qed
qed simp

lemma percent_encode_spec:
  assumes "hash \<noteq> []"
  shows "percent_encode hash = concat (map pct hash)"
  using percent_loop_spec [of 1 "''%''" hash] assms
  by (cases hash) (simp_all add: percent_encode_def pct_def)

subsection \<open>The exchange with a UDP tracker\<close>

lemma udp_recvfrom_rd:
  assumes "bb_laws B" "os_laws S" "rd B b = []"
    and "sys_recvfrom S fd (bb_get_write_available B b) fl w = (res, d, ep, w')" "res > 0"
  shows "\<exists>b'. udp_recvfrom B S fd b fl w = (res, b', ep, w') \<and> rd B b' = d"
proof -
  have "res = int (length d)" "length d \<le> bb_get_write_available B b"
    using os_recvfrom_law [OF assms(2,4)] assms(5) by auto
  then have "rd B (bb_inc_write B (nat res) (bb_store B d b)) = d"
    using bb_fill [OF assms(1), of d b] assms(3) by simp
  then show ?thesis using assms(4,5) by (simp add: udp_recvfrom_def Let_def)
qed

text \<open>The first lines of \<open>read\<close>, on a datagram that starts with an action and a transaction id.\<close>

lemma udp_read_header:
  assumes "bb_laws (te_bb V)" "os_laws (te_os V)"
    and "sys_recvfrom (te_os V) (ut_socket u) (bb_get_write_available (te_bb V) (bb_reset (te_bb V) (ut_buffer u))) 0
      (ut_world u) = (res, be 4 (action :: u32) @ be 4 tid @ body, ep, w)" "res > 0"
  obtains b where "rd (te_bb V) b = body"
    and "udp_read V u =
      (let B = te_bb V; u = u\<lparr>ut_buffer := b, ut_world := w\<rparr> in
       if tid = ut_tid u \<and> action = 0 then
         (let (connection_id, buffer) = bb_read_64 B b;
              (key, w) = rnd_uint32 (te_os V) w;
              (new_tid, w) = transaction_id (te_os V) w;
              buffer = announce B (te_oob V) (bb_reset B buffer) connection_id new_tid (ut_info_hash u)
                         (ut_peer_id u) (word_of_int (fs_total_size (ti_files (ut_info u)))) key (ut_port u);
              (_, buffer, w) = udp_sendto B (te_os V) (ut_socket u) buffer (ut_ep u) 0 w
          in Inr (u\<lparr>ut_tid := new_tid, ut_buffer := buffer, ut_world := w\<rparr>))
       else if tid = ut_tid u \<and> action = 1 then
         (let (_, buffer) = bb_read_32 B b;
              (_, buffer) = bb_read_32 B buffer;
              (_, buffer) = bb_read_32 B buffer
          in res_bind (read_peers (bb_get_read_available B buffer) B buffer (ut_peers u)) (\<lambda>(buffer, peers).
               Inr (u\<lparr>ut_buffer := buffer, ut_peers := peers\<rparr>)))
       else Inr u)"
proof -
  let ?B = "te_bb V"
  obtain b0 where r: "udp_recvfrom ?B (te_os V) (ut_socket u) (bb_reset ?B (ut_buffer u)) 0 (ut_world u) = (res, b0, ep, w)"
    and b0: "rd ?B b0 = be 4 action @ be 4 tid @ body"
    using udp_recvfrom_rd [OF assms(1,2) bb_rd(3) [OF assms(1)] assms(3,4)] by blast
  obtain v1 b1 where r1: "bb_read_32 ?B b0 = (v1, b1)" by fastforce
  have 1: "v1 = action" "rd ?B b1 = be 4 tid @ body"
    using bb_consume(8,9) [OF assms(1), of b0] r1 by (simp_all add: b0)
  obtain v2 b2 where r2: "bb_read_32 ?B b1 = (v2, b2)" by fastforce
  have 2: "v2 = tid" "rd ?B b2 = body"
    using bb_consume(8,9) [OF assms(1), of b1] r2 by (simp_all add: 1)
  show ?thesis
    by (rule that [OF 2(2)]) (use assms(4) in \<open>simp add: udp_read_def r r1 r2 1(1) 2(1) Let_def cong: if_cong\<close>)
qed

subsection \<open>A small tracker client\<close>

definition small_tenv :: "(lbuf, script) tenv" where
  "small_tenv = \<lparr>te_bb = list_buffer, te_os = script_os, te_resolve = (\<lambda>_ w. (None, w)),
     te_curl = (\<lambda>_ w. ([], None, 0, w)), te_oob = (\<lambda>_. 0), te_fuel = 5\<rparr>"

definition small_udp :: "byte list \<Rightarrow> (lbuf, script) udp_tracker" where
  "small_udp d = \<lparr>ut_buffer = ([], [], 64), ut_ep = \<lparr>sin_family = AF_INET, sin_port = 0, sin_addr = 0\<rparr>,
     ut_reactor = \<lparr>rc_efd = 4, rc_wait_ms = 200, rc_clients = [5 \<mapsto> ()]\<rparr>, ut_events = EPOLLIN, ut_peers = [],
     ut_socket = 5,
     ut_info = \<lparr>ti_files = \<lparr>fs_name = [], fs_paths = [], fs_files = [], fs_total_size = 3, fs_num_pieces = 1,
       fs_piece_length = 16384\<rparr>, ti_hash_for_piece = (\<lambda>_. []), ti_info_hash = [], ti_trackers = []\<rparr>,
     ut_peer_id = ''-tent0001-0123456789'', ut_info_hash = to_hex (replicate 20 0xAB), ut_port = 6881, ut_tid = 9,
     ut_world = script_start\<lparr>sc_in := [d]\<rparr>\<rparr>"

lemma small_tenv_laws: "bb_laws (te_bb small_tenv)" "os_laws (te_os small_tenv)"
  by (simp_all add: small_tenv_def list_buffer_laws script_os_laws)

lemma small_udp_recv:
  assumes "length d \<le> 64"
  shows "sys_recvfrom (te_os small_tenv) (ut_socket (small_udp d))
      (bb_get_write_available (te_bb small_tenv) (bb_reset (te_bb small_tenv) (ut_buffer (small_udp d)))) 0
      (ut_world (small_udp d))
    = (int (length d), d, \<lparr>sin_family = AF_INET, sin_port = 0, sin_addr = 0\<rparr>, script_start)"
  using assms by (simp add: small_tenv_def small_udp_def script_os_def script_read_def script_start_def)

subsection \<open>Properties\<close>

text \<open>C24: the compact peers of an HTTP tracker and the peers of a UDP announce response are decoded
  to the same result: the addresses merged in order into the list of known peers. (A compact string
  whose length is not a multiple of six is read past its end instead.)\<close>

theorem decoders_agree:
  assumes "bb_laws B" "rd B b = concat (map enc_peer as)" "length (rd B b) \<le> fuel"
  shows "parse_compact oob (concat (map enc_peer as)) 0 peers = Inr (merge peers as)
     \<and> (\<exists>b'. read_peers fuel B b peers = Inr (b', merge peers as))"
  using parse_compact_spec [of "[]" 0 oob as peers] read_peers_spec [OF assms(1), of b as "[]" fuel peers] assms(2,3)
  by auto

theorem decoders_agree_witness:
  "parse_compact (\<lambda>_. 0) [127, 0, 0, 1, 0x1A, 0xE1] 0 [] = Inr (merge [] [(0x7F000001, 6881)])
     \<and> (\<exists>b'. read_peers 6 list_buffer ([127, 0, 0, 1, 0x1A, 0xE1], [], 0) [] = Inr (b', merge [] [(0x7F000001, 6881)]))"
proof -
  have e: "concat (map enc_peer [(0x7F000001, 6881)]) = [127, 0, 0, 1, 0x1A, 0xE1]" by code_simp
  show ?thesis
    using decoders_agree [OF list_buffer_laws, of "([127, 0, 0, 1, 0x1A, 0xE1], [], 0)" "[(0x7F000001, 6881)]" 6 "\<lambda>_. 0" "[]"]
    by (simp only: e list_buffer_rd) simp
qed

text \<open>C25: decoding the compact peers of a tracker's answer into a list of known peers with distinct
  endpoints only appends to the list and keeps the endpoints distinct. Every address of the answer is
  an endpoint of the resulting list, and every appended peer is one of these addresses with an empty id:
  the agents started from the list connect to every address once.\<close>

theorem merged_peers_distinct:
  assumes "peers_ok peers"
  shows "\<exists>new. parse_compact oob (concat (map enc_peer as)) 0 peers = Inr (peers @ new) \<and> peers_ok (peers @ new)
     \<and> (\<forall>(ip, port)\<in>set as. \<exists>p\<in>set (peers @ new).
          sin_addr (peer_endpoint p) = htonl ip \<and> sin_port (peer_endpoint p) = htons port)
     \<and> (\<forall>p\<in>set new. peer_id p = [] \<and> (\<exists>(ip, port)\<in>set as.
          peer_endpoint p = \<lparr>sin_family = AF_INET, sin_port = htons port, sin_addr = htonl ip\<rparr>))"
proof -
  obtain new where new: "merge peers as = peers @ new" "\<forall>p\<in>set new. \<exists>a\<in>set as. p = new_peer (fst a) (snd a)"
    using merge_appends by blast
  have "\<forall>a\<in>set as. knows (peers @ new) a" using merge_knows(1) [of as peers] new(1) by auto
  then have "\<forall>(ip, port)\<in>set as. \<exists>p\<in>set (peers @ new).
      sin_addr (peer_endpoint p) = htonl ip \<and> sin_port (peer_endpoint p) = htons port"
    by (simp add: knows_def case_prod_beta)
  moreover have "\<forall>p\<in>set new. peer_id p = [] \<and> (\<exists>(ip, port)\<in>set as.
      peer_endpoint p = \<lparr>sin_family = AF_INET, sin_port = htons port, sin_addr = htonl ip\<rparr>)"
    using new(2) by (fastforce simp: new_peer_def)
  ultimately show ?thesis
    using merge_ok [OF assms, of as] parse_compact_spec [of "[]" 0 oob as peers] new(1) by auto
qed

theorem merged_peers_distinct_witness:
  "\<exists>peers'. parse_compact (\<lambda>_. 0) [127, 0, 0, 1, 0x1A, 0xE1, 127, 0, 0, 1, 0x1A, 0xE1] 0 [] = Inr peers' \<and> peers_ok peers'
     \<and> (\<exists>p\<in>set peers'. sin_addr (peer_endpoint p) = htonl 0x7F000001 \<and> sin_port (peer_endpoint p) = htons 6881)"
proof -
  have e: "concat (map enc_peer [(0x7F000001, 6881), (0x7F000001, 6881)]) = [127, 0, 0, 1, 0x1A, 0xE1, 127, 0, 0, 1, 0x1A, 0xE1]"
    by code_simp
  have "peers_ok []" by (simp add: peers_ok_def)
  from merged_peers_distinct [OF this, of "\<lambda>_. 0" "[(0x7F000001, 6881), (0x7F000001, 6881)]"]
  show ?thesis unfolding e by auto
qed

text \<open>The info hash in the announce URL is percent-encoded byte by byte: a percent sign and the
  two hexadecimal digits of each byte.\<close>

theorem percent_encode_bytes:
  assumes "hash \<noteq> []"
  shows "percent_encode hash = concat (map (\<lambda>b. CHR ''%'' # to_hex [b]) hash) \<and> length (percent_encode hash) = 3 * length hash"
proof -
  have "percent_encode hash = concat (map pct hash)" by (rule percent_encode_spec [OF assms])
  moreover have "length (concat (map pct hs)) = 3 * length hs" for hs
    by (induction hs) (simp_all add: pct_def)
  ultimately show ?thesis by (simp add: pct_def [abs_def])
qed

theorem percent_encode_bytes_witness: "percent_encode [0xAB, 0x01] = ''%ab%01''"
proof -
  have "concat (map (\<lambda>b. CHR ''%'' # to_hex [b]) [0xAB, 0x01]) = ''%ab%01''" by code_simp
  then show ?thesis using percent_encode_bytes [of "[0xAB, 0x01]"] by simp
qed


text \<open>C32: a connect response with the expected transaction id is answered by an announce that carries
  its connection id, the info hash, the peer id, the size of the torrent and the port, under a fresh
  transaction id which the client then expects.\<close>

theorem udp_connect_answered:
  assumes "bb_laws (te_bb V)" "os_laws (te_os V)"
    and "sys_recvfrom (te_os V) (ut_socket u) (bb_get_write_available (te_bb V) (bb_reset (te_bb V) (ut_buffer u))) 0
      (ut_world u) = (res, be 4 (0 :: u32) @ be 4 (ut_tid u) @ be 8 (cid :: u64) @ rest, ep, w1)" "res > 0"
    and "sys_random (te_os V) w1 = (key, w2)" "sys_random (te_os V) w2 = (tid, w3)"
  shows "\<exists>u' r. udp_read V u = Inr u' \<and> ut_tid u' = tid \<and> ut_peers u' = ut_peers u
     \<and> sys_sendto (te_os V) (ut_socket u) (be 8 cid @ be 4 (1 :: u32) @ be 4 tid
         @ read_mem (te_oob V) (hex_str_to_byte_buff (ut_info_hash u)) 20
         @ read_mem (te_oob V) (bytes_of (ut_peer_id u)) 20
         @ be 8 (0 :: u64) @ be 8 (word_of_int (fs_total_size (ti_files (ut_info u))) :: u64) @ be 8 (0 :: u64)
         @ be 4 (0 :: u32) @ be 4 (0 :: u32) @ be 4 key @ be 4 (-1 :: u32) @ be 2 (ut_port u)) 0 (ut_ep u) w3
       = (r, ut_world u')"
proof -
  let ?B = "te_bb V"
  obtain b where b: "rd ?B b = be 8 cid @ rest" and e: "udp_read V u =
      (let B = te_bb V; u = u\<lparr>ut_buffer := b, ut_world := w1\<rparr> in
       if ut_tid u = ut_tid u \<and> (0 :: u32) = 0 then
         (let (connection_id, buffer) = bb_read_64 B b;
              (key, w) = rnd_uint32 (te_os V) w1;
              (new_tid, w) = transaction_id (te_os V) w;
              buffer = announce B (te_oob V) (bb_reset B buffer) connection_id new_tid (ut_info_hash u)
                         (ut_peer_id u) (word_of_int (fs_total_size (ti_files (ut_info u)))) key (ut_port u);
              (_, buffer, w) = udp_sendto B (te_os V) (ut_socket u) buffer (ut_ep u) 0 w
          in Inr (u\<lparr>ut_tid := new_tid, ut_buffer := buffer, ut_world := w\<rparr>))
       else Inr u)"
    by (rule udp_read_header [OF assms(1-4)]) (simp add: Let_def)
  obtain v b1 where r: "bb_read_64 ?B b = (v, b1)" by fastforce
  have v: "v = cid" using bb_consume(10) [OF assms(1), of b] r by (simp add: b)
  let ?m = "announce ?B (te_oob V) (bb_reset ?B b1) cid tid (ut_info_hash u) (ut_peer_id u)
      (word_of_int (fs_total_size (ti_files (ut_info u)))) key (ut_port u)"
  obtain r2 m2 w4 where s: "udp_sendto ?B (te_os V) (ut_socket u) ?m (ut_ep u) 0 w3 = (r2, m2, w4)"
    by (metis prod_cases3)
  then have "sys_sendto (te_os V) (ut_socket u) (rd ?B ?m) 0 (ut_ep u) w3 = (r2, w4)"
    by (auto simp: udp_sendto_def split: prod.splits)
  then show ?thesis
    unfolding rd_announce [OF assms(1)] bb_rd(3) [OF assms(1)]
    using e r v s assms(5,6) by (simp add: rnd_uint32_def transaction_id_def Let_def)
qed

theorem udp_connect_answered_witness:
  "\<exists>u'. udp_read small_tenv (small_udp (be 4 (0 :: u32) @ be 4 (9 :: u32) @ be 8 (77 :: u64))) = Inr u' \<and> ut_tid u' = 7"
proof -
  let ?d = "be 4 (0 :: u32) @ be 4 (9 :: u32) @ be 8 (77 :: u64) @ []"
  let ?u = "small_udp ?d"
  have t: "ut_tid ?u = 9" by (simp add: small_udp_def)
  have r: "sys_recvfrom (te_os small_tenv) (ut_socket ?u) (bb_get_write_available (te_bb small_tenv)
      (bb_reset (te_bb small_tenv) (ut_buffer ?u))) 0 (ut_world ?u)
    = (16, be 4 (0 :: u32) @ be 4 (ut_tid ?u) @ be 8 (77 :: u64) @ [], \<lparr>sin_family = AF_INET, sin_port = 0, sin_addr = 0\<rparr>, script_start)"
    unfolding t by (subst small_udp_recv) simp_all
  have "sys_random (te_os small_tenv) script_start = (7, script_start)" by (simp add: small_tenv_def script_os_def)
  from udp_connect_answered [OF small_tenv_laws r _ this this] show ?thesis by auto
qed

text \<open>C33: what a UDP tracker client does with a datagram that has an action and a transaction id. If it
  does not expect the id, or the action is neither connect nor announce, only the receive buffer
  changes: no peer is added, nothing is sent, the expected id stays. An announce response with the
  expected id merges its peers into the list and changes nothing else.\<close>

theorem udp_announce_response:
  assumes "bb_laws (te_bb V)" "os_laws (te_os V)"
    and "sys_recvfrom (te_os V) (ut_socket u) (bb_get_write_available (te_bb V) (bb_reset (te_bb V) (ut_buffer u))) 0
      (ut_world u) = (res, be 4 (action :: u32) @ be 4 tid @ body, ep, w)" "res > 0"
  shows "(tid \<noteq> ut_tid u \<or> action \<noteq> 0 \<and> action \<noteq> 1 \<longrightarrow> (\<exists>b. udp_read V u = Inr (u\<lparr>ut_buffer := b, ut_world := w\<rparr>)))
     \<and> (tid = ut_tid u \<and> action = 1 \<and> body = be 4 (interval :: u32) @ be 4 (leechers :: u32) @ be 4 (seeders :: u32)
           @ concat (map enc_peer as) \<longrightarrow>
         (\<exists>b. udp_read V u = Inr (u\<lparr>ut_buffer := b, ut_world := w, ut_peers := merge (ut_peers u) as\<rparr>)))"
proof -
  let ?B = "te_bb V"
  obtain b where b: "rd ?B b = body" and e: "udp_read V u =
      (let B = te_bb V; u = u\<lparr>ut_buffer := b, ut_world := w\<rparr> in
       if tid = ut_tid u \<and> action = 0 then
         (let (connection_id, buffer) = bb_read_64 B b;
              (key, w) = rnd_uint32 (te_os V) w;
              (new_tid, w) = transaction_id (te_os V) w;
              buffer = announce B (te_oob V) (bb_reset B buffer) connection_id new_tid (ut_info_hash u)
                         (ut_peer_id u) (word_of_int (fs_total_size (ti_files (ut_info u)))) key (ut_port u);
              (_, buffer, w) = udp_sendto B (te_os V) (ut_socket u) buffer (ut_ep u) 0 w
          in Inr (u\<lparr>ut_tid := new_tid, ut_buffer := buffer, ut_world := w\<rparr>))
       else if tid = ut_tid u \<and> action = 1 then
         (let (_, buffer) = bb_read_32 B b;
              (_, buffer) = bb_read_32 B buffer;
              (_, buffer) = bb_read_32 B buffer
          in res_bind (read_peers (bb_get_read_available B buffer) B buffer (ut_peers u)) (\<lambda>(buffer, peers).
               Inr (u\<lparr>ut_buffer := buffer, ut_peers := peers\<rparr>)))
       else Inr u)"
    by (rule udp_read_header [OF assms])
  have ignored: "udp_read V u = Inr (u\<lparr>ut_buffer := b, ut_world := w\<rparr>)" if "tid \<noteq> ut_tid u \<or> action \<noteq> 0 \<and> action \<noteq> 1"
    using e that by (auto simp: Let_def)
  have merged: "\<exists>b. udp_read V u = Inr (u\<lparr>ut_buffer := b, ut_world := w, ut_peers := merge (ut_peers u) as\<rparr>)"
    if h: "tid = ut_tid u" "action = 1" "body = be 4 interval @ be 4 leechers @ be 4 seeders @ concat (map enc_peer as)"
  proof -
    obtain v1 b1 where r1: "bb_read_32 ?B b = (v1, b1)" by fastforce
    have 1: "rd ?B b1 = be 4 leechers @ be 4 seeders @ concat (map enc_peer as)"
      using bb_consume(9) [OF assms(1), of b] r1 by (simp add: b h(3))
    obtain v2 b2 where r2: "bb_read_32 ?B b1 = (v2, b2)" by fastforce
    have 2: "rd ?B b2 = be 4 seeders @ concat (map enc_peer as)"
      using bb_consume(9) [OF assms(1), of b1] r2 by (simp add: 1)
    obtain v3 b3 where r3: "bb_read_32 ?B b2 = (v3, b3)" by fastforce
    have 3: "rd ?B b3 = concat (map enc_peer as)"
      using bb_consume(9) [OF assms(1), of b2] r3 by (simp add: 2)
    obtain b' where "read_peers (length (rd ?B b3)) ?B b3 (ut_peers u) = Inr (b', merge (ut_peers u) as)"
      using read_peers_spec [OF assms(1), of b3 as "[]" "length (rd ?B b3)" "ut_peers u"] 3 by auto
    then show ?thesis using e h(1,2) r1 r2 r3 by (intro exI [of _ b']) (simp add: Let_def)
  qed
  show ?thesis using ignored merged by blast
qed

theorem udp_announce_response_witness:
  "(\<exists>b. udp_read small_tenv (small_udp (be 4 (0 :: u32) @ be 4 (8 :: u32) @ be 8 (1 :: u64)))
      = Inr ((small_udp (be 4 (0 :: u32) @ be 4 (8 :: u32) @ be 8 (1 :: u64)))\<lparr>ut_buffer := b, ut_world := script_start\<rparr>))
   \<and> (\<exists>u'. udp_read small_tenv (small_udp (be 4 (1 :: u32) @ be 4 (9 :: u32) @ be 4 (0 :: u32) @ be 4 (0 :: u32)
       @ be 4 (0 :: u32) @ concat (map enc_peer [(0x7F000001, 6881)]))) = Inr u'
     \<and> ut_peers u' = merge [] [(0x7F000001, 6881)])"
proof
  let ?body = "be 4 (0 :: u32) @ be 4 (0 :: u32) @ be 4 (0 :: u32) @ concat (map enc_peer [(0x7F000001, 6881)])"
  let ?d = "be 4 (1 :: u32) @ be 4 (9 :: u32) @ ?body" and ?c = "be 4 (0 :: u32) @ be 4 (8 :: u32) @ be 8 (1 :: u64)"
  let ?ep = "\<lparr>sin_family = AF_INET, sin_port = 0, sin_addr = 0\<rparr>"
  have r: "sys_recvfrom (te_os small_tenv) (ut_socket (small_udp ?d)) (bb_get_write_available (te_bb small_tenv)
      (bb_reset (te_bb small_tenv) (ut_buffer (small_udp ?d)))) 0 (ut_world (small_udp ?d)) = (26, ?d, ?ep, script_start)"
    by (subst small_udp_recv) simp_all
  have rc: "sys_recvfrom (te_os small_tenv) (ut_socket (small_udp ?c)) (bb_get_write_available (te_bb small_tenv)
      (bb_reset (te_bb small_tenv) (ut_buffer (small_udp ?c)))) 0 (ut_world (small_udp ?c)) = (16, ?c, ?ep, script_start)"
    by (subst small_udp_recv) simp_all
  have t: "ut_tid (small_udp x) = 9" "ut_peers (small_udp x) = []" for x by (simp_all add: small_udp_def)
  show "\<exists>b. udp_read small_tenv (small_udp ?c) = Inr ((small_udp ?c)\<lparr>ut_buffer := b, ut_world := script_start\<rparr>)"
    using udp_announce_response [OF small_tenv_laws rc] t by simp
  show "\<exists>u'. udp_read small_tenv (small_udp ?d) = Inr u' \<and> ut_peers u' = merge [] [(0x7F000001, 6881)]"
    using udp_announce_response [OF small_tenv_laws r, of 0 0 0 "[(0x7F000001, 6881)]"] t by auto
qed

text \<open>C39: a peer whose address is not a dotted quad (a host name, an IPv6 address) makes the tracker
  client throw; nothing above catches the exception, so one such entry ends the program.\<close>

theorem invalid_ip_throws:
  assumes "inet_pton ip = None"
  shows "add_peer pid ip port peers = Inl (Runtime_error ''Invalid network address'')"
proof -
  have "\<not> same_peer ip port p" for p
    using assms inet_pton_ntop_aux [of "sin_addr (peer_endpoint p)"] by (auto simp: same_peer_def)
  then show ?thesis
    using assms by (simp add: add_peer_def list_ex_iff peer_info_ctor_def endpoint_ctor_def)
qed

theorem invalid_ip_throws_witness:
  "parse_peer_list (snd (bdecode ''ld2:ip3:::14:porti1eee'' 100 2000000)) [0] [] = Inl (Runtime_error ''Invalid network address'')"
proof -
  let ?n = "snd (bdecode ''ld2:ip3:::14:porti1eee'' 100 2000000)"
  have "dict_find_string_value (list_at ?n 0) ''ip'' = ''::1''" by code_simp
  moreover have "inet_pton ''::1'' = None" by code_simp
  ultimately show ?thesis
    using invalid_ip_throws [of "''::1''" "dict_find_string_value (list_at ?n 0) ''peer id''"
        "word_of_int (dict_find_int_value (list_at ?n 0) ''port'')" "[]"]
    by (simp add: Let_def)
qed

text \<open>The host and the port of a UDP tracker URL are the strings before and after the colon, and
  the announce goes to every IPv4 address the host resolves to.\<close>

theorem udp_url_parsed:
  assumes "CHR '':'' \<notin> set host" "CHR ''/'' \<notin> set host" "CHR ''/'' \<notin> set port" "length host + length port < 2 ^ 64"
    and "te_resolve V host (ut_world u) = (Some addrs, w)"
  shows "udp_announce V (''udp://'' @ host @ '':'' @ port @ ''/'' @ path) u
     = res_bind (announce_addrs V port addrs (u\<lparr>ut_world := w\<rparr>)) (\<lambda>u. Inr (ut_peers u \<noteq> [], u))"
proof -
  let ?rest = "host @ '':'' @ port @ ''/'' @ path"
  have u: "find_str ''udp://'' (''udp://'' @ ?rest) = Some 0" by simp
  have c: "find_str '':'' ?rest = Some (length host)" using find_char [OF assms(1), of "port @ ''/'' @ path"] by simp
  have "CHR ''/'' \<notin> set (host @ '':'' @ port)" using assms(2,3) by simp
  from find_char [OF this, of path]
  have s: "find_str ''/'' ?rest = Some (length host + 1 + length port)" by simp
  have p: "substr ?rest 0 (int (length host)) = Inr host"
    using assms(4) by (simp add: substr_def)
  have q: "substr ?rest (length host + 1) (int (length host + 1 + length port) - int (length host) - 1) = Inr port"
    using assms(4) by (simp add: substr_def)
  have d: "drop (0 + 6) (''udp://'' @ ?rest) = ?rest" by simp
  show ?thesis
    unfolding udp_announce_def Let_def u option.case d c s prod.case p q res_bind_simps assms(5) by simp
qed

theorem udp_url_parsed_witness:
  "udp_announce (small_tenv\<lparr>te_resolve := \<lambda>_ w. (Some [], w)\<rparr>) ''udp://tracker.org:80/announce'' (small_udp [])
     = Inr (False, small_udp [])"
proof -
  have "te_resolve (small_tenv\<lparr>te_resolve := \<lambda>_ w. (Some [], w)\<rparr>) ''tracker.org'' (ut_world (small_udp [])) = (Some [], ut_world (small_udp []))"
    by simp
  from udp_url_parsed [OF _ _ _ _ this, of "''80''" "''announce''"]
  show ?thesis by (simp add: small_udp_def)
qed

text \<open>The target of a redirect is the rest of the \<open>Location\<close> header line without its line end.\<close>

theorem location_header:
  assumes "length l < 2 ^ 64"
  shows "header_cb (''Location: '' @ l @ [CHR 0x0D, CHR 0x0A]) r = Inr (r\<lparr>rs_location := Some l\<rparr>)"
proof -
  have f: "find_str location_match (''Location: '' @ l @ [CHR 0x0D, CHR 0x0A]) = Some 0"
    by (simp add: location_match_def)
  have "substr (''Location: '' @ l @ [CHR 0x0D, CHR 0x0A]) 10 (int (length l)) = Inr l"
    using assms by (simp add: substr_def)
  moreover have "0 + length location_match = 10" by (simp add: location_match_def)
  moreover have "int (length (''Location: '' @ l @ [CHR 0x0D, CHR 0x0A])) - int 10 - 2 = int (length l)" by simp
  ultimately show ?thesis by (simp only: header_cb_def f option.case Let_def res_bind_simps)
qed

theorem location_header_witness:
  "header_cb (''Location: '' @ ''http://a/'' @ [CHR 0x0D, CHR 0x0A]) \<lparr>rs_location = None, rs_body = [], rs_code = 301\<rparr>
     = Inr \<lparr>rs_location = Some ''http://a/'', rs_body = [], rs_code = 301\<rparr>"
  using location_header [of "''http://a/''" "\<lparr>rs_location = None, rs_body = [], rs_code = 301\<rparr>"] by simp

end
