(* ===== verification/Session.thy ===== *)
theory Session
  imports Agent_Calls Tracker_Peers
begin

section \<open>The session\<close>

text \<open>
  \<open>src/session.cpp\<close>: the session asks the trackers for peers, makes one agent for each and runs the
  engine until the piece handler stops it. The agents live in a store from identifiers (their
  place in \<open>agents_\<close>) to records; the reactor and the timer call an agent by its identifier.
  Two loops that only the operating system ends, the engine and the wait for it, are in
  \<open>Session_Threads\<close>.
\<close>

record ('b, 'w) sess =
  ss_agents :: "nat \<rightharpoonup> 'b agent"
  ss_shared :: "('b, 'w) shared"

definition PORT :: u16 where
  "PORT = 6881"

definition alphanum :: string where
  "alphanum = ''0123456789ABCDEFGHIJKLMNOPQRSTUVWXYZabcdefghijklmnopqrstuvwxyz''"

text \<open>
  Each character is drawn from a Mersenne twister seeded anew from the random device:
  \<open>draw r n\<close> is what \<open>uniform_int_distribution(0, n)\<close> returns on a generator seeded with \<open>r\<close>.
\<close>

fun random_chars :: "'w os_api \<Rightarrow> (u32 \<Rightarrow> nat \<Rightarrow> nat) \<Rightarrow> nat \<Rightarrow> 'w \<Rightarrow> string \<times> 'w" where
  "random_chars S draw 0 w = ([], w)"
| "random_chars S draw (Suc n) w =
     (let (r, w) = sys_random S w;
          c = alphanum ! draw r (length alphanum - 1);
          (cs, w) = random_chars S draw n w
      in (c # cs, w))"

definition create_local_peer_id :: "'w os_api \<Rightarrow> (u32 \<Rightarrow> nat \<Rightarrow> nat) \<Rightarrow> 'w \<Rightarrow> string \<times> 'w" where
  "create_local_peer_id S draw w = (let (cs, w) = random_chars S draw 10 w in (''-tent0001-'' @ cs, w))"

definition session_ctor ::
  "'b externals \<Rightarrow> 'w os_api \<Rightarrow> (u32 \<Rightarrow> nat \<Rightarrow> nat) \<Rightarrow> torrent_info \<Rightarrow> nat net_reactor \<Rightarrow> 'w
     \<Rightarrow> string \<times> ('b, 'w) sess" where
  "session_ctor E S draw info reactor w =
     (let (ph, _) = piece_handler_ctor E info;
          (local_peer_id, w) = create_local_peer_id S draw w
      in (local_peer_id,
          \<lparr>ss_agents = Map.empty,
           ss_shared = \<lparr>sh_reactor = reactor, sh_timer = \<lparr>tm_start = 0, tm_clients = []\<rparr>, sh_pieces = ph,
             sh_running = False, sh_notified = False, sh_world = w, sh_blocks = []\<rparr>\<rparr>))"

text \<open>The loop of \<open>start\<close> that makes the agents.\<close>

fun make_agents :: "('b, 'w) env \<Rightarrow> nat \<Rightarrow> peer_info list \<Rightarrow> ('b, 'w) sess \<Rightarrow> ('b, 'w) sess res" where
  "make_agents V k [] s = Inr s"
| "make_agents V k (peer # peers) s =
     res_bind (torrent_agent_ctor V k peer (ss_shared s)) (\<lambda>(a, sh).
       make_agents V (Suc k) peers (s\<lparr>ss_agents := (ss_agents s)(k \<mapsto> a), ss_shared := sh\<rparr>))"

text \<open>\<open>start\<close> up to the creation of the engine thread: whether the engine is to run.\<close>

definition start :: "('b, 'w) env \<Rightarrow> ('b, 'w) tenv \<Rightarrow> ('b, 'w) sess \<Rightarrow> (bool \<times> ('b, 'w) sess) res" where
  "start V T s =
     res_bind (tracker_announce T (en_ti V) PORT (en_peer_id V) [] (sh_world (ss_shared s))) (\<lambda>(ok, peers, w).
       let s = s\<lparr>ss_shared := (ss_shared s)\<lparr>sh_world := w\<rparr>\<rparr> in
       if \<not> ok then Inr (False, s)
       else res_bind (make_agents V 0 peers s) (\<lambda>s.
              Inr (True, s\<lparr>ss_shared := (ss_shared s)\<lparr>sh_running := True\<rparr>\<rparr>)))"

subsection \<open>The agents as clients of the reactor and of the timer\<close>

definition call_agent ::
  "(nat \<Rightarrow> ('b, 'w) ast \<Rightarrow> ('b, 'w) ast res) \<Rightarrow> nat \<Rightarrow> ('b, 'w) sess \<Rightarrow> ('b, 'w) sess res" where
  "call_agent f c s =
     (case ss_agents s c of
        None \<Rightarrow> Inl (Undefined ''no such agent'')
      | Some a \<Rightarrow> res_bind (f c (a, ss_shared s)) (\<lambda>(a, sh).
          Inr (s\<lparr>ss_agents := (ss_agents s)(c \<mapsto> a), ss_shared := sh\<rparr>)))"

definition get_timer :: "nat \<Rightarrow> ('b, 'w) sess \<Rightarrow> itimer" where
  "get_timer c s = (case ss_agents s c of None \<Rightarrow> \<lparr>timeout_ms = 0, elapsed = 0\<rparr> | Some a \<Rightarrow> ag_timer a)"

definition put_timer :: "nat \<Rightarrow> itimer \<Rightarrow> ('b, 'w) sess \<Rightarrow> ('b, 'w) sess" where
  "put_timer c it s =
     (case ss_agents s c of None \<Rightarrow> s
      | Some a \<Rightarrow> s\<lparr>ss_agents := (ss_agents s)(c \<mapsto> a\<lparr>ag_timer := it\<rparr>)\<rparr>)"

definition set_sess_world :: "'w \<Rightarrow> ('b, 'w) sess \<Rightarrow> ('b, 'w) sess" where
  "set_sess_world w s = s\<lparr>ss_shared := (ss_shared s)\<lparr>sh_world := w\<rparr>\<rparr>"

definition sess_poll :: "('b, 'w) env \<Rightarrow> ('b, 'w) sess \<Rightarrow> (int \<times> ('b, 'w) sess) res" where
  "sess_poll V s =
     poll (en_os V) (\<lambda>s. sh_reactor (ss_shared s)) (\<lambda>s. sh_world (ss_shared s)) set_sess_world
       (call_agent (agent_read V)) (call_agent (agent_write V)) s"

definition sess_tock :: "('b, 'w) env \<Rightarrow> ('b, 'w) sess \<Rightarrow> ('b, 'w) sess res" where
  "sess_tock V s =
     tock (en_os V) (\<lambda>s. sh_timer (ss_shared s)) (\<lambda>s. sh_world (ss_shared s)) set_sess_world
       get_timer put_timer (call_agent (agent_on_timeout V)) s"

text \<open>One round of \<open>engine\<close>, while it holds the mutex.\<close>

definition engine_round :: "('b, 'w) env \<Rightarrow> ('b, 'w) sess \<Rightarrow> ('b, 'w) sess res" where
  "engine_round V s =
     (let (t, w) = tick (en_os V) (sh_timer (ss_shared s)) (sh_world (ss_shared s));
          s = s\<lparr>ss_shared := (ss_shared s)\<lparr>sh_timer := t, sh_world := w\<rparr>\<rparr>
      in res_bind (sess_poll V s) (\<lambda>(poll_res, s).
         let s = (if poll_res < 0 then s\<lparr>ss_shared := stop (ss_shared s)\<rparr> else s)
         in res_bind (sess_tock V s) (\<lambda>s.
            Inr (s\<lparr>ss_shared := (ss_shared s)\<lparr>sh_notified := True\<rparr>\<rparr>))))"

end
