(* ===== verification/Session_Invariant.thy ===== *)
theory Session_Invariant
  imports Session
begin

section \<open>What every agent keeps\<close>

text \<open>
  Every call the reactor makes on an agent, whatever the peer sends, relates the states before
  and after it by \<open>agent_rel\<close>: the agent is registered under no descriptor but its own, no other
  agent gains a registration, the piece handler is only changed by its own operations, and the
  session is stopped only when the piece handler counts all pieces as written. The contracts of
  the reactor and of the timer are interpreted on the agents of a session.
\<close>

subsection \<open>Sequences of operations on the piece handler\<close>

text \<open>
  The parts of a state are whether the session has been stopped and the piece handler, as in
  \<open>ph_run\<close>, and the history of the payloads the piece handler received: what a sequence of operations
  adds to it are the payloads of its \<open>received\<close> operations.
\<close>

fun payload_of :: "'b ph_op \<Rightarrow> 'b list" where
  "payload_of (Op_received pc) = [pc]"
| "payload_of _ = []"

definition payloads :: "'b ph_op list \<Rightarrow> 'b list" where
  "payloads ops = concat (map payload_of ops)"

lemma payloads_simps [simp]:
  "payloads [] = []" "payloads (op # ops) = payload_of op @ payloads ops" "payloads (xs @ ys) = payloads xs @ payloads ys"
  by (simp_all add: payloads_def)

lemma payloads_set: "pc \<in> set (payloads ops) \<longleftrightarrow> Op_received pc \<in> set ops"
proof (induction ops)
  case (Cons op ops)
  then show ?case by (cases op) auto
qed simp

type_synonym 'b history = "bool \<times> 'b piece_handler \<times> 'b list"

definition ph_runs :: "('b, 'w) env \<Rightarrow> 'b history \<Rightarrow> 'b history \<Rightarrow> bool" where
  "ph_runs V = (\<lambda>(st, ph, l) (st', ph', l').
     \<exists>ops. ph_run (en_ext V) (en_ti V) ops (st, ph) = (st', ph') \<and> l' = l @ payloads ops)"

lemma ph_runs_refl [simp]: "ph_runs V s s"
  unfolding ph_runs_def by (auto intro!: exI [of _ "[]"] split: prod.split)

lemma ph_runs_trans:
  assumes "ph_runs V a b" "ph_runs V b c"
  shows "ph_runs V a c"
proof -
  obtain st ph l where a: "a = (st, ph, l)" by (cases a)
  obtain st' ph' l' where b: "b = (st', ph', l')" by (cases b)
  obtain st'' ph'' l'' where c: "c = (st'', ph'', l'')" by (cases c)
  obtain xs ys where "ph_run (en_ext V) (en_ti V) xs (st, ph) = (st', ph')" "l' = l @ payloads xs"
    "ph_run (en_ext V) (en_ti V) ys (st', ph') = (st'', ph'')" "l'' = l' @ payloads ys"
    using assms by (auto simp: ph_runs_def a b c)
  then show ?thesis unfolding ph_runs_def a c by (auto intro!: exI [of _ "xs @ ys"] simp: ph_run_append)
qed

lemma ph_runs_step:
  "ph_step (en_ext V) (en_ti V) op ph = (halt, ph') \<Longrightarrow> ph_runs V (s, ph, l) (s \<or> halt, ph', l @ payload_of op)"
  unfolding ph_runs_def by (auto intro!: exI [of _ "[op]"])

lemma take_requests_runs:
  "take_requests (get_piece_request (en_ext V) (en_ti V) pid) n ph = (rs, ph') \<Longrightarrow> ph_runs V (s, ph, l) (s, ph', l)"
proof (induction n arbitrary: ph rs ph')
  case (Suc n)
  obtain f r ph1 where g: "get_piece_request (en_ext V) (en_ti V) pid ph = ((f, r), ph1)" by (metis prod.exhaust)
  have 1: "ph_runs V (s, ph, l) (s, ph1, l)"
    using ph_runs_step [of V "Op_get_request pid" ph False ph1 s l] g by simp
  show ?case
  proof (cases f)
    case True
    then obtain rs1 where "take_requests (get_piece_request (en_ext V) (en_ti V) pid) n ph1 = (rs1, ph')"
      using Suc.prems g by (auto split: prod.splits)
    then show ?thesis using 1 Suc.IH ph_runs_trans by blast
  next
    case False
    then show ?thesis using Suc.prems g 1 by auto
  qed
qed simp

subsection \<open>The relation\<close>

abbreviation rcl :: "('b, 'w) ast \<Rightarrow> int \<rightharpoonup> nat" where
  "rcl st \<equiv> rc_clients (sh_reactor (snd st))"

abbreviation progress :: "('b, 'w) shared \<Rightarrow> 'b history" where
  "progress sh \<equiv> (\<not> sh_running sh, sh_pieces sh, sh_blocks sh)"

definition own :: "nat \<Rightarrow> ('b, 'w) ast \<Rightarrow> bool" where
  "own me st \<longleftrightarrow> (\<forall>fd. rcl st fd = Some me \<longrightarrow> ag_socket (fst st) = fd)"

definition agent_rel :: "('b, 'w) env \<Rightarrow> nat \<Rightarrow> ('b, 'w) ast \<Rightarrow> ('b, 'w) ast \<Rightarrow> bool" where
  "agent_rel V me st st' \<longleftrightarrow>
     (own me st \<longrightarrow> own me st') \<and>
     (\<forall>fd c. c \<noteq> me \<and> rcl st' fd = Some c \<longrightarrow> rcl st fd = Some c) \<and>
     set (tm_clients (sh_timer (snd st'))) \<subseteq> insert me (set (tm_clients (sh_timer (snd st)))) \<and>
     ph_runs V (progress (snd st)) (progress (snd st'))"

lemma agent_rel_refl [simp]: "agent_rel V me st st"
  by (simp add: agent_rel_def subset_insertI)

lemma agent_rel_trans [trans]: "agent_rel V me a b \<Longrightarrow> agent_rel V me b c \<Longrightarrow> agent_rel V me a c"
  unfolding agent_rel_def using ph_runs_trans by blast

text \<open>A change of the agent's own fields other than the socket, and of the world.\<close>

lemma agent_rel_fields:
  assumes "ag_socket a' = ag_socket a" "sh_reactor sh' = sh_reactor sh" "sh_pieces sh' = sh_pieces sh"
    and "sh_running sh' = sh_running sh" "sh_timer sh' = sh_timer sh" "sh_blocks sh' = sh_blocks sh"
  shows "agent_rel V me (a, sh) (a', sh')"
  using assms by (simp add: agent_rel_def own_def subset_insertI)

lemma reg_self_rel: "agent_rel V me st (reg_self V me ev st)"
proof -
  obtain a sh where st: "st = (a, sh)" by (cases st)
  obtain ok r e w where g: "reg (en_os V) (sh_reactor sh) me (ag_socket a) (ag_events a) ev (sh_world sh) = (ok, r, e, w)"
    by (metis prod_cases4)
  have "rc_clients r = rc_clients (sh_reactor sh) \<or> rc_clients r = (rc_clients (sh_reactor sh))(ag_socket a \<mapsto> me)"
    using g by (auto simp: reg_def Let_def split: option.splits prod.splits if_splits)
  then show ?thesis
    by (auto simp: st reg_self_def g agent_rel_def own_def split: if_splits)
qed

lemma unreg_self_rel: "agent_rel V me st (unreg_self V ev st)"
proof -
  obtain a sh where st: "st = (a, sh)" by (cases st)
  obtain ok r e w where g: "unreg (en_os V) (sh_reactor sh) (ag_socket a) (ag_events a) ev (sh_world sh) = (ok, r, e, w)"
    by (metis prod_cases4)
  have "rc_clients r = rc_clients (sh_reactor sh) \<or> rc_clients r = (rc_clients (sh_reactor sh))(ag_socket a := None)"
    using g by (auto simp: unreg_def Let_def split: option.splits prod.splits if_splits)
  then show ?thesis
    by (auto simp: st unreg_self_def g agent_rel_def own_def split: if_splits)
qed

lemma reg_self_after:
  assumes "ag_socket a' = ag_socket a"
  shows "agent_rel V me (a, sh) (reg_self V me ev (a', sh))"
  using agent_rel_trans [OF agent_rel_fields [of a' a sh sh V me] reg_self_rel] assms by simp

lemma agent_disconnected_rel: "agent_rel V me st (agent_disconnected V me st)"
proof -
  obtain a sh where st: "st = (a, sh)" by (cases st)
  obtain ok r e w where g: "unreg (en_os V) (sh_reactor sh) (ag_socket a) (ag_events a) 0 (sh_world sh) = (ok, r, e, w)"
    by (metis prod_cases4)
  have "rc_clients r = (rc_clients (sh_reactor sh))(ag_socket a := None)"
    using g by (auto simp: unreg_def split: prod.splits)
  then show ?thesis
    by (auto simp: st agent_disconnected_def unreg_self_def g agent_rel_def own_def timer_reg_def Let_def
        split: prod.split if_splits)
qed

lemma request_pieces_rel: "agent_rel V me st (request_pieces V me st)"
proof -
  obtain a sh where st: "st = (a, sh)" by (cases st)
  obtain rs ph where t: "take_requests (get_piece_request (en_ext V) (en_ti V) (peer_id (ag_peer a))) MAX_BURST (sh_pieces sh) = (rs, ph)"
    by fastforce
  let ?st = "(a\<lparr>ag_send_queue := ag_send_queue a @ map (new_request (ex_bb (en_ext V))) rs\<rparr>, sh\<lparr>sh_pieces := ph\<rparr>)"
  have "agent_rel V me st ?st"
    using take_requests_runs [OF t] by (simp add: st agent_rel_def own_def subset_insertI)
  then have "agent_rel V me st (if rs \<noteq> [] then reg_self V me EPOLLOUT ?st else ?st)"
    using agent_rel_trans [OF _ reg_self_rel, of V me st ?st EPOLLOUT] by (cases "rs = []") simp_all
  then show ?thesis by (cases "ag_choked a") (simp_all only: st request_pieces_eq t Let_def prod.case if_True if_False agent_rel_refl not_False_eq_True)
qed

lemma sm_on_event_rel:
  assumes "ev \<noteq> EV_START"
  shows "agent_rel V me st (sm_on_event V me ev st)"
proof -
  obtain a sh where st: "st = (a, sh)" by (cases st)
  have "agent_rel V me (a, sh) (request_pieces V me (a', sh))"
    "agent_rel V me (a, sh) (agent_disconnected V me (a', sh))" if "ag_socket a' = ag_socket a" for a'
    using agent_rel_trans [OF agent_rel_fields [of a' a sh sh V me] request_pieces_rel]
      agent_rel_trans [OF agent_rel_fields [of a' a sh sh V me] agent_disconnected_rel] that by simp_all
  then show ?thesis
    using assms
    by (cases ev) (simp_all add: st reg_self_after sm_on_event.simps agent_handshake_def agent_interested_def
        agent_choked_def agent_unchoked_def agent_rel_fields Let_def)
qed

lemma handle_msg_rel: "agent_rel V me st (handle_msg V me m st)"
proof -
  obtain a sh where st: "st = (a, sh)" by (cases st)
  show ?thesis
  proof (cases "msg_id m")
    case BITFIELD
    obtain ok ph where h: "have_bitfield (en_ext V) (en_ti V) (peer_id (ag_peer a)) (msg_payload m) (sh_pieces sh) = (ok, ph)"
      by fastforce
    then have "ph_runs V (progress sh) (\<not> sh_running sh, ph, sh_blocks sh)"
      using ph_runs_step [of V "Op_bitfield (peer_id (ag_peer a)) (msg_payload m)" "sh_pieces sh" False ph
          "\<not> sh_running sh" "sh_blocks sh"]
      by simp
    then show ?thesis by (simp add: st BITFIELD handle_msg_def h agent_rel_def own_def subset_insertI)
  next
    case PIECE
    obtain stopped ph where r: "received (en_ext V) (en_ti V) (msg_payload m) (sh_pieces sh) = (stopped, ph)"
      by fastforce
    let ?sh1 = "sh\<lparr>sh_pieces := ph, sh_blocks := sh_blocks sh @ [msg_payload m]\<rparr>"
    let ?sh = "if stopped then stop ?sh1 else ?sh1"
    have "ph_runs V (progress sh) (\<not> sh_running sh \<or> stopped, ph, sh_blocks sh @ [msg_payload m])"
      using ph_runs_step [of V "Op_received (msg_payload m)" "sh_pieces sh" stopped ph "\<not> sh_running sh" "sh_blocks sh"] r
      by simp
    then have "agent_rel V me st (a, ?sh)" by (cases stopped) (simp_all add: st agent_rel_def own_def stop_def subset_insertI)
    then show ?thesis
      using agent_rel_trans [OF _ request_pieces_rel, of V me st "(a, ?sh)"]
      by (simp add: st PIECE handle_msg_def r Let_def)
  qed (simp_all add: st handle_msg_def sm_on_event_rel)
qed

lemma deliver_rel: "agent_rel V me st (deliver V me bs st)"
proof -
  obtain a sh where st: "st = (a, sh)" by (cases st)
  have "agent_rel V me (a, sh) (sm_on_event V me EV_HANDSHAKE (a\<lparr>ag_peer := p\<rparr>, sh))" for p
    by (rule agent_rel_trans [OF agent_rel_fields sm_on_event_rel]) simp_all
  then show ?thesis
    by (simp add: st deliver_def Let_def handle_msg_rel agent_rel_fields split: prod.split)
qed

lemma with_buf_rel: "agent_rel V me st (with_buf bs st)"
  by (cases st) (simp add: with_buf_pair agent_rel_fields)

lemma on_read_loop_rel: "on_read_loop fuel V me st = Inr st' \<Longrightarrow> agent_rel V me st st'"
proof (induction fuel arbitrary: st)
  case 0
  then show ?case by (subst (asm) on_read_loop_eq) (simp split: if_splits)
next
  case (Suc fuel)
  let ?s = "handle_slice V me (msg_len_of V st) st"
  have "agent_rel V me st ?s"
    unfolding handle_slice_eq by (rule agent_rel_trans [OF deliver_rel with_buf_rel])
  moreover have "on_read_loop fuel V me ?s = Inr st' \<or> st' = st"
    using Suc.prems by (subst (asm) on_read_loop_eq) (auto split: if_splits)
  ultimately show ?case using Suc.IH agent_rel_trans agent_rel_refl by metis
qed

lemma agent_read_rel:
  assumes "agent_read V me st = Inr st'"
  shows "agent_rel V me st st'"
proof -
  obtain a sh where st: "st = (a, sh)" by (cases st)
  let ?B = "ex_bb (en_ext V)"
  obtain res io w where t: "tcp_read ?B (en_os V) (ag_socket a) (bb_reset ?B (ag_io_buffer a)) (sh_world sh) = (res, io, w)"
    by (metis prod_cases3)
  let ?s0 = "(a\<lparr>ag_io_buffer := io\<rparr>, sh\<lparr>sh_world := w\<rparr>)"
  let ?s1 = "if res = 0 then sm_on_event V me EV_DISCONNECTED ?s0 else ?s0"
  have s1: "agent_rel V me st ?s1"
    unfolding st by (rule agent_rel_trans [of V me _ ?s0]) (simp_all add: agent_rel_fields sm_on_event_rel)
  have "st' = ?s1 \<or> on_read V me (ag_io_buffer (fst ?s1)) ?s1 = Inr st'"
    using assms by (simp add: agent_read_def st t Let_def split: if_splits)
  then show ?thesis
  proof
    assume "on_read V me (ag_io_buffer (fst ?s1)) ?s1 = Inr st'"
    then have "agent_rel V me ?s1 st'"
      unfolding on_read_eq by (intro agent_rel_trans [OF with_buf_rel on_read_loop_rel])
    then show ?thesis by (rule agent_rel_trans [OF s1])
  qed (use s1 in simp)
qed

lemma agent_write_rel:
  assumes "agent_write V me st = Inr st'"
  shows "agent_rel V me st st'"
proof -
  obtain a sh where st: "st = (a, sh)" by (cases st)
  have un: "agent_rel V me (a, sh) (unreg_self V EPOLLOUT (a', sh'))"
    and dis: "agent_rel V me (a, sh) (agent_disconnected V me (a', sh'))"
    and con: "agent_rel V me (a, sh) (sm_on_event V me EV_CONNECTED (unreg_self V EPOLLOUT (a', sh')))"
    and same: "agent_rel V me (a, sh) (a', sh')"
    if "ag_socket a' = ag_socket a" "sh_reactor sh' = sh_reactor sh" "sh_pieces sh' = sh_pieces sh"
      "sh_running sh' = sh_running sh" "sh_timer sh' = sh_timer sh" "sh_blocks sh' = sh_blocks sh" for a' sh'
  proof -
    note r = agent_rel_fields [OF that, of V me]
    show "agent_rel V me (a, sh) (a', sh')" by (rule r)
    show "agent_rel V me (a, sh) (unreg_self V EPOLLOUT (a', sh'))"
      "agent_rel V me (a, sh) (agent_disconnected V me (a', sh'))"
      "agent_rel V me (a, sh) (sm_on_event V me EV_CONNECTED (unreg_self V EPOLLOUT (a', sh')))"
      by (rule agent_rel_trans [OF r unreg_self_rel] agent_rel_trans [OF r agent_disconnected_rel]
          agent_rel_trans [OF agent_rel_trans [OF r unreg_self_rel] sm_on_event_rel], simp?)+
  qed
  show ?thesis
  proof (cases "ag_connected a")
    case True
    from assms True obtain emptied msgs w where
      wq: "write_queue V (ag_socket a) (ag_send_queue a) (sh_world sh) = Inr (emptied, msgs, w)"
      by (cases "write_queue V (ag_socket a) (ag_send_queue a) (sh_world sh)") (auto simp: st agent_write_def)
    then have "st' = (if emptied then unreg_self V EPOLLOUT (a\<lparr>ag_send_queue := msgs\<rparr>, sh\<lparr>sh_world := w\<rparr>)
        else (a\<lparr>ag_send_queue := msgs\<rparr>, sh\<lparr>sh_world := w\<rparr>))"
      using assms True by (simp add: st agent_write_def Let_def split: if_splits)
    then show ?thesis by (cases emptied) (simp_all add: st un same)
  next
    case False
    obtain ok err w where g: "getsockopt (en_os V) (ag_socket a) (sh_world sh) = (ok, err, w)" by (metis prod_cases3)
    let ?a = "a\<lparr>ag_connected := (err = 0)\<rparr>" and ?sh = "sh\<lparr>sh_world := w\<rparr>"
    have "st' \<in> {sm_on_event V me EV_CONNECTED (unreg_self V EPOLLOUT (?a, ?sh)),
        agent_disconnected V me (?a, ?sh), (a, ?sh)}"
      using assms False by (simp add: st agent_write_def g Let_def split: if_splits)
    then show ?thesis
      using con [of ?a ?sh] dis [of ?a ?sh] same [of a ?sh] unfolding st by (elim insertE emptyE) simp_all
  qed
qed

subsection \<open>The agents of a session as clients of the reactor\<close>

definition registrations_ok :: "('b, 'w) sess \<Rightarrow> bool" where
  "registrations_ok s \<longleftrightarrow>
     (\<forall>fd c. rc_clients (sh_reactor (ss_shared s)) fd = Some c \<longrightarrow>
        (\<exists>a. ss_agents s c = Some a \<and> ag_socket a = fd))"

definition timers_ok :: "('b, 'w) sess \<Rightarrow> bool" where
  "timers_ok s \<longleftrightarrow> (\<forall>c\<in>set (tm_clients (sh_timer (ss_shared s))). ss_agents s c \<noteq> None)"

definition sess_inv :: "('b, 'w) env \<Rightarrow> 'b history \<Rightarrow> ('b, 'w) sess \<Rightarrow> bool" where
  "sess_inv V p s \<longleftrightarrow> registrations_ok s \<and> timers_ok s \<and> ph_runs V p (progress (ss_shared s))"

lemma call_agent_cases:
  assumes "call_agent f c s = Inr s'"
  obtains a a' sh' where "ss_agents s c = Some a" "f c (a, ss_shared s) = Inr (a', sh')"
    "s' = s\<lparr>ss_agents := (ss_agents s)(c \<mapsto> a'), ss_shared := sh'\<rparr>"
  using assms by (auto simp: call_agent_def res_bind_eq_Inr split: option.splits)

lemma call_agent_rel:
  assumes f: "\<And>st st'. f c st = Inr st' \<Longrightarrow> agent_rel V c st st'"
    and inv: "sess_inv V p s" and call: "call_agent f c s = Inr s'"
  shows "sess_inv V p s'"
    and "rc_clients (sh_reactor (ss_shared s)) fd = Some c \<Longrightarrow> rc_clients (sh_reactor (ss_shared s')) fd \<noteq> None
      \<Longrightarrow> rc_clients (sh_reactor (ss_shared s')) fd = Some c"
proof -
  obtain a a' sh' where a: "ss_agents s c = Some a" and r: "f c (a, ss_shared s) = Inr (a', sh')"
    and s': "s' = s\<lparr>ss_agents := (ss_agents s)(c \<mapsto> a'), ss_shared := sh'\<rparr>"
    using call by (rule call_agent_cases)
  note rel = f [OF r, unfolded agent_rel_def]
  have "own c (a, ss_shared s)"
    using inv a unfolding sess_inv_def registrations_ok_def own_def by fastforce
  then have own: "own c (a', sh')" using rel by blast
  have other: "rc_clients (sh_reactor (ss_shared s)) fd = Some d"
    if "rc_clients (sh_reactor sh') fd = Some d" "d \<noteq> c" for fd d
    using rel that by auto
  have "registrations_ok s'"
    using inv own other unfolding sess_inv_def registrations_ok_def own_def s' by fastforce
  moreover have "ph_runs V p (progress (ss_shared s'))"
    using ph_runs_trans [of V p "progress (ss_shared s)" "progress sh'"] inv rel by (simp add: sess_inv_def s')
  moreover have "timers_ok s'"
    using inv rel unfolding sess_inv_def timers_ok_def s' by auto
  ultimately show "sess_inv V p s'" by (simp add: sess_inv_def)
  show "rc_clients (sh_reactor (ss_shared s')) fd = Some c"
    if "rc_clients (sh_reactor (ss_shared s)) fd = Some c" "rc_clients (sh_reactor (ss_shared s')) fd \<noteq> None"
    using that other [of fd] unfolding s' by (cases "rc_clients (sh_reactor sh') fd") force+
qed

interpretation agents: reactor_clients "\<lambda>s. rc_clients (sh_reactor (ss_shared s))"
  "call_agent (agent_read V)" "call_agent (agent_write V)" "sess_inv V p"
  by unfold_locales (rule call_agent_rel [OF agent_read_rel] call_agent_rel [OF agent_write_rel]; assumption)+

lemma sess_poll_inv:
  assumes "sess_inv V p s" "sess_poll V s = Inr (n, s')"
  shows "sess_inv V p s'"
proof -
  obtain nfds evs w where e: "sys_epoll_wait (en_os V) (rc_efd (sh_reactor (ss_shared s))) MAX_EVENTS
      (rc_wait_ms (sh_reactor (ss_shared s))) (sh_world (ss_shared s)) = (nfds, evs, w)"
    by (metis prod_cases3)
  have "sess_inv V p (set_sess_world w s)"
    using assms(1) by (simp add: sess_inv_def registrations_ok_def timers_ok_def set_sess_world_def)
  moreover have "poll_events (\<lambda>s. rc_clients (sh_reactor (ss_shared s))) (call_agent (agent_read V))
      (call_agent (agent_write V)) (take (nat nfds) evs) (set_sess_world w s) = Inr s'"
    using assms(2) by (auto simp: sess_poll_def poll_def e Let_def res_bind_eq_Inr)
  ultimately show ?thesis by (rule agents.poll_events_keeps)
qed

subsection \<open>The agents of a session as clients of the timer\<close>

abbreviation timed :: "('b, 'w) sess \<Rightarrow> nat list" where
  "timed s \<equiv> tm_clients (sh_timer (ss_shared s))"

interpretation timers: timer_clients timed get_timer put_timer "call_agent (agent_on_timeout V)"
  "\<lambda>s c. ss_agents s c \<noteq> None"
proof unfold_locales
  fix s s' :: "('a, 'b) sess" and c
  assume "call_agent (agent_on_timeout V) c s = Inr s'"
  then obtain a a' sh' where "agent_on_timeout V c (a, ss_shared s) = Inr (a', sh')"
    and "s' = s\<lparr>ss_agents := (ss_agents s)(c \<mapsto> a'), ss_shared := sh'\<rparr>"
    by (rule call_agent_cases)
  then show "c \<notin> set (timed s')" using agent_on_timeout_spec by fastforce
qed (auto simp: get_timer_def put_timer_def split: option.splits)

end
