(* ===== verification/Session_Run.thy ===== *)
theory Session_Run
  imports Session_Invariant
begin

section \<open>A session from its construction to its end\<close>

text \<open>
  The construction of the agents establishes the invariant of \<open>Session_Invariant\<close>, every
  round of the engine keeps it, and so whatever a whole session does to the piece handler is a
  sequence of the operations of \<open>piece_handler\<close>. The loop \<open>engine\<close> of \<open>src/session.cpp\<close> runs with
  fuel: only the peers and the operating system decide how many rounds it takes.
\<close>

fun engine :: "nat \<Rightarrow> ('b, 'w) env \<Rightarrow> ('b, 'w) sess \<Rightarrow> ('b, 'w) sess res" where
  "engine 0 V s = (if sh_running (ss_shared s) then Inl Out_of_fuel else Inr s)"
| "engine (Suc fuel) V s =
     (if sh_running (ss_shared s) then res_bind (engine_round V s) (engine fuel V) else Inr s)"

subsection \<open>The construction of the agents\<close>

lemma agent_connect_keeps:
  "sh_pieces (snd (agent_connect V me st)) = sh_pieces (snd st)"
  "sh_running (snd (agent_connect V me st)) = sh_running (snd st)"
  "sh_blocks (snd (agent_connect V me st)) = sh_blocks (snd st)"
  by (cases st; simp add: agent_connect.simps sm_on_event.simps agent_handshake_def Let_def frame_simps split: prod.split)+

lemma agent_connect_rel: "agent_rel V me st (agent_connect V me st)"
proof -
  obtain a sh where st: "st = (a, sh)" by (cases st)
  obtain conn w where c: "tcp_connect (en_os V) (ag_socket a) (peer_endpoint (ag_peer a)) (sh_world sh) = (conn, w)"
    by fastforce
  let ?s = "(a\<lparr>ag_connected := conn, ag_attempts := ag_attempts a + 1\<rparr>, sh\<lparr>sh_world := w\<rparr>)"
  have s: "agent_rel V me st ?s" by (simp add: st agent_rel_fields)
  have "agent_rel V me st (if conn then sm_on_event V me EV_CONNECTED ?s else reg_self V me EPOLLOUT ?s)"
    by (simp only: agent_rel_trans [OF s reg_self_rel] agent_rel_trans [OF s sm_on_event_rel]
        session_event.distinct if_split simp_thms not_False_eq_True)
  then show ?thesis by (simp add: st agent_connect.simps c Let_def)
qed

lemma agent_start_rel:
  "agent_rel V me st (agent_start V me st)"
  "sh_pieces (snd (agent_start V me st)) = sh_pieces (snd st)"
  "sh_running (snd (agent_start V me st)) = sh_running (snd st)"
  "sh_blocks (snd (agent_start V me st)) = sh_blocks (snd st)"
proof -
  obtain a sh where st: "st = (a, sh)" by (cases st)
  have eq: "agent_start V me st = agent_connect V me (a\<lparr>ag_sm := ST_STARTED\<rparr>, sh)"
    by (simp add: st agent_start_def sm_on_event.simps)
  show "sh_pieces (snd (agent_start V me st)) = sh_pieces (snd st)"
    "sh_running (snd (agent_start V me st)) = sh_running (snd st)"
    "sh_blocks (snd (agent_start V me st)) = sh_blocks (snd st)"
    unfolding eq agent_connect_keeps by (simp_all add: st)
  show "agent_rel V me st (agent_start V me st)"
    unfolding eq unfolding st by (rule agent_rel_trans [OF agent_rel_fields agent_connect_rel]) simp_all
qed

lemma torrent_agent_ctor_rel:
  assumes "torrent_agent_ctor V me info sh = Inr (a, sh')"
  obtains a0 where "agent_rel V me (a0, sh) (a, sh')" "sh_pieces sh' = sh_pieces sh" "sh_running sh' = sh_running sh"
    "sh_blocks sh' = sh_blocks sh"
proof -
  obtain a0 w where eq: "agent_start V me (reg_self V me EPOLLIN (a0, sh\<lparr>sh_world := w\<rparr>)) = (a, sh')"
    using assms by (cases "tcp_socket_ctor (en_os V) (sh_world sh)")
      (auto simp: torrent_agent_ctor_def Let_def split: prod.splits)
  have "agent_rel V me (a0, sh) (reg_self V me EPOLLIN (a0, sh\<lparr>sh_world := w\<rparr>))"
    by (rule agent_rel_trans [OF agent_rel_fields reg_self_rel]) simp_all
  then have "agent_rel V me (a0, sh) (a, sh')"
    unfolding eq [symmetric] by (rule agent_rel_trans [OF _ agent_start_rel(1)])
  moreover have "sh_pieces sh' = sh_pieces sh" "sh_running sh' = sh_running sh" "sh_blocks sh' = sh_blocks sh"
    using agent_start_rel(2-4) [of V me "reg_self V me EPOLLIN (a0, sh\<lparr>sh_world := w\<rparr>)"]
    by (simp_all add: eq frame_simps)
  ultimately show ?thesis by (rule that)
qed

definition unborn :: "nat \<Rightarrow> ('b, 'w) sess \<Rightarrow> bool" where
  "unborn k s \<longleftrightarrow> (\<forall>j\<ge>k. ss_agents s j = None)"

lemma make_agents_ok:
  assumes "make_agents V k peers s = Inr s'" "registrations_ok s" "timers_ok s" "unborn k s"
  shows "registrations_ok s' \<and> timers_ok s' \<and> sh_pieces (ss_shared s') = sh_pieces (ss_shared s)
     \<and> sh_running (ss_shared s') = sh_running (ss_shared s) \<and> sh_blocks (ss_shared s') = sh_blocks (ss_shared s)
     \<and> (\<forall>j. ss_agents s' j \<noteq> None \<longleftrightarrow> ss_agents s j \<noteq> None \<or> j \<in> {k..<k + length peers})"
  using assms
proof (induction peers arbitrary: k s)
  case (Cons peer peers)
  obtain a sh where c: "torrent_agent_ctor V k peer (ss_shared s) = Inr (a, sh)"
    and rest: "make_agents V (Suc k) peers (s\<lparr>ss_agents := (ss_agents s)(k \<mapsto> a), ss_shared := sh\<rparr>) = Inr s'"
    using Cons.prems(1) by (auto simp: res_bind_eq_Inr)
  let ?s = "s\<lparr>ss_agents := (ss_agents s)(k \<mapsto> a), ss_shared := sh\<rparr>"
  obtain a0 where rel: "agent_rel V k (a0, ss_shared s) (a, sh)"
    and same: "sh_pieces sh = sh_pieces (ss_shared s)" "sh_running sh = sh_running (ss_shared s)"
      "sh_blocks sh = sh_blocks (ss_shared s)"
    using c by (rule torrent_agent_ctor_rel)
  have none: "ss_agents s k = None" using Cons.prems(4) by (simp add: unborn_def)
  then have "own k (a0, ss_shared s)"
    using Cons.prems(2) by (fastforce simp: registrations_ok_def own_def)
  then have "registrations_ok ?s" "timers_ok ?s"
    using rel Cons.prems(2,3) none unfolding agent_rel_def registrations_ok_def timers_ok_def own_def by fastforce+
  moreover have "unborn (Suc k) ?s" using Cons.prems(4) by (simp add: unborn_def)
  ultimately have "registrations_ok s' \<and> timers_ok s' \<and> sh_pieces (ss_shared s') = sh_pieces (ss_shared ?s)
     \<and> sh_running (ss_shared s') = sh_running (ss_shared ?s) \<and> sh_blocks (ss_shared s') = sh_blocks (ss_shared ?s)
     \<and> (\<forall>j. ss_agents s' j \<noteq> None \<longleftrightarrow> ss_agents ?s j \<noteq> None \<or> j \<in> {Suc k..<Suc k + length peers})"
    by (rule Cons.IH [OF rest])
  moreover have "ss_agents ?s j \<noteq> None \<or> j \<in> {Suc k..<Suc k + length peers} \<longleftrightarrow>
      ss_agents s j \<noteq> None \<or> j \<in> {k..<k + length (peer # peers)}" for j by auto
  ultimately show ?case using same by simp
qed simp

lemma start_inv:
  assumes "start V T s = Inr (True, s')" "ss_agents s = Map.empty" "registrations_ok s" "timers_ok s"
  shows "sess_inv V (False, sh_pieces (ss_shared s), sh_blocks (ss_shared s)) s' \<and> sh_running (ss_shared s')"
proof -
  obtain peers w s1 where m: "make_agents V 0 peers (s\<lparr>ss_shared := (ss_shared s)\<lparr>sh_world := w\<rparr>\<rparr>) = Inr s1"
    and s': "s' = s1\<lparr>ss_shared := (ss_shared s1)\<lparr>sh_running := True\<rparr>\<rparr>"
    using assms(1) by (auto simp: start_def Let_def res_bind_eq_Inr split: prod.splits if_splits)
  have "registrations_ok s1 \<and> timers_ok s1 \<and> sh_pieces (ss_shared s1) = sh_pieces (ss_shared s)
      \<and> sh_blocks (ss_shared s1) = sh_blocks (ss_shared s)"
    using make_agents_ok [OF m] assms(2-4) by (auto simp: registrations_ok_def timers_ok_def unborn_def)
  then show ?thesis by (simp add: s' sess_inv_def registrations_ok_def timers_ok_def)
qed

subsection \<open>The engine\<close>

lemma put_timer_keeps: "ss_shared (put_timer c it s) = ss_shared s"
  "map_option ag_socket (ss_agents (put_timer c it s) d) = map_option ag_socket (ss_agents s d)"
  by (auto simp: put_timer_def split: option.splits)

lemma sess_inv_here: "registrations_ok s \<Longrightarrow> timers_ok s \<Longrightarrow> sess_inv V (progress (ss_shared s)) s"
  by (simp add: sess_inv_def)

lemma sess_inv_frame:
  assumes "sess_inv V p s" "rc_clients (sh_reactor (ss_shared s')) = rc_clients (sh_reactor (ss_shared s))"
    and "timed s' = timed s" "\<forall>d. map_option ag_socket (ss_agents s' d) = map_option ag_socket (ss_agents s d)"
    and "progress (ss_shared s') = progress (ss_shared s)"
  shows "sess_inv V p s'"
proof -
  have "ss_agents s' d \<noteq> None" if "ss_agents s d \<noteq> None" for d
    using assms(4) that by (metis option.map_disc_iff)
  moreover have "\<exists>a. ss_agents s' d = Some a \<and> ag_socket a = fd" if "\<exists>a. ss_agents s d = Some a \<and> ag_socket a = fd" for d fd
    using assms(4) that by (metis map_option_eq_Some)
  ultimately show ?thesis
    using assms(1,2,3,5) unfolding sess_inv_def registrations_ok_def timers_ok_def by simp
qed

lemma sess_tock_keeps:
  fixes s :: "('b, 'w) sess"
  assumes "sess_tock V s = Inr s'" "timers_ok s"
  shows "\<exists>w. ss_shared s' = (ss_shared s)\<lparr>sh_world := w\<rparr>"
    and "map_option ag_socket (ss_agents s' d) = map_option ag_socket (ss_agents s d)"
proof -
  obtain now w where n: "sys_now (en_os V) (sh_world (ss_shared s)) = (now, w)" by fastforce
  let ?ms = "to_ms (now - tm_start (sh_timer (ss_shared (set_sess_world w s))))"
  let ?f = "\<lambda>c (s :: ('b, 'w) sess). put_timer c ((get_timer c s)\<lparr>elapsed := fl32 (elapsed (get_timer c s) + fl32 ?ms)\<rparr>) s"
  have "tock_loop timed get_timer put_timer (call_agent (agent_on_timeout V)) ?ms
      (timed (set_sess_world w s)) (set_sess_world w s) = Inr s'"
    using assms(1) by (simp add: sess_tock_def tock_def n Let_def)
  then have s': "s' = fold ?f (timed (set_sess_world w s)) (set_sess_world w s)"
    using assms(2) by (intro timers.tock_loop_only_adds) (auto simp: timers_ok_def set_sess_world_def)
  have "ss_shared (fold ?f cs t) = ss_shared t" for cs t
    by (induction cs arbitrary: t) (simp_all add: put_timer_keeps)
  then show "\<exists>w. ss_shared s' = (ss_shared s)\<lparr>sh_world := w\<rparr>" unfolding s' by (intro exI [of _ w]) (simp add: set_sess_world_def)
  have "map_option ag_socket (ss_agents (fold ?f cs t) d) = map_option ag_socket (ss_agents t d)" for cs t
    by (induction cs arbitrary: t) (simp_all add: put_timer_keeps)
  then show "map_option ag_socket (ss_agents s' d) = map_option ag_socket (ss_agents s d)"
    unfolding s' by (simp add: set_sess_world_def)
qed

text \<open>
  The states at the start of the rounds of an engine, and whether \<open>poll\<close> reports an error in a round:
  then the engine stops the session itself.
\<close>

inductive engine_reach :: "('b, 'w) env \<Rightarrow> ('b, 'w) sess \<Rightarrow> ('b, 'w) sess \<Rightarrow> bool" for V where
  engine_here: "engine_reach V s s"
| engine_later: "sh_running (ss_shared s) \<Longrightarrow> engine_round V s = Inr t \<Longrightarrow> engine_reach V t u \<Longrightarrow> engine_reach V s u"

definition ticked :: "('b, 'w) env \<Rightarrow> ('b, 'w) sess \<Rightarrow> ('b, 'w) sess" where
  "ticked V s =
     (let (t, w) = tick (en_os V) (sh_timer (ss_shared s)) (sh_world (ss_shared s))
      in s\<lparr>ss_shared := (ss_shared s)\<lparr>sh_timer := t, sh_world := w\<rparr>\<rparr>)"

definition poll_fails :: "('b, 'w) env \<Rightarrow> ('b, 'w) sess \<Rightarrow> bool" where
  "poll_fails V s \<longleftrightarrow> (case sess_poll V (ticked V s) of Inl _ \<Rightarrow> False | Inr (n, _) \<Rightarrow> n < 0)"

lemma ticked_inv: "sess_inv V p s \<Longrightarrow> sess_inv V p (ticked V s)"
  by (erule sess_inv_frame) (simp_all add: ticked_def tick_def split: prod.splits)

lemma engine_round_inv:
  assumes "engine_round V s = Inr s'" "sess_inv V p s"
  shows "\<not> poll_fails V s \<Longrightarrow> sess_inv V p s'"
    and "poll_fails V s \<Longrightarrow> \<not> sh_running (ss_shared s') \<and> (\<exists>st. ph_runs V p (st, sh_pieces (ss_shared s'), sh_blocks (ss_shared s')))"
proof -
  obtain n s2 s3 where p: "sess_poll V (ticked V s) = Inr (n, s2)"
    and k: "sess_tock V (if n < 0 then s2\<lparr>ss_shared := stop (ss_shared s2)\<rparr> else s2) = Inr s3"
    and s': "s' = s3\<lparr>ss_shared := (ss_shared s3)\<lparr>sh_notified := True\<rparr>\<rparr>"
    using assms(1) by (auto simp: engine_round_def ticked_def Let_def res_bind_eq_Inr split: prod.splits)
  have f: "poll_fails V s \<longleftrightarrow> n < 0" by (simp add: poll_fails_def p)
  have 2: "sess_inv V p s2" by (rule sess_poll_inv [OF ticked_inv [OF assms(2)] p])
  let ?s = "if n < 0 then s2\<lparr>ss_shared := stop (ss_shared s2)\<rparr> else s2"
  have "timers_ok ?s" using 2 by (simp add: sess_inv_def timers_ok_def stop_def)
  note k = sess_tock_keeps [OF k this]
  obtain w3 where w: "ss_shared s3 = (ss_shared ?s)\<lparr>sh_world := w3\<rparr>" using k(1) by blast
  show "sess_inv V p s'" if "\<not> poll_fails V s"
    using that w k(2) unfolding f s' by (intro sess_inv_frame [OF 2]) simp_all
  show "\<not> sh_running (ss_shared s') \<and> (\<exists>st. ph_runs V p (st, sh_pieces (ss_shared s'), sh_blocks (ss_shared s')))"
    if "poll_fails V s"
  proof -
    have "ph_runs V p (progress (ss_shared s2))" using 2 by (simp add: sess_inv_def)
    then show ?thesis using that w unfolding f s' by (auto simp: stop_def)
  qed
qed

lemma engine_inv:
  assumes "engine fuel V s = Inr s'" "sess_inv V p s"
  shows "\<not> sh_running (ss_shared s') \<and> (\<exists>st. ph_runs V p (st, sh_pieces (ss_shared s'), sh_blocks (ss_shared s'))
     \<and> (st \<or> (\<exists>t. engine_reach V s t \<and> sh_running (ss_shared t) \<and> poll_fails V t)))"
  using assms
proof (induction fuel arbitrary: s)
  case 0
  then have "s' = s" "\<not> sh_running (ss_shared s)" by (auto split: if_splits)
  then show ?case using "0.prems"(2) by (auto simp: sess_inv_def)
next
  case (Suc fuel)
  show ?case
  proof (cases "sh_running (ss_shared s)")
    case True
    then obtain s1 where s1: "engine_round V s = Inr s1" "engine fuel V s1 = Inr s'"
      using Suc.prems(1) by (auto simp: res_bind_eq_Inr)
    note r = engine_round_inv [OF s1(1) Suc.prems(2)]
    show ?thesis
    proof (cases "poll_fails V s")
      case fails: True
      then have "\<not> sh_running (ss_shared s1)" using r(2) by blast
      then have "s' = s1" using s1(2) by (cases fuel) simp_all
      then show ?thesis using r(2) [OF fails] fails True engine_here [of V s] by blast
    next
      case False
      show ?thesis using Suc.IH [OF s1(2) r(1) [OF False]] engine_later [OF True s1(1)] by blast
    qed
  next
    case False
    then show ?thesis using Suc.prems by (auto simp: sess_inv_def)
  qed
qed

lemma random_chars_spec:
  assumes "\<forall>r. draw r (length alphanum - 1) < length alphanum"
  shows "length (fst (random_chars S draw n w)) = n \<and> set (fst (random_chars S draw n w)) \<subseteq> set alphanum"
  using assms by (induction n arbitrary: w) (simp_all add: Let_def case_prod_beta)

definition small_sess :: "nat list \<Rightarrow> (int \<times> u32) list list \<Rightarrow> byte list list \<Rightarrow> int \<Rightarrow> (lbuf, script) sess" where
  "small_sess cs rdy chunks clock =
     \<lparr>ss_agents = [0 \<mapsto> (small_agent ST_CHOKED)\<lparr>ag_timer := \<lparr>timeout_ms = 5000, elapsed = 0\<rparr>\<rparr>],
      ss_shared = small_shared\<lparr>sh_timer := \<lparr>tm_start = 0, tm_clients = cs\<rparr>,
        sh_world := script_start\<lparr>sc_ready := rdy, sc_in := chunks, sc_clock := clock\<rparr>\<rparr>\<rparr>"

lemma small_sess_ok: "registrations_ok (small_sess [] rdy chunks clock)" "timers_ok (small_sess [] rdy chunks clock)"
  by (simp_all add: registrations_ok_def timers_ok_def small_sess_def small_shared_def small_agent_def)

subsection \<open>Properties\<close>

text \<open>C18: whatever the peers send and however the descriptors become ready, one call of \<open>poll\<close> by
  a session acts on the piece handler exactly as some sequence of the piece handler's own
  operations, the session is stopped in it exactly when one of them told it to stop, and
  afterwards every descriptor the reactor knows is the socket of the agent it is registered for.\<close>

theorem poll_refines_piece_operations:
  assumes "registrations_ok s" "timers_ok s" "sess_poll V s = Inr (n, s')"
  shows "registrations_ok s' \<and>
     (\<exists>ops. ph_run (en_ext V) (en_ti V) ops (\<not> sh_running (ss_shared s), sh_pieces (ss_shared s))
        = (\<not> sh_running (ss_shared s'), sh_pieces (ss_shared s')))"
  using sess_poll_inv [OF sess_inv_here [OF assms(1,2)] assms(3)] by (auto simp: sess_inv_def ph_runs_def)

theorem poll_refines_piece_operations_witness:
  "\<exists>n s'. sess_poll small_V (small_sess [] [[(5, EPOLLIN)]] [frame BITFIELD [0x80]] 0) = Inr (n, s')
     \<and> ph_have (sh_pieces (ss_shared s')) \<noteq> ph_have (sh_pieces (ss_shared (small_sess [] [] [] 0)))
     \<and> registrations_ok s'"
proof -
  let ?r = "sess_poll small_V (small_sess [] [[(5, EPOLLIN)]] [frame BITFIELD [0x80]] 0)"
  have "\<not> isl ?r" "ph_have (sh_pieces (ss_shared (snd (projr ?r)))) [] \<noteq> ph_have (sh_pieces (ss_shared (small_sess [] [] [] 0))) []"
    by code_simp+
  then obtain n s' where r: "?r = Inr (n, s')"
    "ph_have (sh_pieces (ss_shared s')) [] \<noteq> ph_have (sh_pieces (ss_shared (small_sess [] [] [] 0))) []"
    by (metis not_isl_Inr surjective_pairing snd_conv sum.sel(2))
  show ?thesis
    using poll_refines_piece_operations [OF small_sess_ok r(1)] r by (intro exI conjI) auto
qed

text \<open>C35: \<open>tock\<close> walks the vector of clients with an iterator while a client whose timeout has passed
  unregisters itself from that vector: for a session whose registered clients are distinct agents,
  \<open>tock\<close> has defined behaviour exactly when no timeout has passed. So no agent that lost its peer
  ever reconnects by a defined execution.\<close>

theorem tock_defined_iff_none_expired:
  assumes "timers_ok s" "distinct (timed s)" "sys_now (en_os V) (sh_world (ss_shared s)) = (now, w)"
  shows "(\<exists>s'. sess_tock V s = Inr s') \<longleftrightarrow>
     (\<forall>c\<in>set (timed s).
        fl32 (elapsed (get_timer c s) + fl32 (to_ms (now - tm_start (sh_timer (ss_shared s))))) < timeout_ms (get_timer c s))"
proof -
  let ?s = "set_sess_world w s"
  have "\<forall>d\<in>set (timed ?s). ss_agents ?s d \<noteq> None \<and> d \<in> set (timed ?s)" "distinct (timed ?s)"
    using assms(1,2) by (simp_all add: set_sess_world_def timers_ok_def)
  from timers.tock_loop_ends_iff [OF this(2,1), of V "to_ms (now - tm_start (sh_timer (ss_shared s)))"]
  show ?thesis by (simp add: sess_tock_def tock_def assms(3) Let_def set_sess_world_def get_timer_def)
qed

theorem tock_defined_iff_none_expired_witness:
  "(\<nexists>s'. sess_tock small_V (small_sess [0] [] [] 5000000000) = Inr s') \<and>
   (\<exists>s'. sess_tock small_V (small_sess [0] [] [] 4999000000) = Inr s')"
proof -
  have t: "timers_ok (small_sess [0] [] [] k)" "distinct (timed (small_sess [0] [] [] k))"
    "get_timer 0 (small_sess [0] [] [] k) = \<lparr>timeout_ms = 5000, elapsed = 0\<rparr>" "timed (small_sess [0] [] [] k) = [0]"
    "tm_start (sh_timer (ss_shared (small_sess [0] [] [] k))) = 0" for k
    by (simp_all add: timers_ok_def small_sess_def get_timer_def)
  have n: "sys_now (en_os small_V) (sh_world (ss_shared (small_sess [0] [] [] 5000000000)))
      = (5000000000, snd (sys_now script_os (sh_world (ss_shared (small_sess [0] [] [] 5000000000)))))"
    "sys_now (en_os small_V) (sh_world (ss_shared (small_sess [0] [] [] 4999000000)))
      = (4999000000, snd (sys_now script_os (sh_world (ss_shared (small_sess [0] [] [] 4999000000)))))"
    by (simp_all add: script_os_def small_sess_def)
  show ?thesis
    using tock_defined_iff_none_expired [OF t(1,2) n(1)] tock_defined_iff_none_expired [OF t(1,2) n(2)]
    by (simp add: t to_ms_def)
qed

text \<open>C3: for a session whose reactor and timer refer to its agents, if the engine comes to its end then
  the session is stopped, all the engine did to the piece handler is some sequence of the piece
  handler's operations, with exactly the blocks that the peers sent in their order, and either one
  of these operations told the session to stop, or \<open>poll\<close> failed in some round of this engine. So
  what the theorems on sequences of operations say holds of every session.\<close>

theorem engine_refines_piece_operations:
  assumes "registrations_ok s" "timers_ok s" "sh_running (ss_shared s)" "engine fuel V s = Inr s'"
  shows "\<not> sh_running (ss_shared s') \<and>
     (\<exists>ops told. ph_run (en_ext V) (en_ti V) ops (False, sh_pieces (ss_shared s)) = (told, sh_pieces (ss_shared s'))
        \<and> sh_blocks (ss_shared s') = sh_blocks (ss_shared s) @ payloads ops
        \<and> (told \<or> (\<exists>t. engine_reach V s t \<and> sh_running (ss_shared t) \<and> poll_fails V t)))"
  using engine_inv [OF assms(4) sess_inv_here [OF assms(1,2)]] assms(3) unfolding ph_runs_def by auto

theorem engine_refines_piece_operations_witness:
  "\<exists>s' ops told. engine 3 small_V (small_sess [] [[(5, EPOLLIN)]] [frame BITFIELD [0x80] @ frame PIECE [0, 0, 0, 0, 0, 0, 0, 0, 1, 2, 3]] 0)
       = Inr s' \<and> \<not> sh_running (ss_shared s') \<and> ph_written (sh_pieces (ss_shared s')) = 1
     \<and> ph_run (en_ext small_V) (en_ti small_V) ops (False, sh_pieces small_shared) = (told, sh_pieces (ss_shared s'))
     \<and> map (rd list_buffer) (payloads ops) = [[0, 0, 0, 0, 0, 0, 0, 0, 1, 2, 3]]"
proof -
  let ?s = "small_sess [] [[(5, EPOLLIN)]] [frame BITFIELD [0x80] @ frame PIECE [0, 0, 0, 0, 0, 0, 0, 0, 1, 2, 3]] 0"
  let ?r = "engine 3 small_V ?s"
  have "\<not> isl ?r" "ph_written (sh_pieces (ss_shared (projr ?r))) = 1"
    "map (rd list_buffer) (sh_blocks (ss_shared (projr ?r))) = [[0, 0, 0, 0, 0, 0, 0, 0, 1, 2, 3]]" by code_simp+
  then obtain s' where r: "?r = Inr s'" "ph_written (sh_pieces (ss_shared s')) = 1"
    "map (rd list_buffer) (sh_blocks (ss_shared s')) = [[0, 0, 0, 0, 0, 0, 0, 0, 1, 2, 3]]"
    by (metis not_isl_Inr sum.sel(2))
  have s: "sh_running (ss_shared ?s)" "sh_pieces (ss_shared ?s) = sh_pieces small_shared" "sh_blocks (ss_shared ?s) = []"
    by (simp_all add: small_sess_def small_shared_def)
  show ?thesis using engine_refines_piece_operations [OF small_sess_ok s(1) r(1)] r unfolding s by auto
qed

text \<open>When \<open>start\<close> has made its agents, one for each peer in the order of the list, the reactor
  knows only descriptors of these agents, the timer only these agents, and the piece handler is as
  it was constructed.\<close>

theorem make_agents_registers:
  assumes "make_agents V 0 peers s = Inr s'" "ss_agents s = Map.empty"
    and "rc_clients (sh_reactor (ss_shared s)) = Map.empty" "timed s = []"
  shows "registrations_ok s' \<and> timers_ok s' \<and> dom (ss_agents s') = {..<length peers}
     \<and> sh_pieces (ss_shared s') = sh_pieces (ss_shared s) \<and> sh_running (ss_shared s') = sh_running (ss_shared s)"
proof -
  have "registrations_ok s" "timers_ok s" "unborn 0 s"
    using assms(2-4) by (simp_all add: registrations_ok_def timers_ok_def unborn_def)
  then show ?thesis using make_agents_ok [OF assms(1)] assms(2) by auto
qed

theorem make_agents_registers_witness:
  "\<exists>s'. make_agents small_V 0 [ag_peer (small_agent ST_CONNECTED)]
      (\<lparr>ss_agents = Map.empty, ss_shared = small_shared\<lparr>sh_reactor := \<lparr>rc_efd = 4, rc_wait_ms = 5000, rc_clients = Map.empty\<rparr>\<rparr>\<rparr>)
     = Inr s' \<and> dom (ss_agents s') = {..<1}"
proof -
  let ?s = "\<lparr>ss_agents = Map.empty, ss_shared = small_shared\<lparr>sh_reactor := \<lparr>rc_efd = 4, rc_wait_ms = 5000, rc_clients = Map.empty\<rparr>\<rparr>\<rparr>"
  let ?ps = "[ag_peer (small_agent ST_CONNECTED)]"
  have "\<not> isl (make_agents small_V 0 ?ps ?s)"
    by (simp add: torrent_agent_ctor_def tcp_socket_ctor_def script_os_def valid_def script_start_def small_shared_def
        Let_def split: prod.split)
  then obtain s' where "make_agents small_V 0 ?ps ?s = Inr s'" by (metis not_isl_Inr)
  then show ?thesis using make_agents_registers [of small_V ?ps ?s s'] by (simp add: small_shared_def)
qed

text \<open>The peer id of a session is 20 bytes long, starts with the client's name and goes on with
  letters and digits, provided that the random distribution keeps to its range.\<close>

theorem local_peer_id_shape:
  assumes "\<forall>r. draw r (length alphanum - 1) \<le> length alphanum - 1"
    and "create_local_peer_id S draw w = (pid, w')"
  shows "length pid = 20 \<and> take 10 pid = ''-tent0001-'' \<and> set (drop 10 pid) \<subseteq> set alphanum"
proof -
  have "alphanum \<noteq> []" by (simp add: alphanum_def)
  then have "\<forall>r. draw r (length alphanum - 1) < length alphanum"
    using assms(1) by (metis length_greater_0_conv le_less_trans diff_less zero_less_one)
  note random_chars_spec [of draw S 10 w, OF this]
  then show ?thesis using assms(2) by (auto simp: create_local_peer_id_def split: prod.splits)
qed

theorem local_peer_id_shape_witness:
  "\<exists>w'. create_local_peer_id script_os (\<lambda>_ _. 11) script_start = (''-tent0001-BBBBBBBBBB'', w')
     \<and> length ''-tent0001-BBBBBBBBBB'' = 20"
proof -
  obtain w' where c: "create_local_peer_id script_os (\<lambda>_ _. 11) script_start = (''-tent0001-BBBBBBBBBB'', w')"
    by (simp add: create_local_peer_id_def numeral_eq_Suc script_os_def alphanum_def split: prod.split)
  then show ?thesis using local_peer_id_shape [OF _ c] by (auto simp: alphanum_def)
qed

end
