(* ===== verification/Session_Threads.thy ===== *)
theory Session_Threads
  imports Session_Run
begin

section \<open>The two threads of a session\<close>

text \<open>
  After \<open>start\<close> of \<open>src/session.cpp\<close> has created the engine thread, two threads share \<open>running_\<close> and
  \<open>notified_\<close> under a mutex and a condition variable. The steps of either are a relation over the
  places in the code where a thread can be (\<open>mpc\<close> for the loop at the end of \<open>start\<close>, \<open>epc\<close> for
  \<open>engine\<close>), the owner of the mutex and the state of the session; the rounds of the engine are
  those of \<open>engine_round\<close>. A thread that waits on the condition variable is woken by
  \<open>notify_one\<close>, and may wake up for no reason (\<open>Spurious\<close>), as the standard allows. An exception in
  the engine thread, or an undefined step, ends in \<open>E_crashed\<close>. What
  \<open>print_progress\<close> prints is in \<open>Session_Progress\<close>.
\<close>

datatype mpc = M_lock | M_test | M_pred | M_wait | M_wake | M_print | M_join | M_done

datatype epc = E_test | E_acquire | E_round | E_notify | E_release | E_done | E_crashed

datatype thread_id = Main_thread | Engine_thread

datatype cause = Main_step | Engine_step | Spurious

record ('b, 'w) threads =
  th_main :: mpc
  th_engine :: epc
  th_owner :: "thread_id option"
  th_sess :: "('b, 'w) sess"

abbreviation running :: "('b, 'w) threads \<Rightarrow> bool" where
  "running t \<equiv> sh_running (ss_shared (th_sess t))"

abbreviation notified :: "('b, 'w) threads \<Rightarrow> bool" where
  "notified t \<equiv> sh_notified (ss_shared (th_sess t))"

definition clear_notified :: "('b, 'w) sess \<Rightarrow> ('b, 'w) sess" where
  "clear_notified s = s\<lparr>ss_shared := (ss_shared s)\<lparr>sh_notified := False\<rparr>\<rparr>"

definition threads_start :: "('b, 'w) sess \<Rightarrow> ('b, 'w) threads" where
  "threads_start s = \<lparr>th_main = M_lock, th_engine = E_test, th_owner = None, th_sess = s\<rparr>"

inductive thread_step :: "('b, 'w) env \<Rightarrow> cause \<Rightarrow> ('b, 'w) threads \<Rightarrow> ('b, 'w) threads \<Rightarrow> bool" for V where
  main_lock: "th_main t = M_lock \<Longrightarrow> th_owner t = None \<Longrightarrow>
    thread_step V Main_step t (t\<lparr>th_main := M_test, th_owner := Some Main_thread\<rparr>)"
| main_test: "th_main t = M_test \<Longrightarrow>
    thread_step V Main_step t (t\<lparr>th_main := (if running t then M_pred else M_join)\<rparr>)"
| main_ready: "th_main t = M_pred \<Longrightarrow> notified t \<Longrightarrow> thread_step V Main_step t (t\<lparr>th_main := M_print\<rparr>)"
| main_wait: "th_main t = M_pred \<Longrightarrow> \<not> notified t \<Longrightarrow>
    thread_step V Main_step t (t\<lparr>th_main := M_wait, th_owner := None\<rparr>)"
| main_spurious: "th_main t = M_wait \<Longrightarrow> thread_step V Spurious t (t\<lparr>th_main := M_wake\<rparr>)"
| main_relock: "th_main t = M_wake \<Longrightarrow> th_owner t = None \<Longrightarrow>
    thread_step V Main_step t (t\<lparr>th_main := M_pred, th_owner := Some Main_thread\<rparr>)"
| main_print: "th_main t = M_print \<Longrightarrow>
    thread_step V Main_step t (t\<lparr>th_main := M_test, th_sess := clear_notified (th_sess t)\<rparr>)"
| main_join: "th_main t = M_join \<Longrightarrow> th_engine t = E_done \<Longrightarrow>
    thread_step V Main_step t (t\<lparr>th_main := M_done, th_owner := None\<rparr>)"
| engine_test: "th_engine t = E_test \<Longrightarrow>
    thread_step V Engine_step t (t\<lparr>th_engine := (if running t then E_acquire else E_done)\<rparr>)"
| engine_lock: "th_engine t = E_acquire \<Longrightarrow> th_owner t = None \<Longrightarrow>
    thread_step V Engine_step t (t\<lparr>th_engine := E_round, th_owner := Some Engine_thread\<rparr>)"
| engine_runs: "th_engine t = E_round \<Longrightarrow> engine_round V (th_sess t) = Inr s \<Longrightarrow>
    thread_step V Engine_step t (t\<lparr>th_engine := E_notify, th_sess := s\<rparr>)"
| engine_crash: "th_engine t = E_round \<Longrightarrow> engine_round V (th_sess t) = Inl e \<Longrightarrow>
    thread_step V Engine_step t (t\<lparr>th_engine := E_crashed\<rparr>)"
| engine_notify: "th_engine t = E_notify \<Longrightarrow>
    thread_step V Engine_step t
      (t\<lparr>th_engine := E_release, th_main := (if th_main t = M_wait then M_wake else th_main t)\<rparr>)"
| engine_release: "th_engine t = E_release \<Longrightarrow>
    thread_step V Engine_step t (t\<lparr>th_engine := E_test, th_owner := None\<rparr>)"

inductive_cases thread_stepE: "thread_step V c t t'"

inductive thread_reach :: "('b, 'w) env \<Rightarrow> ('b, 'w) threads \<Rightarrow> ('b, 'w) threads \<Rightarrow> bool" for V where
  refl: "thread_reach V t t"
| step: "thread_reach V t u \<Longrightarrow> thread_step V c u v \<Longrightarrow> thread_reach V t v"

lemma thread_reach_trans: "thread_reach V u v \<Longrightarrow> thread_reach V t u \<Longrightarrow> thread_reach V t v"
  by (induction rule: thread_reach.induct) (auto intro: thread_reach.step)

lemma thread_reach_first: "thread_step V c t u \<Longrightarrow> thread_reach V u v \<Longrightarrow> thread_reach V t v"
  using thread_reach_trans thread_reach.step thread_reach.refl by metis

subsection \<open>The invariant\<close>

definition thread_inv :: "('b, 'w) threads \<Rightarrow> bool" where
  "thread_inv t \<longleftrightarrow>
     (th_owner t = Some Main_thread \<longleftrightarrow> th_main t \<in> {M_test, M_pred, M_print, M_join}) \<and>
     (th_owner t = Some Engine_thread \<longleftrightarrow> th_engine t \<in> {E_round, E_notify, E_release, E_crashed}) \<and>
     (th_engine t \<in> {E_acquire, E_round, E_crashed} \<longrightarrow> running t) \<and>
     (th_main t = M_wait \<and> \<not> running t \<longrightarrow> th_engine t = E_notify) \<and>
     (th_main t \<in> {M_wake, M_pred} \<and> \<not> running t \<longrightarrow> notified t) \<and>
     (th_main t = M_wait \<and> th_engine t = E_notify \<longrightarrow> notified t) \<and>
     (th_main t = M_join \<or> th_engine t = E_done \<longrightarrow> \<not> running t) \<and>
     (th_main t = M_done \<longrightarrow> th_engine t = E_done)"

lemma thread_inv_owner:
  assumes "thread_inv t"
  shows "th_owner t = Some Main_thread \<longleftrightarrow> th_main t \<in> {M_test, M_pred, M_print, M_join}"
    and "th_owner t = Some Engine_thread \<longleftrightarrow> th_engine t \<in> {E_round, E_notify, E_release, E_crashed}"
  by (rule conjunct1 [OF assms [unfolded thread_inv_def]], rule conjunct1 [OF conjunct2 [OF assms [unfolded thread_inv_def]]])

lemma thread_inv_start: "sh_running (ss_shared s) \<Longrightarrow> thread_inv (threads_start s)"
  by (simp add: thread_inv_def threads_start_def)

lemma engine_round_notifies: "engine_round V s = Inr s' \<Longrightarrow> sh_notified (ss_shared s')"
  by (auto simp: engine_round_def Let_def res_bind_eq_Inr split: prod.splits)

lemma clear_notified_simps [simp]:
  "sh_running (ss_shared (clear_notified s)) = sh_running (ss_shared s)"
  "\<not> sh_notified (ss_shared (clear_notified s))"
  by (simp_all add: clear_notified_def)

lemma thread_inv_step:
  assumes "thread_step V c t t'" "thread_inv t"
  shows "thread_inv t'"
  using assms(1)
proof cases
  case (engine_runs s)
  then show ?thesis using assms(2) engine_round_notifies [OF engine_runs(4)]
    by (cases "th_main t") (auto simp: thread_inv_def)
qed (use assms(2) in \<open>cases "th_main t"; cases "th_engine t"; auto simp: thread_inv_def\<close>)+

lemma thread_inv_reach: "thread_reach V t t' \<Longrightarrow> thread_inv t \<Longrightarrow> thread_inv t'"
  by (induction rule: thread_reach.induct) (auto intro: thread_inv_step)

subsection \<open>Progress\<close>

definition finished :: "('b, 'w) threads \<Rightarrow> bool" where
  "finished t \<longleftrightarrow> th_main t = M_done \<and> th_engine t = E_done"

text \<open>Some thread can always move without a spurious wake-up, unless both are done or one crashed.\<close>

lemma thread_inv_progress:
  assumes "thread_inv t" "\<not> finished t" "th_engine t \<noteq> E_crashed"
  shows "\<exists>c t'. c \<noteq> Spurious \<and> thread_step V c t t'"
proof (cases "th_engine t")
  case E_acquire
  show ?thesis
  proof (cases "th_owner t")
    case None
    then show ?thesis using engine_lock [OF E_acquire] by blast
  next
    case (Some x)
    then have "th_main t \<in> {M_test, M_pred, M_print}"
      using assms(1) E_acquire by (cases x) (auto simp: thread_inv_def)
    then show ?thesis using main_test [of t V] main_ready [of t V] main_wait [of t V] main_print [of t V] by blast
  qed
next
  case E_done
  then have own: "th_owner t \<noteq> Some Engine_thread" "th_main t \<noteq> M_wait" "th_main t \<noteq> M_done"
    using assms(1,2) by (auto simp: thread_inv_def finished_def)
  then have "th_main t \<in> {M_lock, M_wake} \<Longrightarrow> th_owner t = None"
    using assms(1) by (cases "th_owner t") (auto simp: thread_inv_def intro: thread_id.exhaust)
  then show ?thesis
    using own E_done main_lock [of t V] main_test [of t V] main_ready [of t V] main_wait [of t V] main_relock [of t V]
      main_print [of t V] main_join [of t V] by (cases "th_main t") blast+
next
  case E_round
  then show ?thesis using engine_runs [OF E_round] engine_crash [OF E_round]
    by (cases "engine_round V (th_sess t)") blast+
qed (use assms(3) engine_test [of t V] engine_notify [of t V] engine_release [of t V] in blast)+

fun main_rank :: "mpc \<Rightarrow> nat" where
  "main_rank M_wait = 6"
| "main_rank M_wake = 5"
| "main_rank M_lock = 5"
| "main_rank M_pred = 4"
| "main_rank M_print = 3"
| "main_rank M_test = 2"
| "main_rank M_join = 1"
| "main_rank M_done = 0"

fun engine_rank :: "epc \<Rightarrow> nat" where
  "engine_rank E_notify = 3"
| "engine_rank E_release = 2"
| "engine_rank E_test = 1"
| "engine_rank _ = 0"

definition rank :: "('b, 'w) threads \<Rightarrow> nat" where
  "rank t = main_rank (th_main t) + engine_rank (th_engine t)"

lemma rank_le: "rank t \<le> 9"
proof -
  have "main_rank (th_main t) \<le> 6" by (cases "th_main t") simp_all
  moreover have "engine_rank (th_engine t) \<le> 3" by (cases "th_engine t") simp_all
  ultimately show ?thesis by (simp add: rank_def)
qed

lemma stopped_step:
  assumes "thread_step V c t t'" "thread_inv t" "\<not> running t"
  shows "rank t' < rank t \<and> \<not> running t'"
  using assms
proof (induction rule: thread_step.induct)
  case (engine_notify t)
  then show ?case by (cases "th_main t") (simp_all add: rank_def)
qed (simp_all add: rank_def thread_inv_def)

lemma stopped_ends:
  "thread_inv t \<Longrightarrow> \<not> running t \<Longrightarrow> \<exists>t'. thread_reach V t t' \<and> finished t'"
proof (induction "rank t" arbitrary: t rule: less_induct)
  case less
  show ?case
  proof (cases "finished t")
    case False
    have "th_engine t \<noteq> E_crashed" using less.prems by (auto simp: thread_inv_def)
    then obtain c u where u: "thread_step V c t u"
      using thread_inv_progress [OF less.prems(1) False] by blast
    note r = stopped_step [OF u less.prems]
    obtain t' where "thread_reach V u t'" "finished t'"
      using less.hyps [of u] thread_inv_step [OF u less.prems(1)] r by blast
    then show ?thesis using thread_reach_first [OF u] by blast
  qed (use thread_reach.refl in blast)
qed

lemma reach_round:
  assumes "sh_running (ss_shared s)"
  shows "thread_reach V (threads_start s) ((threads_start s)\<lparr>th_engine := E_round, th_owner := Some Engine_thread\<rparr>)"
proof -
  have "thread_step V Engine_step (threads_start s) ((threads_start s)\<lparr>th_engine := E_acquire\<rparr>)"
    using engine_test [of "threads_start s" V] assms by (simp add: threads_start_def)
  moreover have "thread_step V Engine_step ((threads_start s)\<lparr>th_engine := E_acquire\<rparr>)
      ((threads_start s)\<lparr>th_engine := E_round, th_owner := Some Engine_thread\<rparr>)"
    using engine_lock [of "(threads_start s)\<lparr>th_engine := E_acquire\<rparr>" V] by (simp add: threads_start_def)
  ultimately show ?thesis by (rule thread_reach.step [OF thread_reach.step [OF thread_reach.refl]])
qed

subsection \<open>Properties\<close>

text \<open>C34: in every state the two threads can reach, at most one of them is inside the region
  protected by the mutex: while the engine runs a round, notifies or is about to release, the main
  thread neither tests \<open>running_\<close> nor the predicate nor prints nor clears \<open>notified_\<close>.\<close>

theorem threads_mutual_exclusion:
  assumes "sh_running (ss_shared s)" "thread_reach V (threads_start s) t"
  shows "\<not> (th_main t \<in> {M_test, M_pred, M_print, M_join} \<and> th_engine t \<in> {E_round, E_notify, E_release})"
  using thread_inv_owner [OF thread_inv_reach [OF assms(2) thread_inv_start [OF assms(1)]]]
  by (cases "th_owner t = Some Main_thread") simp_all

theorem threads_mutual_exclusion_witness:
  "\<exists>t. thread_reach small_V (threads_start (small_sess [] [] [] 0)) t \<and> th_engine t = E_round
     \<and> th_main t \<notin> {M_test, M_pred, M_print, M_join}"
proof -
  let ?s = "small_sess [] [] [] 0"
  have run: "sh_running (ss_shared ?s)" by (simp add: small_sess_def small_shared_def)
  note r = reach_round [OF run, of small_V]
  show ?thesis
    by (rule exI, rule conjI [OF r], use threads_mutual_exclusion [OF run r] in simp)
qed

text \<open>C14: no wake-up is lost and no deadlock is possible: in every reachable state in which the
  program has not ended or crashed, some thread can move, even if the condition variable never wakes
  a thread spuriously.\<close>

theorem threads_no_deadlock:
  assumes "sh_running (ss_shared s)" "thread_reach V (threads_start s) t" "\<not> finished t" "th_engine t \<noteq> E_crashed"
  shows "\<exists>c t'. c \<noteq> Spurious \<and> thread_step V c t t'"
  by (rule thread_inv_progress [OF thread_inv_reach [OF assms(2) thread_inv_start [OF assms(1)]] assms(3,4)])

theorem threads_no_deadlock_witness:
  "\<exists>c t'. c \<noteq> Spurious \<and> thread_step small_V c (threads_start (small_sess [] [] [] 0)) t'"
  by (rule threads_no_deadlock [OF _ thread_reach.refl])
    (simp_all add: small_sess_def small_shared_def threads_start_def finished_def)

text \<open>C16: once the session has been stopped, \<open>start\<close> returns: every step, whichever thread takes it,
  lowers a rank that is at most 9 and keeps the session stopped, and the steps lead to a state in
  which both threads are done.\<close>

theorem stopped_session_ends:
  assumes "sh_running (ss_shared s)" "thread_reach V (threads_start s) t" "\<not> running t"
  shows "(\<forall>c t'. thread_step V c t t' \<longrightarrow> rank t' < rank t \<and> \<not> running t') \<and> rank t \<le> 9
     \<and> (\<exists>t'. thread_reach V t t' \<and> finished t')"
  using stopped_step [OF _ _ assms(3)] stopped_ends [OF _ assms(3)] rank_le
    thread_inv_reach [OF assms(2) thread_inv_start [OF assms(1)]] by blast

theorem stopped_session_ends_witness:
  "\<exists>t t'. thread_reach small_V (threads_start (small_sess [] [[(5, EPOLLIN)]]
       [frame BITFIELD [0x80] @ frame PIECE [0, 0, 0, 0, 0, 0, 0, 0, 1, 2, 3]] 0)) t
     \<and> \<not> running t \<and> thread_reach small_V t t' \<and> finished t'"
proof -
  let ?s = "small_sess [] [[(5, EPOLLIN)]] [frame BITFIELD [0x80] @ frame PIECE [0, 0, 0, 0, 0, 0, 0, 0, 1, 2, 3]] 0"
  let ?t = "(threads_start ?s)\<lparr>th_engine := E_round, th_owner := Some Engine_thread\<rparr>"
  have run: "sh_running (ss_shared ?s)" by (simp add: small_sess_def small_shared_def)
  have "\<not> isl (engine_round small_V ?s)" "\<not> sh_running (ss_shared (projr (engine_round small_V ?s)))" by code_simp+
  then obtain s' where s': "engine_round small_V ?s = Inr s'" "\<not> sh_running (ss_shared s')"
    by (metis not_isl_Inr sum.sel(2))
  have "thread_step small_V Engine_step ?t (?t\<lparr>th_engine := E_notify, th_sess := s'\<rparr>)"
    using s'(1) by (intro engine_runs) (simp_all add: threads_start_def)
  then have r: "thread_reach small_V (threads_start ?s) (?t\<lparr>th_engine := E_notify, th_sess := s'\<rparr>)"
    by (rule thread_reach.step [OF reach_round [OF run]])
  have n: "\<not> running (?t\<lparr>th_engine := E_notify, th_sess := s'\<rparr>)" using s'(2) by simp
  show ?thesis using stopped_session_ends [OF run r n] r n by blast
qed

end
