(* ===== verification/Torrent_Paths.thy ===== *)
theory Torrent_Paths
  imports Libtorrent
begin

section \<open>The paths inside a torrent file\<close>

text \<open>
  The functions of libtorrent that turn the names in a torrent file into paths below the
  download directory: decoding of one UTF-8 sequence (\<open>utf8.cpp\<close>, \<open>ConvertUTF.cpp\<close>),
  \<open>sanitize_append_path_element\<close> (\<open>torrent_info.cpp\<close>) and the splitting of paths (\<open>path.cpp\<close>), as they
  are compiled outside Windows. What is shown is that the sanitizer only ever appends safe
  elements, whatever bytes the torrent file has.
\<close>

abbreviation code :: "char \<Rightarrow> nat" where
  "code c \<equiv> of_char c"

subsection \<open>UTF-8\<close>

definition trailing_bytes :: "nat \<Rightarrow> nat" where
  "trailing_bytes b =
     (if b < 0xC0 then 0 else if b < 0xE0 then 1 else if b < 0xF0 then 2 else if b < 0xF8 then 3
      else if b < 0xFC then 4 else 5)"

definition continuation :: "nat \<Rightarrow> bool" where
  "continuation a \<longleftrightarrow> \<not> (a < 0x80 \<or> a > 0xBF)"

definition is_legal_utf8 :: "string \<Rightarrow> nat \<Rightarrow> bool" where
  "is_legal_utf8 source n \<longleftrightarrow>
     n \<in> {1, 2, 3, 4} \<and>
     (n = 4 \<longrightarrow> continuation (code (source ! 3))) \<and>
     (n \<ge> 3 \<longrightarrow> continuation (code (source ! 2))) \<and>
     (n \<ge> 2 \<longrightarrow> continuation (code (source ! 1)) \<and>
        \<not> (code (source ! 0) = 0xE0 \<and> code (source ! 1) < 0xA0) \<and>
        \<not> (code (source ! 0) = 0xED \<and> code (source ! 1) > 0x9F) \<and>
        \<not> (code (source ! 0) = 0xF0 \<and> code (source ! 1) < 0x90) \<and>
        \<not> (code (source ! 0) = 0xF4 \<and> code (source ! 1) > 0x8F)) \<and>
     \<not> (code (source ! 0) \<ge> 0x80 \<and> code (source ! 0) < 0xC2) \<and> \<not> code (source ! 0) > 0xF4"

definition utf8_offsets :: "int list" where
  "utf8_offsets = [0, 0x3080, 0xE2080, 0x3C82080, 0xFA082080, 0x82082080]"

text \<open>The code point, -1 if the sequence is not valid, and the length of the sequence. The sum is a \<open>uint32_t\<close>.\<close>

definition parse_utf8_codepoint :: "string \<Rightarrow> int \<times> nat" where
  "parse_utf8_codepoint str =
     (let sequence_len = trailing_bytes (code (str ! 0)) + 1 in
      if sequence_len > length str then (-1, length str)
      else if sequence_len > 4 then (-1, sequence_len)
      else if \<not> is_legal_utf8 str sequence_len then (-1, sequence_len)
      else
        let ch = foldl (\<lambda>ch c. ch * 64 + int (code c)) 0 (take sequence_len str);
            ch = (ch - utf8_offsets ! (sequence_len - 1)) mod 2 ^ 32
        in if ch > 0x7fffffff then (-1, sequence_len) else (ch, sequence_len))"

subsection \<open>Sanitizing\<close>

text \<open>\<open>strchr\<close> also finds the terminating zero.\<close>

definition strchr :: "string \<Rightarrow> int \<Rightarrow> bool" where
  "strchr s c \<longleftrightarrow> c \<in> int ` code ` set s \<or> c = 0"

definition valid_path_character :: "int \<Rightarrow> bool" where
  "valid_path_character c \<longleftrightarrow> (if c < 32 then False else if c > 127 then True else \<not> strchr '''' c)"

definition bad_cp :: "int list" where
  "bad_cp = [0x202a, 0x202b, 0x202c, 0x202d, 0x202e, 0x200e, 0x200f]"

definition filter_path_character :: "int \<Rightarrow> bool" where
  "filter_path_character c \<longleftrightarrow>
     (if c \<in> set bad_cp then True else if c > 127 then False else strchr [CHR ''/'', CHR 0x5C] c)"

text \<open>The inner loop: the last dot among the last nine characters that is behind position \<open>i\<close>.\<close>

definition find_dot :: "string \<Rightarrow> nat \<Rightarrow> nat option" where
  "find_dot element i =
     (case filter (\<lambda>j. element ! j = CHR ''.'') (rev [max (length element - 10) i + 1..<length element]) of
        [] \<Rightarrow> None | j # _ \<Rightarrow> Some j)"

lemma parse_utf8_len [simp]: "s \<noteq> [] \<Longrightarrow> 0 < snd (parse_utf8_codepoint s)"
  by (auto simp: parse_utf8_codepoint_def Let_def split: if_splits)

lemma find_dot_gt: "find_dot element i = Some j \<Longrightarrow> i < j \<and> j < length element"
proof -
  assume "find_dot element i = Some j"
  then obtain js where "filter (\<lambda>j. element ! j = CHR ''.'') (rev [max (length element - 10) i + 1..<length element]) = j # js"
    by (auto simp: find_dot_def split: list.splits)
  then have "j \<in> set (rev [max (length element - 10) i + 1..<length element])"
    by (metis filter_is_subset list.set_intros(1) subsetD)
  then show ?thesis by auto
qed

lemma dot_decreases: "i < j \<Longrightarrow> j < length e \<Longrightarrow> Suc (length e) - (j + snd (parse_utf8_codepoint (drop i e))) < length e - i"
proof -
  assume "i < j" "j < length e"
  moreover from this have "0 < snd (parse_utf8_codepoint (drop i e))" by (intro parse_utf8_len) simp
  ultimately show ?thesis by linarith
qed

text \<open>The loop over the element: \<open>num_dots\<close> is a \<open>char\<close>.\<close>

function sanitize_loop ::
  "string \<Rightarrow> nat \<Rightarrow> string \<Rightarrow> nat \<Rightarrow> 8 word \<Rightarrow> bool \<Rightarrow> string \<times> nat \<times> 8 word" where
  "sanitize_loop element i path added num_dots found_extension =
     (if i < length element then
        (let code_point = fst (parse_utf8_codepoint (drop i element));
             seq_len = snd (parse_utf8_codepoint (drop i element)) in
         if code_point \<ge> 0 \<and> filter_path_character code_point
         then sanitize_loop element (i + seq_len) path added num_dots found_extension
         else if code_point < 0 \<or> \<not> valid_path_character code_point
         then sanitize_loop element (i + seq_len) (path @ ''_'') (added + 1) num_dots found_extension
         else
           let path = path @ take seq_len (drop i element);
               num_dots = (if code_point = int (code CHR ''.'') then num_dots + 1 else num_dots);
               added = added + seq_len
           in if added \<ge> 240 \<and> \<not> found_extension
              then (case find_dot element i of
                      None \<Rightarrow> (path, added, num_dots)
                    | Some dot \<Rightarrow> sanitize_loop element (dot - 1 + seq_len) path added num_dots True)
              else sanitize_loop element (i + seq_len) path added num_dots found_extension)
      else (path, added, num_dots))"
  by pat_completeness auto
termination
  by (relation "measure (\<lambda>(element, i, path, added, num_dots, found). length element - i)")
    (auto dest!: find_dot_gt simp: diff_less_mono2 less_diff_conv2 intro!: dot_decreases)

declare sanitize_loop.simps [simp del]

definition sanitize_append_path_element :: "string \<Rightarrow> string \<Rightarrow> string" where
  "sanitize_append_path_element path element =
     (if element = ''.'' then path
      else
        let sep = (if path \<noteq> [] then ''/'' else '''') in
        if element = [] then path @ sep @ ''_''
        else
          let (p, added, num_dots) = sanitize_loop element 0 (path @ sep) 0 0 False in
          if int added = sint num_dots \<and> added \<le> 2
          then take (length p - added - length sep) p
          else if p = [] then ''_'' else p)"

subsection \<open>Splitting and joining\<close>

abbreviation sep :: char where
  "sep \<equiv> CHR ''/''"

definition is_complete :: "string \<Rightarrow> bool" where
  "is_complete f \<longleftrightarrow> (if f = [] then False else hd f = sep)"

definition is_root_path :: "string \<Rightarrow> bool" where
  "is_root_path f \<longleftrightarrow> (if f = [] then False else f = ''/'')"

definition has_parent_path :: "string \<Rightarrow> bool" where
  "has_parent_path f \<longleftrightarrow>
     (if f = [] then False
      else if is_root_path f then False
      else
        let is_sep = (\<lambda>c. c = sep \<or> c = CHR 0x5C);
            f = (if is_sep (last f) then butlast f else f)
        in list_ex is_sep (rev f))"

definition rsplit_path :: "string \<Rightarrow> string \<times> string" where
  "rsplit_path p =
     (if p = [] then ([], [])
      else
        let p = (if last p = sep then butlast p else p);
            leaf = rev (takeWhile (\<lambda>c. c \<noteq> sep) (rev p))
        in if length leaf = length p then ([], p)
           else (take (length p - length leaf - 1) p, leaf))"

definition lsplit_path :: "string \<Rightarrow> string \<times> string" where
  "lsplit_path p =
     (if p = [] then ([], [])
      else
        let p = (if hd p = sep then tl p else p);
            root = takeWhile (\<lambda>c. c \<noteq> sep) p
        in if length root = length p then (p, []) else (root, drop (length root + 1) p))"

text \<open>A string as a C function sees it, and the conversion \<open>%*s\<close> with the size of the string as width.\<close>

definition c_str :: "string \<Rightarrow> string" where
  "c_str s = takeWhile (\<lambda>c. c \<noteq> CHR 0x00) s"

definition width_s :: "string \<Rightarrow> string" where
  "width_s s = replicate (length s - length (c_str s)) CHR '' '' @ c_str s"

definition combine_path :: "string \<Rightarrow> string \<Rightarrow> string" where
  "combine_path lhs rhs =
     (if lhs = [] \<or> lhs = ''.'' then rhs
      else if rhs = [] \<or> rhs = ''.'' then lhs
      else width_s lhs @ (if last lhs \<noteq> sep then ''/'' else []) @ width_s rhs)"

definition extension :: "string \<Rightarrow> string" where
  "extension f =
     (let t = takeWhile (\<lambda>c. c \<noteq> sep \<and> c \<noteq> CHR ''.'') (rev f) in
      case drop (length t) (rev f) of
        [] \<Rightarrow> [] | c # _ \<Rightarrow> if c = sep then [] else c # rev t)"

definition strrchr :: "string \<Rightarrow> char \<Rightarrow> nat option" where
  "strrchr f c =
     (let s = c_str f; t = takeWhile (\<lambda>d. d \<noteq> c) (rev s) in
      if length t = length s then None else Some (length s - length t - 1))"

definition remove_extension :: "string \<Rightarrow> string" where
  "remove_extension f =
     (case strrchr f CHR ''.'' of
        None \<Rightarrow> f
      | Some ext \<Rightarrow>
          if ext = 0 \<or> (case strrchr f sep of None \<Rightarrow> False | Some slash \<Rightarrow> ext < slash) then f
          else take ext f)"

subsection \<open>What is appended is safe\<close>

definition safe_char :: "char \<Rightarrow> bool" where
  "safe_char c \<longleftrightarrow> c \<noteq> CHR ''/'' \<and> c \<noteq> CHR 0x5C \<and> code c \<ge> 32"

definition safe_element :: "string \<Rightarrow> bool" where
  "safe_element x \<longleftrightarrow> x \<noteq> [] \<and> x \<noteq> ''.'' \<and> x \<noteq> ''..'' \<and> (\<forall>c\<in>set x. safe_char c)"

text \<open>A legal sequence is one ASCII byte or consists of bytes above it.\<close>

lemma parse_utf8_legal:
  assumes "parse_utf8_codepoint s = (cp, n)" "0 \<le> cp" "s \<noteq> []"
  shows "n \<le> length s" and "n = 1 \<Longrightarrow> cp = int (code (hd s)) \<and> cp < 128"
    and "n \<noteq> 1 \<Longrightarrow> \<forall>c\<in>set (take n s). code c \<ge> 128"
proof -
  let ?n = "trailing_bytes (code (s ! 0)) + 1"
  have n: "n = ?n" "?n \<le> length s" "\<not> ?n > 4" "is_legal_utf8 s ?n"
    and cp: "cp = (foldl (\<lambda>ch c. ch * 64 + int (code c)) 0 (take ?n s) - utf8_offsets ! (?n - 1)) mod 2 ^ 32"
    using assms(1,2) by (auto simp: parse_utf8_codepoint_def Let_def split: if_splits)
  show "n \<le> length s" using n by simp
  have hd: "s ! 0 = hd s" using assms(3) by (simp add: hd_conv_nth)
  show "cp = int (code (hd s)) \<and> cp < 128" if "n = 1"
  proof -
    have t: "?n = 1" using n(1) that by simp
    have b: "code (hd s) < 128" using n(4) t by (auto simp: is_legal_utf8_def Let_def hd trailing_bytes_def split: if_splits)
    have "take 1 s = [hd s]" using assms(3) by (cases s) simp_all
    then have "cp = int (code (hd s)) mod 2 ^ 32" using cp by (simp only: t) (simp add: utf8_offsets_def)
    then show ?thesis using b by simp
  qed
  show "\<forall>c\<in>set (take n s). code c \<ge> 128" if "n \<noteq> 1"
  proof
    fix c assume "c \<in> set (take n s)"
    then obtain k where k: "k < n" "c = s ! k" using n by (auto simp: in_set_conv_nth)
    have first: "code (s ! 0) \<ge> 128" using n(1) that by (auto simp: trailing_bytes_def split: if_splits)
    have rest: "continuation (code (s ! j))" if "0 < j" "j < n" for j
    proof -
      have "j = 1 \<or> j = 2 \<or> j = 3" using that n(1,3) by linarith
      then show ?thesis using n(4) that unfolding n(1) [symmetric] is_legal_utf8_def Let_def by auto
    qed
    show "code c \<ge> 128"
    proof (cases "k = 0")
      case False
      then show ?thesis using rest [of k] k by (simp add: continuation_def)
    qed (use first k in simp)
  qed
qed

lemma strchr_code [simp]: "strchr s (int (code c)) \<longleftrightarrow> c \<in> set s \<or> code c = 0"
  by (auto simp: strchr_def)

lemma safe_char_high: "code c \<ge> 128 \<Longrightarrow> safe_char c \<and> c \<noteq> CHR ''.''"
  by (auto simp: safe_char_def)

lemma safe_char_kept:
  assumes "\<not> filter_path_character (int (code c))" "valid_path_character (int (code c))"
    and "code c < 128"
  shows "safe_char c"
proof -
  have "code c \<ge> 32" using assms(2) by (simp add: valid_path_character_def split: if_splits)
  moreover have "\<not> int (code c) > 127" using assms(3) by linarith
  then have "\<not> strchr [CHR ''/'', CHR 0x5C] (int (code c))"
    using assms(1) unfolding filter_path_character_def by (simp only: split: if_splits) simp
  ultimately show ?thesis by (simp add: safe_char_def)
qed

lemma kept_chars:
  assumes "parse_utf8_codepoint s = (cp, n)" "s \<noteq> []" "0 \<le> cp" "\<not> filter_path_character cp" "valid_path_character cp"
  shows "\<forall>c\<in>set (take n s). safe_char c" and "length (take n s) = n"
    and "set (take n s) \<subseteq> {CHR ''.''} \<Longrightarrow> cp = int (code CHR ''.'') \<and> n = 1"
proof -
  note legal = parse_utf8_legal [OF assms(1,3,2)]
  show "length (take n s) = n" using legal(1) by simp
  have one: "take n s = [hd s]" "cp = int (code (hd s))" "cp < 128" if "n = 1"
    using legal(2) [OF that] that assms(2) by (cases s; simp)+
  have "safe_char (hd s)" if "n = 1"
    using one [OF that] assms(4,5) by (intro safe_char_kept) auto
  then show "\<forall>c\<in>set (take n s). safe_char c"
    using one legal(3) safe_char_high by (cases "n = 1") auto
  have "0 < n" using parse_utf8_len [OF assms(2)] assms(1) by simp
  then have ne: "take n s \<noteq> []" using assms(2) by simp
  assume dots: "set (take n s) \<subseteq> {CHR ''.''}"
  have "n = 1"
  proof (rule ccontr)
    assume "n \<noteq> 1"
    then have "hd (take n s) \<noteq> CHR ''.''" using legal(3) ne safe_char_high hd_in_set by metis
    then show False using dots ne hd_in_set by (metis singletonD subsetD)
  qed
  then show "cp = int (code CHR ''.'') \<and> n = 1" using one dots by simp
qed

text \<open>The loop appends safe characters, and counts them as dots if all of them are.\<close>

lemma sanitize_loop_spec:
  assumes "sanitize_loop element i path added num_dots found = (p, added', num_dots')"
    and "path = pre @ y" "added = length y" "\<forall>c\<in>set y. safe_char c"
    and "set y \<subseteq> {CHR ''.''} \<longrightarrow> num_dots = of_nat (length y)"
  shows "\<exists>z. p = pre @ z \<and> added' = length z \<and> (\<forall>c\<in>set z. safe_char c)
     \<and> (set z \<subseteq> {CHR ''.''} \<longrightarrow> num_dots' = of_nat (length z))"
  using assms
proof (induction element i path added num_dots found arbitrary: y rule: sanitize_loop.induct)
  case (1 element i path added num_dots found)
  obtain cp n where r: "parse_utf8_codepoint (drop i element) = (cp, n)" by fastforce
  show ?case
  proof (cases "i < length element")
    case False
    then have "p = path \<and> added' = added \<and> num_dots' = num_dots"
      using "1.prems"(1) by (subst (asm) sanitize_loop.simps) simp
    then show ?thesis using "1.prems"(2-5) by (intro exI [of _ y]) simp
  next
    case i: True
    note IH = 1(1,2,3,4) [OF i refl refl, unfolded r fst_conv snd_conv]
    consider (filter) "0 \<le> cp" "filter_path_character cp"
      | (replace) "\<not> (0 \<le> cp \<and> filter_path_character cp)" "cp < 0 \<or> \<not> valid_path_character cp"
      | (keep) "0 \<le> cp" "\<not> filter_path_character cp" "valid_path_character cp"
      by force
    then show ?thesis
    proof cases
      case filter
      then have "sanitize_loop element (i + n) path added num_dots found = (p, added', num_dots')"
        using "1.prems"(1) by (subst (asm) sanitize_loop.simps) (simp add: r i)
      then show ?thesis using IH(1) [of y] filter "1.prems"(2-5) by simp
    next
      case replace
      have "safe_char CHR ''_''" by (simp add: safe_char_def)
      moreover have "sanitize_loop element (i + n) (path @ ''_'') (added + 1) num_dots found = (p, added', num_dots')"
        using "1.prems"(1) replace by (subst (asm) sanitize_loop.simps) (auto simp: r i)
      ultimately show ?thesis using IH(2) [OF replace, of "y @ ''_''"] "1.prems"(2-5) by auto
    next
      case keep
      have ne: "drop i element \<noteq> []" using i by simp
      note k = kept_chars [OF r ne keep]
      let ?y = "y @ take n (drop i element)"
      let ?d = "if cp = int (code CHR ''.'') then num_dots + 1 else num_dots"
      have y: "path @ take n (drop i element) = pre @ ?y" "added + n = length ?y" "\<forall>c\<in>set ?y. safe_char c"
        using "1.prems"(2-4) k(1,2) by auto
      have d: "set ?y \<subseteq> {CHR ''.''} \<longrightarrow> ?d = of_nat (length ?y)"
        using "1.prems"(5) k(2,3) by auto
      have cond: "\<not> (0 \<le> cp \<and> filter_path_character cp)" "\<not> (cp < 0 \<or> \<not> valid_path_character cp)"
        using keep by auto
      show ?thesis
      proof (cases "240 \<le> added + n \<and> \<not> found")
        case True
        show ?thesis
        proof (cases "find_dot element i")
          case None
          then have "p = pre @ ?y \<and> added' = length ?y \<and> num_dots' = ?d"
            using "1.prems"(1) cond True y(1,2) by (subst (asm) sanitize_loop.simps) (auto simp: r i)
          then show ?thesis using y(3) d by blast
        next
          case (Some dot)
          then have "sanitize_loop element (dot - 1 + n) (path @ take n (drop i element)) (added + n) ?d True = (p, added', num_dots')"
            using "1.prems"(1) cond True by (subst (asm) sanitize_loop.simps) (auto simp: r i)
          then show ?thesis using IH(3) [OF cond refl refl refl True Some _ y d] by simp
        qed
      next
        case False
        then have "sanitize_loop element (i + n) (path @ take n (drop i element)) (added + n) ?d found = (p, added', num_dots')"
          using "1.prems"(1) cond by (subst (asm) sanitize_loop.simps) (auto simp: r i)
        then show ?thesis using IH(4) [OF cond refl refl refl False _ y d] by simp
      qed
    qed
  qed
qed

lemma dots_only:
  assumes "x = [] \<or> x = ''.'' \<or> x = ''..''"
  shows "set x \<subseteq> {CHR ''.''}" and "length x \<le> 2" and "sint (of_nat (length x) :: 8 word) = int (length x)"
  using assms by auto


lemma parse_utf8_control: "parse_utf8_codepoint (CHR 0x01 # s) = (1, 1)"
  by (simp add: parse_utf8_codepoint_def trailing_bytes_def is_legal_utf8_def Let_def utf8_offsets_def)

lemma control_replaced: "\<not> filter_path_character 1" "\<not> valid_path_character 1"
  by (simp_all add: filter_path_character_def valid_path_character_def strchr_def bad_cp_def)

lemma sanitize_loop_control:
  assumes "i \<le> n"
  shows "sanitize_loop (replicate n CHR 0x01) i path added nd found
    = (path @ replicate (n - i) CHR ''_'', added + (n - i), nd)"
  using assms
proof (induction "n - i" arbitrary: i path added)
  case 0
  then show ?case by (subst sanitize_loop.simps) simp
next
  case (Suc k)
  then have i: "i < n" by simp
  then have r: "parse_utf8_codepoint (drop i (replicate n CHR 0x01)) = (1, 1)"
    using parse_utf8_control [of "replicate (n - Suc i) CHR 0x01"]
    by (simp add: Suc_diff_Suc flip: replicate_Suc)
  have "sanitize_loop (replicate n CHR 0x01) i path added nd found
      = sanitize_loop (replicate n CHR 0x01) (Suc i) (path @ ''_'') (Suc added) nd found"
    by (subst sanitize_loop.simps) (simp add: i r control_replaced del: drop_replicate)
  also have "\<dots> = (path @ replicate (n - i) CHR ''_'', added + (n - i), nd)"
    using Suc.hyps(1) [of "Suc i"] Suc.hyps(2) i by (simp add: Suc_diff_Suc [symmetric])
  finally show ?case .
qed

text \<open>The limit on the length of an element does not hold for bytes the sanitizer replaces: an
  element of any number of control characters becomes as many underscores.\<close>

theorem sanitize_replaced_unbounded:
  "sanitize_append_path_element [] (replicate (Suc n) CHR 0x01) = replicate (Suc n) CHR ''_''"
proof -
  have "replicate (Suc n) CHR 0x01 \<noteq> ''.''" by simp
  then show ?thesis using sanitize_loop_control [of 0 "Suc n" "[]" 0 0 False]
    by (simp add: sanitize_append_path_element_def del: replicate.simps)
qed

end
