(* ===== verification/Torrent_Storage.thy ===== *)
theory Torrent_Storage
  imports Torrent_Paths
begin

section \<open>Building the file storage of a torrent\<close>

text \<open>
  The operations of \<open>file_storage.cpp\<close> that fill a storage while a torrent file is parsed:
  \<open>add_file_borrow\<close>, \<open>rename_file\<close> and what they call. Sizes and offsets are 48-bit fields, the
  total size is a 64-bit \<open>int\<close>. The symbolic links, file hashes, modification times and the
  attributes other than the one of pad files are stored beside the files and never read by the
  client: they are left out. Shown are what of the storage stays well formed and that the path
  of an added file is the one it was added with.
\<close>

definition int64 :: "int \<Rightarrow> int" where
  "int64 x = signed_take_bit 63 x"

lemma int64_id [simp]: "- (2 ^ 63) \<le> x \<Longrightarrow> x < 2 ^ 63 \<Longrightarrow> int64 x = x"
  by (simp add: int64_def signed_take_bit_int_eq_self)

subsection \<open>Entries\<close>

definition internal_file_entry :: file_entry where
  "internal_file_entry =
     \<lparr>fe_offset = 0, fe_size = 0, fe_no_root_dir = False, fe_path_index = -1, fe_name = [],
      fe_pad_file = False\<rparr>"

definition name_is_owned :: nat where
  "name_is_owned = 2 ^ 12 - 1"

text \<open>
  \<open>set_name\<close> with \<open>filename\<close>, which reads the name back: a copied name is a C string, a borrowed one
  keeps its length in 12 bits, also if it is still longer after the cut; when all bits of the length
  are set the borrowed name is taken for a copied one and read as a C string (which may go on behind
  the name in memory; here it ends with it).
\<close>

definition set_name :: "string \<Rightarrow> bool \<Rightarrow> file_entry \<Rightarrow> file_entry" where
  "set_name n borrow_string e =
     (if n = [] then e\<lparr>fe_name := []\<rparr>
      else if borrow_string
      then (let n = (if length n \<ge> name_is_owned then drop (name_is_owned - 1) n else n);
                name_len = length n mod 2 ^ 12
            in e\<lparr>fe_name := if name_len \<noteq> name_is_owned then take name_len n else c_str n\<rparr>)
      else e\<lparr>fe_name := c_str n\<rparr>)"

subsection \<open>Paths\<close>

text \<open>The search runs from the end.\<close>

definition rfind :: "string list \<Rightarrow> string \<Rightarrow> nat option" where
  "rfind xs x =
     (let t = takeWhile (\<lambda>y. y \<noteq> x) (rev xs) in
      if length t = length xs then None else Some (length xs - length t - 1))"

definition get_or_add_path :: "string \<Rightarrow> string list \<Rightarrow> int \<times> string list" where
  "get_or_add_path path paths =
     (case rfind paths path of
        None \<Rightarrow> (int (length paths), paths @ [path])
      | Some p \<Rightarrow> (int p, paths))"

text \<open>The name and the paths of the storage are passed and the paths returned.\<close>

definition update_path_index ::
  "string \<Rightarrow> string list \<Rightarrow> file_entry \<Rightarrow> string \<Rightarrow> bool \<Rightarrow> string list \<times> file_entry" where
  "update_path_index m_name paths e path set_nm =
     (if is_complete path then (paths, (set_name path False e)\<lparr>fe_path_index := -2\<rparr>)
      else
        let (branch_path, leaf) = rsplit_path path in
        if branch_path = []
        then (paths, (if set_nm then set_name leaf False e else e)\<lparr>fe_path_index := -1\<rparr>)
        else
          let (branch_path, e) =
                (if fst (lsplit_path branch_path) = m_name
                 then (dropWhile (\<lambda>c. c = sep) (snd (lsplit_path branch_path)), e\<lparr>fe_no_root_dir := False\<rparr>)
                 else (branch_path, e\<lparr>fe_no_root_dir := True\<rparr>));
              (index, paths) = get_or_add_path branch_path paths;
              e = e\<lparr>fe_path_index := index\<rparr>
          in (paths, if set_nm then set_name leaf False e else e))"

definition rename_file :: "nat \<Rightarrow> string \<Rightarrow> file_storage \<Rightarrow> file_storage" where
  "rename_file index new_filename fs =
     (let (paths, e) = update_path_index (fs_name fs) (fs_paths fs) (fs_files fs ! index) new_filename True
      in fs\<lparr>fs_paths := paths, fs_files := (fs_files fs)[index := e]\<rparr>)"

subsection \<open>Adding a file\<close>

definition added_name :: "file_storage \<Rightarrow> string \<Rightarrow> string" where
  "added_name fs path =
     (if \<not> has_parent_path path then path
      else if fs_files fs = [] then fst (lsplit_path path) else fs_name fs)"

definition add_file_borrow :: "string \<Rightarrow> string \<Rightarrow> int \<Rightarrow> bool \<Rightarrow> file_storage \<Rightarrow> file_storage" where
  "add_file_borrow filename path sz pad_file fs =
     (let m_name = added_name fs path;
          (paths, e) = update_path_index m_name (fs_paths fs) internal_file_entry path (filename = []);
          e = (if filename \<noteq> [] then set_name filename True e else e);
          e = e\<lparr>fe_size := sz mod 2 ^ 48, fe_offset := fs_total_size fs mod 2 ^ 48,
                fe_pad_file := pad_file\<rparr>
      in fs\<lparr>fs_name := m_name, fs_paths := paths, fs_files := fs_files fs @ [e],
            fs_total_size := int64 (fs_total_size fs + fe_size e)\<rparr>)"

subsection \<open>What adding keeps\<close>

lemma update_path_index_frame:
  assumes "update_path_index m_name paths e path s = (paths', e')"
  shows "fe_offset e' = fe_offset e" "fe_size e' = fe_size e" "fe_pad_file e' = fe_pad_file e"
  using assms
  by (auto simp: update_path_index_def set_name_def Let_def split: if_splits prod.splits)

text \<open>
  A storage under construction: the files lie one after the other and the total size is their
  sum, as long as that sum fits the fields.
\<close>

definition sizes_sum :: "file_storage \<Rightarrow> int" where
  "sizes_sum fs = sum_list (map fe_size (fs_files fs))"

definition filling :: "file_storage \<Rightarrow> bool" where
  "filling fs \<longleftrightarrow>
     (\<forall>f\<in>set (fs_files fs). 0 \<le> fe_size f) \<and>
     (sizes_sum fs < 2 ^ 48 \<longrightarrow> contiguous 0 (fs_files fs) \<and> fs_total_size fs = sizes_sum fs)"

lemma contiguous_snoc:
  "contiguous pos (fs @ [f]) \<longleftrightarrow>
     contiguous pos fs \<and> fe_offset f = pos + sum_list (map fe_size fs) \<and> 0 \<le> fe_size f"
  by (induction fs arbitrary: pos) (auto simp: algebra_simps)

lemma add_file_borrow_files:
  "\<exists>e. fs_files (add_file_borrow filename path sz pad fs) = fs_files fs @ [e] \<and>
     fe_size e = sz mod 2 ^ 48 \<and> fe_offset e = fs_total_size fs mod 2 ^ 48 \<and>
     fs_total_size (add_file_borrow filename path sz pad fs) = int64 (fs_total_size fs + fe_size e)"
  by (auto simp: add_file_borrow_def Let_def split: prod.splits)

lemma add_file_borrow_frame [simp]:
  "fs_piece_length (add_file_borrow filename path sz pad fs) = fs_piece_length fs"
  "fs_num_pieces (add_file_borrow filename path sz pad fs) = fs_num_pieces fs"
  by (simp_all add: add_file_borrow_def Let_def split: prod.splits)

lemma add_file_borrow_filling:
  assumes "filling fs"
  shows "filling (add_file_borrow filename path sz pad fs)"
proof -
  obtain e where e: "fs_files (add_file_borrow filename path sz pad fs) = fs_files fs @ [e]"
      "fe_size e = sz mod 2 ^ 48" "fe_offset e = fs_total_size fs mod 2 ^ 48"
      "fs_total_size (add_file_borrow filename path sz pad fs) = int64 (fs_total_size fs + fe_size e)"
    using add_file_borrow_files by blast
  have pos: "0 \<le> fe_size e" "fe_size e < 2 ^ 48" using e(2) by simp_all
  have nn: "0 \<le> sizes_sum fs"
    using assms unfolding sizes_sum_def filling_def by (intro sum_list_nonneg) auto
  show ?thesis
  proof (cases "sizes_sum fs + fe_size e < 2 ^ 48")
    case True
    then have "contiguous 0 (fs_files fs)" "fs_total_size fs = sizes_sum fs"
      using assms pos by (auto simp: filling_def)
    moreover have "fe_offset e = sizes_sum fs" using calculation(2) True pos nn e(3) by simp
    ultimately show ?thesis
      using assms e(1,4) True pos nn by (auto simp: filling_def sizes_sum_def contiguous_snoc)
  next
    case False
    then show ?thesis using assms e(1) pos by (auto simp: filling_def sizes_sum_def)
  qed
qed

subsection \<open>The path of an added file\<close>

text \<open>A relative path as the list of its elements.\<close>

fun path_of :: "string list \<Rightarrow> string" where
  "path_of [] = []"
| "path_of [x] = x"
| "path_of (x # y # ys) = x @ sep # path_of (y # ys)"

definition plain :: "string \<Rightarrow> bool" where
  "plain x \<longleftrightarrow> x \<noteq> [] \<and> x \<noteq> ''.'' \<and> sep \<notin> set x \<and> CHR 0x00 \<notin> set x"

lemma safe_element_plain: "safe_element x \<Longrightarrow> plain x"
proof -
  have "\<not> safe_char sep" "\<not> safe_char CHR 0x00" by (simp_all add: safe_char_def)
  then show "safe_element x \<Longrightarrow> plain x" unfolding safe_element_def plain_def by blast
qed

lemma path_of_Cons: "path_of (x # xs) = (if xs = [] then x else x @ sep # path_of xs)"
  by (cases xs) simp_all

declare path_of.simps(3) [simp del]

lemma path_of_append:
  "path_of (xs @ ys) = (if xs = [] then path_of ys else if ys = [] then path_of xs
     else path_of xs @ sep # path_of ys)"
  by (induction xs) (simp_all add: path_of_Cons del: path_of.simps(2,3))

lemma path_of_ends:
  assumes "\<forall>x\<in>set xs. plain x" "xs \<noteq> []"
  shows "path_of xs \<noteq> []" "hd (path_of xs) \<noteq> sep" "last (path_of xs) \<noteq> sep" "CHR 0x00 \<notin> set (path_of xs)"
proof -
  obtain y ys where y: "xs = y # ys" using assms(2) by (cases xs) auto
  obtain zs z where z: "xs = zs @ [z]" using assms(2) by (metis append_butlast_last_id)
  have "plain y" using assms(1) y by simp
  moreover have "plain z" using assms(1) z by simp
  ultimately have yz: "y \<noteq> []" "sep \<notin> set y" "z \<noteq> []" "sep \<notin> set z" by (simp_all add: plain_def)
  show ne: "path_of xs \<noteq> []" using y yz by (simp add: path_of_Cons)
  have "hd (path_of xs) = hd y" using y yz by (simp add: path_of_Cons)
  then show "hd (path_of xs) \<noteq> sep" using yz by (metis hd_in_set)
  have "last (path_of xs) = last z" using z yz by (simp add: path_of_append)
  then show "last (path_of xs) \<noteq> sep" using yz by (metis last_in_set)
  show "CHR 0x00 \<notin> set (path_of xs)"
    using assms(1) by (induction xs) (auto simp: path_of_Cons plain_def)
qed

lemma path_of_not_dot:
  assumes "\<forall>x\<in>set xs. plain x"
  shows "path_of xs \<noteq> ''.''"
proof (cases xs)
  case (Cons y ys)
  then have "plain y" using assms by simp
  then show ?thesis using Cons by (auto simp: path_of_Cons plain_def append_eq_Cons_conv)
qed simp

lemma append_path_of:
  assumes "\<forall>x\<in>set xs. plain x" "\<forall>y\<in>set ys. plain y"
  shows "append_path (path_of xs) (path_of ys) = path_of (xs @ ys)"
proof (cases "xs = [] \<or> ys = []")
  case True
  then show ?thesis using path_of_not_dot [OF assms(1)] by (auto simp: append_path_def)
next
  case False
  then show ?thesis
    using path_of_not_dot [OF assms(1)] path_of_ends [OF assms(1)] path_of_ends [OF assms(2)]
    by (simp add: append_path_def path_of_append)
qed

lemma takeWhile_stop: "\<forall>c\<in>set x. P c \<Longrightarrow> \<not> P a \<Longrightarrow> takeWhile P (x @ a # y) = x"
  by (induction x) auto

lemma rsplit_path_of:
  assumes "\<forall>x\<in>set xs. plain x" "plain x"
  shows "rsplit_path (path_of (xs @ [x])) = (path_of xs, x)"
proof -
  let ?p = "path_of (xs @ [x])"
  have p: "?p \<noteq> []" "last ?p \<noteq> sep" using path_of_ends [of "xs @ [x]"] assms by auto
  have n: "\<forall>c\<in>set (rev x). c \<noteq> sep" using assms(2) by (auto simp: plain_def)
  show ?thesis
  proof (cases "xs = []")
    case True
    then show ?thesis using p n assms(2) by (simp add: rsplit_path_def takeWhile_eq_all_conv [THEN iffD2])
  next
    case False
    then have "takeWhile (\<lambda>c. c \<noteq> sep) (rev ?p) = rev x"
      using n by (simp add: path_of_append takeWhile_stop)
    then show ?thesis using p False by (simp add: rsplit_path_def path_of_append)
  qed
qed

lemma lsplit_path_of:
  assumes "\<forall>x\<in>set xs. plain x" "plain x"
  shows "lsplit_path (path_of (x # xs)) = (x, path_of xs)"
proof -
  let ?p = "path_of (x # xs)"
  have p: "?p \<noteq> []" "hd ?p \<noteq> sep" using path_of_ends [of "x # xs"] assms by auto
  have n: "\<forall>c\<in>set x. c \<noteq> sep" using assms(2) by (auto simp: plain_def)
  then have "takeWhile (\<lambda>c. c \<noteq> sep) ?p = x"
    by (simp add: path_of_Cons takeWhile_stop takeWhile_eq_all_conv [THEN iffD2])
  then show ?thesis using p by (auto simp: lsplit_path_def path_of_Cons)
qed

lemma rfind_nth: "rfind xs x = Some i \<Longrightarrow> i < length xs \<and> xs ! i = x"
proof -
  assume r: "rfind xs x = Some i"
  let ?t = "takeWhile (\<lambda>y. y \<noteq> x) (rev xs)"
  have l: "length ?t < length (rev xs)" "i = length xs - length ?t - 1"
    using r length_takeWhile_le [of "\<lambda>y. y \<noteq> x" "rev xs"] by (auto simp: rfind_def Let_def split: if_splits)
  then have "rev xs ! length ?t = x" using nth_length_takeWhile by blast
  then show ?thesis using l by (simp add: rev_nth)
qed

lemma get_or_add_path_nth:
  assumes "get_or_add_path p paths = (i, paths')"
  shows "0 \<le> i" "nat i < length paths'" "paths' ! nat i = p" "\<exists>ps. paths' = paths @ ps"
  using assms rfind_nth by (auto simp: get_or_add_path_def split: option.splits)

text \<open>The path of an entry in a storage with the given name and paths.\<close>

definition entry_path :: "string \<Rightarrow> string list \<Rightarrow> file_entry \<Rightarrow> string" where
  "entry_path m_name paths e =
     file_path \<lparr>fs_name = m_name, fs_paths = paths, fs_files = [e], fs_total_size = 0, fs_num_pieces = 0,
       fs_piece_length = 0\<rparr> 0"

lemma file_path_entry: "file_path fs i = entry_path (fs_name fs) (fs_paths fs) (fs_files fs ! i)"
  by (simp add: entry_path_def file_path_def Let_def)

lemma append_path_empty [simp]: "append_path [] x = x"
  by (simp add: append_path_def)

lemma set_name_fields [simp]:
  "fe_path_index (set_name n b e) = fe_path_index e" "fe_no_root_dir (set_name n b e) = fe_no_root_dir e"
  by (simp_all add: set_name_def Let_def)

lemma set_name_borrowed: "n \<noteq> [] \<Longrightarrow> length n < name_is_owned \<Longrightarrow> set_name n True e = e\<lparr>fe_name := n\<rparr>"
  by (simp add: set_name_def Let_def name_is_owned_def)

lemma c_str_id: "CHR 0x00 \<notin> set s \<Longrightarrow> c_str s = s"
  unfolding c_str_def takeWhile_eq_all_conv by metis

lemma set_name_plain [simp]: "plain x \<Longrightarrow> fe_name (set_name x False e) = x"
  by (simp add: set_name_def plain_def c_str_id)

text \<open>Whoever sets the name of the entry to the last element, its path is the given one.\<close>

lemma update_path_index_path:
  assumes "\<forall>x\<in>set (xs @ [x]). plain x"
    and u: "update_path_index m_name paths e (path_of (xs @ [x])) s = (paths', e')"
  shows "entry_path m_name paths' (e'\<lparr>fe_name := x\<rparr>) = path_of (xs @ [x])"
    and "s \<Longrightarrow> fe_name e' = x" and "\<exists>ps. paths' = paths @ ps"
proof -
  have px: "plain x" "\<forall>y\<in>set xs. plain y" using assms(1) by auto
  have nc: "\<not> is_complete (path_of (xs @ [x]))"
    using path_of_ends [of "xs @ [x]"] assms(1) by (simp add: is_complete_def)
  note sp = rsplit_path_of [OF px(2,1)]
  show "s \<Longrightarrow> fe_name e' = x"
    using u nc sp px(1) by (auto simp: update_path_index_def Let_def split: if_splits prod.splits)
  show "\<exists>ps. paths' = paths @ ps"
    using u nc sp get_or_add_path_nth(4) by (fastforce simp: update_path_index_def Let_def split: if_splits prod.splits)
  show "entry_path m_name paths' (e'\<lparr>fe_name := x\<rparr>) = path_of (xs @ [x])"
  proof (cases xs)
    case Nil
    then show ?thesis using u nc sp px(1)
      by (auto simp: update_path_index_def entry_path_def file_path_def Let_def split: if_splits)
  next
    case (Cons r rs)
    then have r: "plain r" "\<forall>y\<in>set rs. plain y" using px(2) by auto
    have b: "path_of xs \<noteq> []" using path_of_ends(1) [OF px(2)] Cons by simp
    have ls: "lsplit_path (path_of xs) = (r, path_of rs)" using lsplit_path_of [OF r(2,1)] Cons by simp
    have dw: "dropWhile (\<lambda>c. c = sep) (path_of rs) = path_of rs"
      using path_of_ends(2) [OF r(2)] by (cases rs; cases "path_of rs") auto
    let ?b = "if r = m_name then path_of rs else path_of xs"
    obtain i where g: "get_or_add_path ?b paths = (i, paths')" and
      e': "fe_path_index e' = i" "fe_no_root_dir e' \<longleftrightarrow> r \<noteq> m_name"
      using u nc sp b ls dw
      by (auto simp: update_path_index_def Let_def split: if_splits prod.splits)
    note n = get_or_add_path_nth(1-3) [OF g]
    have x: "path_of [x] = x" "\<forall>y\<in>set [x]. plain y" using px(1) by simp_all
    show ?thesis
    proof (cases "r = m_name")
      case True
      have rr: "path_of [r] = r" "\<forall>y\<in>set [r]. plain y" using r by simp_all
      have "append_path (append_path r (path_of rs)) x = path_of (xs @ [x])"
        using append_path_of [OF rr(2) r(2)] append_path_of [of "r # rs" "[x]"] px Cons x r by simp
      then show ?thesis using n e' True by (auto simp: entry_path_def file_path_def)
    next
      case False
      have "append_path (path_of xs) x = path_of (xs @ [x])" using append_path_of [OF px(2) x(2)] by simp
      then show ?thesis using n e' False by (auto simp: entry_path_def file_path_def)
    qed
  qed
qed

text \<open>Every entry refers to a path the storage has, so a new path changes the path of no other file.\<close>

definition index_ok :: "string list \<Rightarrow> file_entry \<Rightarrow> bool" where
  "index_ok paths f \<longleftrightarrow>
     fe_path_index f = -2 \<or> fe_path_index f = -1 \<or> 0 \<le> fe_path_index f \<and> nat (fe_path_index f) < length paths"

definition indices_ok :: "file_storage \<Rightarrow> bool" where
  "indices_ok fs \<longleftrightarrow> (\<forall>f\<in>set (fs_files fs). index_ok (fs_paths fs) f)"

lemma index_ok_more: "index_ok paths f \<Longrightarrow> index_ok (paths @ ps) f"
  by (auto simp: index_ok_def)

lemma update_path_index_paths:
  assumes "update_path_index m_name paths e path s = (paths', e')"
  shows "\<exists>ps. paths' = paths @ ps" and "index_ok paths' e'"
  using assms get_or_add_path_nth
  by (fastforce simp: index_ok_def update_path_index_def Let_def split: if_splits prod.splits)+

lemma entry_path_more: "index_ok paths e \<Longrightarrow> entry_path n (paths @ ps) e = entry_path n paths e"
  by (auto simp: index_ok_def entry_path_def file_path_def nth_append Let_def)

lemma entry_path_cong [simp]:
  "entry_path n paths (e\<lparr>fe_size := a, fe_offset := b, fe_pad_file := c\<rparr>) = entry_path n paths e"
  by (simp add: entry_path_def file_path_def Let_def)

lemma add_file_borrow_indices: "indices_ok fs \<Longrightarrow> indices_ok (add_file_borrow filename path sz pad fs)"
proof -
  assume ok: "indices_ok fs"
  obtain paths e where u: "update_path_index (added_name fs path) (fs_paths fs) internal_file_entry path (filename = []) = (paths, e)"
    by fastforce
  obtain ps where ps: "paths = fs_paths fs @ ps" using update_path_index_paths(1) [OF u] by blast
  have "index_ok paths e" by (rule update_path_index_paths(2) [OF u])
  then show ?thesis
    using ok index_ok_more [of "fs_paths fs" _ ps]
    by (auto simp: indices_ok_def add_file_borrow_def Let_def u ps) (auto simp: index_ok_def)
qed

lemma rename_file_indices:
  assumes "indices_ok fs"
  shows "indices_ok (rename_file i new fs)"
proof -
  obtain paths e where u: "update_path_index (fs_name fs) (fs_paths fs) (fs_files fs ! i) new True = (paths, e)"
    by fastforce
  obtain ps where ps: "paths = fs_paths fs @ ps" using update_path_index_paths(1) [OF u] by blast
  show ?thesis
    using update_path_index_paths(2) [OF u] assms index_ok_more [of "fs_paths fs" _ ps]
    by (auto simp: indices_ok_def rename_file_def u ps dest!: set_update_subset_insert [THEN subsetD])
qed

lemma rename_file_path:
  assumes "\<forall>x\<in>set (xs @ [x]). plain x" "i < length (fs_files fs)" "indices_ok fs" "j < length (fs_files fs)"
  shows "file_path (rename_file i (path_of (xs @ [x])) fs) j = (if j = i then path_of (xs @ [x]) else file_path fs j)"
proof -
  obtain paths e where u: "update_path_index (fs_name fs) (fs_paths fs) (fs_files fs ! i) (path_of (xs @ [x])) True = (paths, e)"
    by fastforce
  note p = update_path_index_path [OF assms(1) u]
  have "e\<lparr>fe_name := x\<rparr> = e" using p(2) by simp
  moreover have "index_ok (fs_paths fs) (fs_files fs ! j)"
    using assms(3,4) by (simp add: indices_ok_def)
  ultimately show ?thesis
    using p(1,3) assms(2,4) entry_path_more by (auto simp: file_path_entry rename_file_def u)
qed

text \<open>C26: a file added to a storage with a path of sanitized elements, and with its last element as
  the borrowed name or with no name, has that path, and the files added before keep theirs as long
  as the name of the storage stays.\<close>

theorem added_file_path:
  assumes "\<forall>x\<in>set (xs @ [x]). safe_element x" "filename = [] \<or> filename = x \<and> length x < name_is_owned"
    and "indices_ok fs" "fs' = add_file_borrow filename (path_of (xs @ [x])) sz pad fs"
  shows "file_path fs' (length (fs_files fs)) = path_of (xs @ [x]) \<and>
    (fs_name fs' = fs_name fs \<longrightarrow> (\<forall>i < length (fs_files fs). file_path fs' i = file_path fs i))"
proof -
  have plain: "\<forall>y\<in>set (xs @ [x]). plain y" using assms(1) safe_element_plain by blast
  let ?n = "added_name fs (path_of (xs @ [x]))"
  obtain paths e where u: "update_path_index ?n (fs_paths fs) internal_file_entry (path_of (xs @ [x])) (filename = []) = (paths, e)"
    by fastforce
  note p = update_path_index_path [OF plain u]
  have "x \<noteq> []" using plain by (simp add: plain_def)
  then have n: "(if filename \<noteq> [] then set_name filename True e else e) = e\<lparr>fe_name := x\<rparr>"
    using assms(2) p(2) by (auto simp: set_name_borrowed)
  have eq: "fs_name fs' = ?n" "fs_paths fs' = paths" "fs_files fs' = fs_files fs @ [e\<lparr>fe_name := x,
      fe_size := sz mod 2 ^ 48, fe_offset := fs_total_size fs mod 2 ^ 48, fe_pad_file := pad\<rparr>]"
    by (simp_all add: assms(4) add_file_borrow_def u n Let_def)
  have "file_path fs' (length (fs_files fs)) = path_of (xs @ [x])"
    using p(1) by (simp add: eq file_path_entry)
  moreover have "index_ok (fs_paths fs) (fs_files fs ! i)" if "i < length (fs_files fs)" for i
    using assms(3) that by (simp add: indices_ok_def)
  then have "fs_name fs' = fs_name fs \<longrightarrow> (\<forall>i < length (fs_files fs). file_path fs' i = file_path fs i)"
    using p(3) entry_path_more by (auto simp: eq(2,3) file_path_entry nth_append)
  ultimately show ?thesis by blast
qed

theorem added_file_path_witness:
  "file_path (add_file_borrow ''b'' ''root/a/b'' 5 False
     \<lparr>fs_name = [], fs_paths = [], fs_files = [], fs_total_size = 0, fs_num_pieces = 0, fs_piece_length = 1\<rparr>) 0
   = ''root/a/b''"
  using added_file_path [of "[''root'', ''a'']" "''b''" "''b''"
      "\<lparr>fs_name = [], fs_paths = [], fs_files = [], fs_total_size = 0, fs_num_pieces = 0, fs_piece_length = 1\<rparr>"]
  by (simp add: safe_element_def safe_char_def name_is_owned_def indices_ok_def path_of_Cons)

end
