(* ===== verification/Torrent_Duplicates.thy ===== *)
theory Torrent_Duplicates
  imports Torrent_Storage Net
begin

section \<open>Files with the same path\<close>

text \<open>
  \<open>resolve_duplicate_filenames\<close> of \<open>torrent_info.cpp\<close> and the hashes of \<open>file_storage.cpp\<close> it works with:
  a torrent file may give two files the same path, or paths that differ only in case, and the
  later one is renamed. The CRC of boost is a parameter (\<open>crc\<close>, of all the bytes processed), and so
  is the order in which the hash table of the standard library enumerates equal keys (\<open>ord\<close>).
\<close>

subsection \<open>Path hashes\<close>

definition to_lower :: "char \<Rightarrow> char" where
  "to_lower c = (if 65 \<le> code c \<and> code c \<le> 90 then char_of (code c - 65 + 97) else c)"

definition lower :: "string \<Rightarrow> string" where
  "lower s = map to_lower s"

definition string_equal_no_case :: "string \<Rightarrow> string \<Rightarrow> bool" where
  "string_equal_no_case s1 s2 \<longleftrightarrow>
     (if length s1 \<noteq> length s2 then False else list_all2 (\<lambda>c1 c2. to_lower c1 = to_lower c2) s1 s2)"

text \<open>The checksums taken while a path is processed behind the bytes \<open>processed\<close>.\<close>

fun path_hashes :: "(string \<Rightarrow> u32) \<Rightarrow> string \<Rightarrow> string \<Rightarrow> u32 list" where
  "path_hashes crc processed [] = [crc processed]"
| "path_hashes crc processed (c # str) =
     (if c = sep then [crc processed] else []) @ path_hashes crc (processed @ [to_lower c]) str"

definition process_path_lowercase :: "(string \<Rightarrow> u32) \<Rightarrow> string \<Rightarrow> string \<Rightarrow> u32 list" where
  "process_path_lowercase crc processed str = (if str = [] then [] else path_hashes crc processed str)"

definition all_path_hashes :: "(string \<Rightarrow> u32) \<Rightarrow> file_storage \<Rightarrow> u32 list" where
  "all_path_hashes crc fs =
     (let processed = (if fs_name fs \<noteq> [] then lower (fs_name fs) @ ''/'' else [])
      in concat (map (process_path_lowercase crc processed) (fs_paths fs)))"

text \<open>The save path is empty in every call.\<close>

definition dir_prefix :: "file_storage \<Rightarrow> file_entry \<Rightarrow> string" where
  "dir_prefix fs fe =
     (let p = fs_paths fs ! nat (fe_path_index fe) in if p \<noteq> [] then lower p @ ''/'' else [])"

definition file_path_hash :: "(string \<Rightarrow> u32) \<Rightarrow> file_storage \<Rightarrow> nat \<Rightarrow> u32" where
  "file_path_hash crc fs index =
     (let fe = fs_files fs ! index in
      if fe_path_index fe = -2 then crc (lower (fe_name fe))
      else if fe_path_index fe = -1 then crc (lower (fe_name fe))
      else if fe_no_root_dir fe then crc (dir_prefix fs fe @ lower (fe_name fe))
      else crc (lower (fs_name fs) @ ''/'' @ dir_prefix fs fe @ lower (fe_name fe)))"

subsection \<open>Renaming the slow way\<close>

text \<open>An entry of the table: the hash, the file (or a directory, if negative) and the length of the directory.\<close>

record name_entry =
  ne_hash :: u32
  ne_idx :: int
  ne_length :: nat

fun dir_entries_loop :: "(string \<Rightarrow> u32) \<Rightarrow> int \<Rightarrow> string \<Rightarrow> nat \<Rightarrow> string \<Rightarrow> name_entry list" where
  "dir_entries_loop crc path_index processed count [] =
     [\<lparr>ne_hash = crc processed, ne_idx = path_index, ne_length = count\<rparr>]"
| "dir_entries_loop crc path_index processed count (c # path) =
     (if c = sep then [\<lparr>ne_hash = crc processed, ne_idx = path_index, ne_length = count\<rparr>] else [])
       @ dir_entries_loop crc path_index (processed @ [to_lower c]) (Suc count) path"

definition dir_entries :: "(string \<Rightarrow> u32) \<Rightarrow> file_storage \<Rightarrow> name_entry list" where
  "dir_entries crc fs =
     concat (map (\<lambda>k. let path = fs_paths fs ! k in
         dir_entries_loop crc (- int k - 1) (lower (fs_name fs) @ (if path \<noteq> [] then ''/'' else [])) 0 path)
       [0..<length (fs_paths fs)])"

definition other_name :: "file_storage \<Rightarrow> name_entry \<Rightarrow> string" where
  "other_name fs o' =
     (if ne_idx o' < 0
      then combine_path (fs_name fs) (take (ne_length o') (fs_paths fs ! nat (- ne_idx o' - 1)))
      else file_path fs (nat (ne_idx o')))"

text \<open>\<open>new_ext\<close> is a \<open>char[50]\<close>.\<close>

definition new_filename :: "string \<Rightarrow> nat \<Rightarrow> string" where
  "new_filename filename cnt =
     remove_extension filename @ take 49 (''.'' @ dec cnt @ c_str (extension filename))"

fun find_filename :: "nat \<Rightarrow> (string \<Rightarrow> u32) \<Rightarrow> u32 list \<Rightarrow> string \<Rightarrow> nat \<Rightarrow> string option" where
  "find_filename 0 crc keys filename cnt = None"
| "find_filename (Suc fuel) crc keys filename cnt =
     (let new = new_filename filename (Suc cnt) in
      if crc (lower new) \<notin> set keys then Some new
      else find_filename fuel crc keys filename (Suc cnt))"

text \<open>The loop over the files \<open>is\<close>: \<open>None\<close> if the fuel does not suffice for a new name.\<close>

fun resolve_slow_loop ::
  "(string \<Rightarrow> u32) \<Rightarrow> (name_entry list \<Rightarrow> name_entry list) \<Rightarrow> nat
     \<Rightarrow> nat list \<Rightarrow> name_entry list \<Rightarrow> file_storage \<Rightarrow> file_storage option" where
  "resolve_slow_loop crc ord fuel [] files fs = Some fs"
| "resolve_slow_loop crc ord fuel (i # js) files fs =
     (let hash = file_path_hash crc fs i;
          range = ord (filter (\<lambda>e. ne_hash e = hash) files)
      in case find (\<lambda>e. string_equal_no_case (other_name fs e) (file_path fs i)) range of
           None \<Rightarrow>
             resolve_slow_loop crc ord fuel js
               (files @ [\<lparr>ne_hash = hash, ne_idx = int i, ne_length = 0\<rparr>]) fs
         | Some match \<Rightarrow>
             if ne_idx match \<ge> 0 \<and> fe_pad_file (fs_files fs ! i)
                  \<and> fe_pad_file (fs_files fs ! nat (ne_idx match))
                  \<and> fe_size (fs_files fs ! i) = fe_size (fs_files fs ! nat (ne_idx match))
             then resolve_slow_loop crc ord fuel js files fs
             else
               case find_filename fuel crc (map ne_hash files) (file_path fs i) 0 of
                 None \<Rightarrow> None
               | Some new \<Rightarrow>
                   resolve_slow_loop crc ord fuel js
                     (files @ [\<lparr>ne_hash = crc (lower new), ne_idx = int i, ne_length = 0\<rparr>])
                     (rename_file i new fs))"

definition resolve_duplicate_filenames_slow ::
  "(string \<Rightarrow> u32) \<Rightarrow> (name_entry list \<Rightarrow> name_entry list) \<Rightarrow> nat \<Rightarrow> file_storage \<Rightarrow> file_storage option" where
  "resolve_duplicate_filenames_slow crc ord fuel fs =
     resolve_slow_loop crc ord fuel (file_range fs) (dir_entries crc fs) fs"

fun insert_hashes :: "u32 list \<Rightarrow> u32 list \<Rightarrow> bool" where
  "insert_hashes [] files = True"
| "insert_hashes (h # hs) files = (if h \<in> set files then False else insert_hashes hs (h # files))"

definition resolve_duplicate_filenames ::
  "(string \<Rightarrow> u32) \<Rightarrow> (name_entry list \<Rightarrow> name_entry list) \<Rightarrow> nat \<Rightarrow> file_storage \<Rightarrow> file_storage option" where
  "resolve_duplicate_filenames crc ord fuel fs =
     (if insert_hashes (map (file_path_hash crc fs) (file_range fs)) (all_path_hashes crc fs) then Some fs
      else resolve_duplicate_filenames_slow crc ord fuel fs)"

subsection \<open>Clean storages\<close>

text \<open>The elements of all paths are plain names, as the sanitizer leaves them.\<close>

definition clean_paths :: "string list \<Rightarrow> bool" where
  "clean_paths paths \<longleftrightarrow> (\<forall>p\<in>set paths. \<exists>ps. (\<forall>x\<in>set ps. plain x) \<and> p = path_of ps)"

definition clean_entry :: "string list \<Rightarrow> file_entry \<Rightarrow> bool" where
  "clean_entry paths f \<longleftrightarrow> index_ok paths f \<and> fe_path_index f \<noteq> -2 \<and> plain (fe_name f)"

definition clean_storage :: "file_storage \<Rightarrow> bool" where
  "clean_storage fs \<longleftrightarrow>
     plain (fs_name fs) \<and> clean_paths (fs_paths fs) \<and> (\<forall>f\<in>set (fs_files fs). clean_entry (fs_paths fs) f)"

lemma path_of_single [simp]: "path_of [x] = x"
  by simp

text \<open>The path of an entry of a clean storage, and the string its hash is taken of.\<close>

lemma clean_entry_path:
  assumes "plain m_name" "clean_paths paths" "clean_entry paths e"
  shows "\<exists>xs. (\<forall>x\<in>set xs. plain x) \<and> entry_path m_name paths e = path_of (xs @ [fe_name e])
    \<and> (0 \<le> fe_path_index e \<longrightarrow> (\<exists>ps. paths ! nat (fe_path_index e) = path_of ps \<and>
         xs = (if fe_no_root_dir e then ps else m_name # ps)))
    \<and> (fe_path_index e = -1 \<longrightarrow> xs = [])"
proof -
  have n: "plain (fe_name e)" using assms(3) by (simp add: clean_entry_def)
  have en: "\<forall>x\<in>set [fe_name e]. plain x" using n by simp
  consider (none) "fe_path_index e = -1" | (dir) "0 \<le> fe_path_index e" "nat (fe_path_index e) < length paths"
    using assms(3) by (auto simp: clean_entry_def index_ok_def)
  then show ?thesis
  proof cases
    case none
    then show ?thesis by (intro exI [of _ "[]"]) (simp add: entry_path_def file_path_def)
  next
    case dir
    then obtain ps where ps: "\<forall>x\<in>set ps. plain x" "paths ! nat (fe_path_index e) = path_of ps"
      using assms(2) unfolding clean_paths_def by (metis nth_mem)
    let ?xs = "if fe_no_root_dir e then ps else m_name # ps"
    have xs: "\<forall>x\<in>set ?xs. plain x" using ps(1) assms(1) by simp
    have "append_path (path_of ?xs) (fe_name e) = path_of (?xs @ [fe_name e])"
      using append_path_of [OF xs en] by simp
    moreover have "append_path m_name (path_of ps) = path_of (m_name # ps)"
      using append_path_of [of "[m_name]" ps] assms(1) ps(1) by simp
    ultimately have "entry_path m_name paths e = path_of (?xs @ [fe_name e])"
      using dir ps(2) by (auto simp: entry_path_def file_path_def Let_def)
    then show ?thesis using xs ps(2) dir by (intro exI [of _ ?xs]) auto
  qed
qed

lemma lower_append [simp]: "lower (a @ b) = lower a @ lower b"
  by (simp add: lower_def)

lemma lower_Cons_sep [simp]: "lower (sep # a) = sep # lower a"
  by (simp add: lower_def to_lower_def)

lemma path_of_Nil_iff: "\<forall>x\<in>set xs. plain x \<Longrightarrow> path_of xs = [] \<longleftrightarrow> xs = []"
  using path_of_ends(1) by auto

lemma clean_hash:
  assumes "clean_storage fs" "i < length (fs_files fs)"
  shows "file_path_hash crc fs i = crc (lower (file_path fs i))"
proof -
  let ?e = "fs_files fs ! i"
  have e: "clean_entry (fs_paths fs) ?e" "plain (fs_name fs)" "clean_paths (fs_paths fs)"
    using assms by (auto simp: clean_storage_def)
  from clean_entry_path [OF e(2,3,1)] obtain xs where
    xs: "\<forall>x\<in>set xs. plain x" "file_path fs i = path_of (xs @ [fe_name ?e])"
      "0 \<le> fe_path_index ?e \<longrightarrow> (\<exists>ps. fs_paths fs ! nat (fe_path_index ?e) = path_of ps \<and>
         xs = (if fe_no_root_dir ?e then ps else fs_name fs # ps))" "fe_path_index ?e = -1 \<longrightarrow> xs = []"
    by (auto simp: file_path_entry)
  show ?thesis
  proof (cases "fe_path_index ?e = -1")
    case True
    then show ?thesis using xs(2,4) by (simp add: file_path_hash_def Let_def)
  next
    case False
    then have pos: "0 \<le> fe_path_index ?e" using e(1) by (auto simp: clean_entry_def index_ok_def)
    then obtain ps where ps: "fs_paths fs ! nat (fe_path_index ?e) = path_of ps"
      "xs = (if fe_no_root_dir ?e then ps else fs_name fs # ps)" using xs(3) by blast
    have "path_of ps = [] \<longleftrightarrow> ps = []" using xs(1) ps(2) path_of_Nil_iff by (auto split: if_splits)
    then show ?thesis using pos ps xs(2)
      by (auto simp: file_path_hash_def dir_prefix_def Let_def path_of_append path_of_Cons)
  qed
qed

lemma string_equal_no_case_lower: "string_equal_no_case a b \<longleftrightarrow> lower a = lower b"
  by (auto simp: string_equal_no_case_def lower_def list_all2_conv_all_nth list_eq_iff_nth_eq)

subsection \<open>New names\<close>

lemma dec_no_sep: "sep \<notin> set (dec n)"
proof
  assume "sep \<in> set (dec n)"
  then obtain d where "d < 10" "sep = digit d" using dec_digits_only by blast
  then have "code sep = 48 + d" using of_char_digit by (metis add.commute)
  then show False by simp
qed

text \<open>The last element of a path, with the prefix in front of it.\<close>

definition before :: "string list \<Rightarrow> string" where
  "before xs = (if xs = [] then [] else path_of xs @ ''/'')"

lemma path_of_snoc: "path_of (xs @ [x]) = before xs @ x"
  by (simp add: before_def path_of_append)

lemma takeWhile_not_in: "c \<notin> set s \<Longrightarrow> takeWhile (\<lambda>d. d \<noteq> c) s = s"
  by (induction s) auto

lemma strrchr_split:
  assumes "CHR 0x00 \<notin> set (a @ c # b)" "c \<notin> set b"
  shows "strrchr (a @ c # b) c = Some (length a)"
proof -
  have "takeWhile (\<lambda>d. d \<noteq> c) (rev b @ c # rev a) = rev b" using assms(2) by (intro takeWhile_stop) auto
  then show ?thesis using assms(1) by (simp add: strrchr_def c_str_id)
qed

lemma strrchr_none: "CHR 0x00 \<notin> set s \<Longrightarrow> c \<notin> set s \<Longrightarrow> strrchr s c = None"
  by (simp add: strrchr_def c_str_id takeWhile_not_in)

lemma strrchr_less:
  assumes "strrchr (a @ b) c = Some k" "CHR 0x00 \<notin> set (a @ b)" "c \<notin> set b"
  shows "k < length a"
proof (cases "c \<in> set a")
  case True
  then obtain a1 a2 where "a = a1 @ c # a2" "c \<notin> set a2" by (metis split_list_last)
  then show ?thesis using assms strrchr_split [of a1 c "a2 @ b"] by simp
next
  case False
  then show ?thesis using assms strrchr_none [of "a @ b" c] by simp
qed

lemma extension_cases [consumes 1]:
  assumes "plain x"
  obtains (dot) a b where "x = a @ CHR ''.'' # b" "CHR ''.'' \<notin> set b" "extension (path_of (xs @ [x])) = CHR ''.'' # b"
  | (none) "CHR ''.'' \<notin> set x" "extension (path_of (xs @ [x])) = []"
proof (cases "CHR ''.'' \<in> set x")
  case True
  then obtain a b where ab: "x = a @ CHR ''.'' # b" "CHR ''.'' \<notin> set b" by (metis split_list_last)
  have "sep \<notin> set b" using assms ab(1) by (simp add: plain_def)
  then have "takeWhile (\<lambda>c. c \<noteq> sep \<and> c \<noteq> CHR ''.'') (rev b @ CHR ''.'' # rev a @ rev (before xs)) = rev b"
    using ab(2) by (intro takeWhile_stop) auto
  then have "extension (path_of (xs @ [x])) = CHR ''.'' # b"
    by (simp add: extension_def path_of_snoc ab(1))
  with ab that(1) show ?thesis by blast
next
  case False
  have ns: "\<forall>c\<in>set (rev x). c \<noteq> sep \<and> c \<noteq> CHR ''.''" using assms False by (auto simp: plain_def)
  have "extension (path_of (xs @ [x])) = []"
  proof (cases "xs = []")
    case True
    have "takeWhile (\<lambda>c. c \<noteq> sep \<and> c \<noteq> CHR ''.'') (rev x) = rev x"
      unfolding takeWhile_eq_all_conv by (rule ns)
    note stop = this
    show ?thesis using True by (simp add: extension_def stop)
  next
    case False
    then have "takeWhile (\<lambda>c. c \<noteq> sep \<and> c \<noteq> CHR ''.'') (rev x @ sep # rev (path_of xs)) = rev x"
      using ns by (intro takeWhile_stop) auto
    then show ?thesis using False by (simp add: extension_def path_of_snoc before_def)
  qed
  with False that(2) show ?thesis by blast
qed

lemma remove_extension_last:
  assumes "\<forall>y\<in>set (xs @ [x]). plain y"
  shows "\<exists>a b. x = a @ b \<and> remove_extension (path_of (xs @ [x])) = before xs @ a"
proof -
  have x: "plain x" using assms by simp
  have z: "CHR 0x00 \<notin> set (before xs @ x)" using path_of_ends(4) [OF assms] by (simp add: path_of_snoc)
  show ?thesis
    using x
  proof (cases rule: extension_cases [of x xs])
    case (dot a b)
    have "strrchr (before xs @ x) CHR ''.'' = Some (length (before xs @ a))"
      using strrchr_split [of "before xs @ a" "CHR ''.''" b] z dot by simp
    moreover have "k < length (before xs)" if "strrchr (before xs @ x) sep = Some k" for k
      using strrchr_less [OF that z] x by (simp add: plain_def)
    ultimately have "remove_extension (path_of (xs @ [x])) = before xs @ x
        \<or> remove_extension (path_of (xs @ [x])) = before xs @ a"
      by (auto simp: remove_extension_def path_of_snoc dot(1) split: option.splits)
    then show ?thesis
    proof
      assume "remove_extension (path_of (xs @ [x])) = before xs @ x"
      then show ?thesis by (intro exI [of _ x] exI [of _ "[]"]) simp
    next
      assume "remove_extension (path_of (xs @ [x])) = before xs @ a"
      then show ?thesis using dot(1) by blast
    qed
  next
    case none
    have "remove_extension (path_of (xs @ [x])) = before xs @ x"
    proof (cases "strrchr (before xs @ x) CHR ''.''")
      case None
      then show ?thesis by (simp add: remove_extension_def path_of_snoc)
    next
      case (Some k)
      then have k: "k < length (before xs)" using strrchr_less [OF _ z none(1)] by blast
      then have ne: "xs \<noteq> []" by (auto simp: before_def)
      have "strrchr (path_of xs @ sep # x) sep = Some (length (path_of xs))"
        using strrchr_split [of "path_of xs" sep x] z x ne by (simp add: before_def plain_def)
      moreover have "k \<noteq> length (path_of xs)"
        using Some strrchr_less [of "path_of xs" "sep # x" "CHR ''.''" k] z none(1) ne by (auto simp: before_def)
      ultimately show ?thesis using Some k ne by (simp add: remove_extension_def path_of_snoc before_def)
    qed
    then show ?thesis by (intro exI [of _ x] exI [of _ "[]"]) simp
  qed
qed

text \<open>A new name changes the last element only, and into a plain one.\<close>

lemma new_filename_last:
  assumes "\<forall>y\<in>set (xs @ [x]). plain y"
  shows "\<exists>y. plain y \<and> new_filename (path_of (xs @ [x])) cnt = path_of (xs @ [y])"
proof -
  have x: "plain x" using assms by simp
  let ?ext = "extension (path_of (xs @ [x]))"
  obtain a b where a: "x = a @ b" "remove_extension (path_of (xs @ [x])) = before xs @ a"
    using remove_extension_last [OF assms] by blast
  have ext: "set ?ext \<subseteq> set x" by (rule extension_cases [OF x, of xs]) auto
  have cs: "set (c_str ?ext) \<subseteq> set ?ext" using set_takeWhileD by (fastforce simp: c_str_def)
  let ?t = "take 49 (''.'' @ dec cnt @ c_str ?ext)"
  obtain d ds where d: "dec cnt = d # ds" using dec_not_Nil by (cases "dec cnt") auto
  have t: "?t = CHR ''.'' # d # take 47 (ds @ c_str ?ext)" by (simp add: d)
  let ?chars = "{CHR ''.''} \<union> set (dec cnt) \<union> set x"
  have "set ?t \<subseteq> set (''.'' @ dec cnt @ c_str ?ext)" by (rule set_take_subset)
  also have "\<dots> \<subseteq> ?chars" using ext cs by auto
  finally have "set ?t \<subseteq> ?chars" .
  moreover have "sep \<notin> ?chars" "CHR 0x00 \<notin> ?chars"
    using x dec_no_sep dec_no_nul by (simp_all add: plain_def)
  ultimately have "sep \<notin> set ?t" "CHR 0x00 \<notin> set ?t" by (meson subsetD)+
  moreover have "sep \<notin> set a" "CHR 0x00 \<notin> set a" using x a(1) by (auto simp: plain_def)
  moreover have "a @ ?t \<noteq> ''.''" "a @ ?t \<noteq> []" unfolding t by (auto simp: append_eq_Cons_conv)
  ultimately have "plain (a @ ?t)" unfolding plain_def by simp
  moreover have "new_filename (path_of (xs @ [x])) cnt = path_of (xs @ [a @ ?t])"
    using a(2) by (simp add: new_filename_def path_of_snoc)
  ultimately show ?thesis by blast
qed

lemma find_filename_new:
  assumes "find_filename fuel crc keys filename cnt = Some new"
  shows "crc (lower new) \<notin> set keys" and "\<exists>c. new = new_filename filename c"
  using assms by (induction fuel crc keys filename cnt rule: find_filename.induct) (auto simp: Let_def split: if_splits)

subsection \<open>Renaming keeps a storage clean\<close>

lemma get_or_add_path_clean:
  assumes "clean_paths paths" "\<forall>x\<in>set ps. plain x" "get_or_add_path (path_of ps) paths = (i, paths')"
  shows "clean_paths paths'"
proof -
  have "set paths' \<subseteq> insert (path_of ps) (set paths)"
    using assms(3) by (auto simp: get_or_add_path_def split: option.splits)
  then show ?thesis using assms(1,2) unfolding clean_paths_def by blast
qed

lemma update_path_index_clean:
  assumes "clean_paths paths" "\<forall>y\<in>set (xs @ [x]). plain y"
    and u: "update_path_index m_name paths e (path_of (xs @ [x])) True = (paths', e')"
  shows "clean_paths paths' \<and> clean_entry paths' e'"
proof -
  have px: "plain x" "\<forall>y\<in>set xs. plain y" using assms(2) by auto
  have nc: "\<not> is_complete (path_of (xs @ [x]))"
    using path_of_ends [of "xs @ [x]"] assms(2) by (simp add: is_complete_def)
  note sp = rsplit_path_of [OF px(2,1)]
  have "clean_paths paths' \<and> fe_path_index e' \<noteq> -2"
  proof (cases xs)
    case Nil
    then show ?thesis using u nc sp assms(1) by (auto simp: update_path_index_def Let_def)
  next
    case (Cons r rs)
    then have r: "plain r" "\<forall>y\<in>set rs. plain y" using px(2) by auto
    have b: "path_of xs \<noteq> []" using path_of_ends(1) [OF px(2)] Cons by simp
    have ls: "lsplit_path (path_of xs) = (r, path_of rs)" using lsplit_path_of [OF r(2,1)] Cons by simp
    have dw: "dropWhile (\<lambda>c. c = sep) (path_of rs) = path_of rs"
      using path_of_ends(2) [OF r(2)] by (cases rs; cases "path_of rs") auto
    obtain ps i where g: "get_or_add_path (path_of ps) paths = (i, paths')" "\<forall>y\<in>set ps. plain y"
        "fe_path_index e' = i"
      using u nc sp b ls dw r(2) px(2)
      by (auto simp: update_path_index_def Let_def split: if_splits prod.splits)
    show ?thesis using get_or_add_path_clean [OF assms(1) g(2,1)] get_or_add_path_nth(1) [OF g(1)] g(3) by simp
  qed
  moreover have "fe_name e' = x" by (rule update_path_index_path(2) [OF assms(2) u]) simp
  ultimately show ?thesis using update_path_index_paths(2) [OF u] px(1) by (simp add: clean_entry_def)
qed

lemma clean_entry_more: "clean_entry paths f \<Longrightarrow> clean_entry (paths @ ps) f"
  by (simp add: clean_entry_def index_ok_more)

lemma rename_file_clean:
  assumes "clean_storage fs" "\<forall>y\<in>set (xs @ [x]). plain y" "i < length (fs_files fs)"
  shows "clean_storage (rename_file i (path_of (xs @ [x])) fs)"
proof -
  obtain paths e where u: "update_path_index (fs_name fs) (fs_paths fs) (fs_files fs ! i) (path_of (xs @ [x])) True = (paths, e)"
    by fastforce
  obtain ps where ps: "paths = fs_paths fs @ ps" using update_path_index_paths(1) [OF u] by blast
  have c: "clean_paths paths" "clean_entry paths e"
    using update_path_index_clean [OF _ assms(2) u] assms(1) by (simp_all add: clean_storage_def)
  then show ?thesis
    using assms(1) clean_entry_more [of "fs_paths fs" _ ps]
    by (auto simp: clean_storage_def rename_file_def u ps dest!: set_update_subset_insert [THEN subsetD])
qed

lemma rename_file_frame:
  "length (fs_files (rename_file i new fs)) = length (fs_files fs)"
  "j < length (fs_files fs) \<Longrightarrow> fe_pad_file (fs_files (rename_file i new fs) ! j) = fe_pad_file (fs_files fs ! j)"
  "j < length (fs_files fs) \<Longrightarrow> fe_size (fs_files (rename_file i new fs) ! j) = fe_size (fs_files fs ! j)"
  by (cases "j = i"; auto simp: rename_file_def dest: update_path_index_frame split: prod.splits)+

lemma clean_indices: "clean_storage fs \<Longrightarrow> indices_ok fs"
  by (simp add: clean_storage_def indices_ok_def clean_entry_def)

text \<open>A file of a clean storage renamed to a new name has it, and the others keep their paths.\<close>

lemma rename_new:
  assumes "clean_storage fs" "i < length (fs_files fs)" "new = new_filename (file_path fs i) c"
  shows "clean_storage (rename_file i new fs)"
    and "j < length (fs_files fs) \<Longrightarrow>
      file_path (rename_file i new fs) j = (if j = i then new else file_path fs j)"
proof -
  let ?e = "fs_files fs ! i"
  have e: "clean_entry (fs_paths fs) ?e" "plain (fs_name fs)" "clean_paths (fs_paths fs)"
    using assms by (auto simp: clean_storage_def)
  from clean_entry_path [OF e(2,3,1)] obtain xs where
    xs: "\<forall>x\<in>set xs. plain x" "file_path fs i = path_of (xs @ [fe_name ?e])" by (auto simp: file_path_entry)
  have "\<forall>y\<in>set (xs @ [fe_name ?e]). plain y" using xs(1) e(1) by (simp add: clean_entry_def)
  from new_filename_last [OF this, of c] obtain y where
    y: "plain y" "new = path_of (xs @ [y])" using xs(2) assms(3) by auto
  then have p: "\<forall>z\<in>set (xs @ [y]). plain z" using xs(1) by simp
  show "clean_storage (rename_file i new fs)" using rename_file_clean [OF assms(1) p assms(2)] y(2) by simp
  show "j < length (fs_files fs) \<Longrightarrow>
      file_path (rename_file i new fs) j = (if j = i then new else file_path fs j)"
    using rename_file_path [OF p assms(2) clean_indices [OF assms(1)]] y(2) by simp
qed

subsection \<open>After resolving, no two files have the same path\<close>

text \<open>Pad files of the same size may share a path.\<close>

definition same_pad :: "file_storage \<Rightarrow> nat \<Rightarrow> nat \<Rightarrow> bool" where
  "same_pad fs i j \<longleftrightarrow>
     fe_pad_file (fs_files fs ! i) \<and> fe_pad_file (fs_files fs ! j) \<and>
     fe_size (fs_files fs ! i) = fe_size (fs_files fs ! j)"

definition apart :: "file_storage \<Rightarrow> nat set \<Rightarrow> bool" where
  "apart fs D \<longleftrightarrow>
     (\<forall>i\<in>D. \<forall>j\<in>D. i \<noteq> j \<longrightarrow> lower (file_path fs i) \<noteq> lower (file_path fs j) \<or> same_pad fs i j)"

text \<open>The table after the files in \<open>D\<close>: each of them is found by its path, if only through a pad file.\<close>

definition table_ok :: "(string \<Rightarrow> u32) \<Rightarrow> file_storage \<Rightarrow> nat set \<Rightarrow> name_entry list \<Rightarrow> bool" where
  "table_ok crc fs D files \<longleftrightarrow>
     (\<forall>k\<in>D. \<exists>e\<in>set files. ne_hash e = crc (lower (file_path fs k)) \<and>
        (\<exists>k'\<in>D. ne_idx e = int k' \<and> lower (file_path fs k') = lower (file_path fs k))) \<and>
     (\<forall>e\<in>set files. 0 \<le> ne_idx e \<longrightarrow> (\<exists>k\<in>D. ne_idx e = int k))"

lemma apart_insert:
  assumes "apart fs D" "i \<notin> D"
    and "\<forall>k\<in>D. lower (file_path fs k) \<noteq> lower (file_path fs i) \<or> same_pad fs k i"
  shows "apart fs (insert i D)"
proof -
  have "same_pad fs a b \<Longrightarrow> same_pad fs b a" for a b by (auto simp: same_pad_def)
  then show ?thesis using assms unfolding apart_def by (metis insert_iff)
qed

lemma table_insert:
  assumes "table_ok crc fs D files"
  shows "table_ok crc fs (insert i D)
    (files @ [\<lparr>ne_hash = crc (lower (file_path fs i)), ne_idx = int i, ne_length = 0\<rparr>])"
  using assms unfolding table_ok_def by fastforce

lemma same_paths_transfer:
  assumes "\<forall>k\<in>D. file_path fs' k = file_path fs k" "\<forall>k\<in>D. \<forall>l\<in>D. same_pad fs' k l = same_pad fs k l"
  shows "apart fs' D = apart fs D" "table_ok crc fs' D files = table_ok crc fs D files"
  using assms by (simp_all add: apart_def table_ok_def cong: ball_cong bex_cong)

lemma resolve_slow_apart:
  assumes "resolve_slow_loop crc ord fuel js files fs = Some fs'" "\<And>xs. set (ord xs) = set xs"
    and "clean_storage fs" "apart fs D" "table_ok crc fs D files" "distinct js" "set js \<inter> D = {}"
    and "\<forall>k\<in>D \<union> set js. k < length (fs_files fs)"
  shows "apart fs' (D \<union> set js)"
  using assms
proof (induction js arbitrary: files fs D)
  case Nil
  then show ?case by simp
next
  case (Cons i js)
  let ?hash = "file_path_hash crc fs i"
  let ?range = "ord (filter (\<lambda>e. ne_hash e = ?hash) files)"
  let ?match = "\<lambda>e. string_equal_no_case (other_name fs e) (file_path fs i)"
  have i: "i < length (fs_files fs)" "i \<notin> D" using Cons.prems(7,8) by auto
  have h: "?hash = crc (lower (file_path fs i))" by (rule clean_hash [OF Cons.prems(3) i(1)])
  have D: "D \<union> set (i # js) = insert i D \<union> set js" by simp
  have rest: "distinct js" "set js \<inter> insert i D = {}" "\<forall>k\<in>insert i D \<union> set js. k < length (fs_files fs)"
    using Cons.prems(6-8) by auto
  have found: "\<exists>e\<in>set ?range. ?match e" if "k \<in> D" "lower (file_path fs k) = lower (file_path fs i)" for k
  proof -
    obtain e k' where e: "e \<in> set files" "ne_hash e = crc (lower (file_path fs k))" "ne_idx e = int k'"
      "lower (file_path fs k') = lower (file_path fs k)"
      using Cons.prems(5) \<open>k \<in> D\<close> unfolding table_ok_def by blast
    then have "?match e" using that(2) by (simp add: string_equal_no_case_lower other_name_def)
    moreover have "e \<in> set ?range" using e(1,2) that(2) h by (simp add: Cons.prems(2))
    ultimately show ?thesis by blast
  qed
  show ?case
  proof (cases "find ?match ?range")
    case None
    then have "\<forall>k\<in>D. lower (file_path fs k) \<noteq> lower (file_path fs i)" using found by (auto simp: find_None_iff)
    then have "apart fs (insert i D)" using Cons.prems(4) i(2) by (intro apart_insert) auto
    moreover have "resolve_slow_loop crc ord fuel js
        (files @ [\<lparr>ne_hash = crc (lower (file_path fs i)), ne_idx = int i, ne_length = 0\<rparr>]) fs = Some fs'"
      using Cons.prems(1) None by (simp add: Let_def h)
    ultimately show ?thesis unfolding D
      by (intro Cons.IH [OF _ Cons.prems(2,3) _ table_insert [OF Cons.prems(5)] rest])
  next
    case (Some e)
    then have e: "?match e" "e \<in> set files" by (auto simp: find_Some_iff Cons.prems(2) dest!: nth_mem)
    show ?thesis
    proof (cases "ne_idx e \<ge> 0 \<and> same_pad fs i (nat (ne_idx e))")
      case True
      then obtain m where m: "m \<in> D" "ne_idx e = int m" using Cons.prems(5) e(2) unfolding table_ok_def by blast
      have pm: "lower (file_path fs m) = lower (file_path fs i)" "same_pad fs i m"
        using e(1) m True by (simp_all add: string_equal_no_case_lower other_name_def)
      have "same_pad fs k i" if "k \<in> D" "lower (file_path fs k) = lower (file_path fs i)" for k
        using Cons.prems(4) that m(1) pm unfolding apart_def same_pad_def by metis
      then have "apart fs (insert i D)" using Cons.prems(4) i(2) by (intro apart_insert) auto
      moreover have "table_ok crc fs (insert i D) files"
        using Cons.prems(5) m(1) pm(1) unfolding table_ok_def by (metis insert_iff)
      moreover have "resolve_slow_loop crc ord fuel js files fs = Some fs'"
        using Cons.prems(1) Some True by (simp add: Let_def same_pad_def)
      ultimately show ?thesis unfolding D by (intro Cons.IH [OF _ Cons.prems(2,3) _ _ rest])
    next
      case False
      then obtain new where new: "find_filename fuel crc (map ne_hash files) (file_path fs i) 0 = Some new"
        and r: "resolve_slow_loop crc ord fuel js
          (files @ [\<lparr>ne_hash = crc (lower new), ne_idx = int i, ne_length = 0\<rparr>]) (rename_file i new fs) = Some fs'"
        using Cons.prems(1) Some by (auto simp: Let_def same_pad_def split: if_splits option.splits)
      let ?fs = "rename_file i new fs"
      obtain c where c: "new = new_filename (file_path fs i) c" using find_filename_new(2) [OF new] by blast
      note rn = rename_new [OF Cons.prems(3) i(1) c]
      have p: "\<forall>k\<in>D. file_path ?fs k = file_path fs k" "file_path ?fs i = new"
        using rn(2) Cons.prems(8) i by auto
      have "\<forall>k\<in>D. \<forall>l\<in>D. same_pad ?fs k l = same_pad fs k l"
        using Cons.prems(8) rename_file_frame by (simp add: same_pad_def)
      note tr = same_paths_transfer [OF p(1) this]
      have t: "table_ok crc ?fs D files" "apart ?fs D" using tr Cons.prems(4,5) by simp_all
      have "lower (file_path ?fs k) \<noteq> lower (file_path ?fs i)" if "k \<in> D" for k
        using t(1) that find_filename_new(1) [OF new] unfolding p(2) table_ok_def by (metis image_eqI list.set_map)
      then have "apart ?fs (insert i D)" using t(2) i(2) by (intro apart_insert) auto
      moreover have "\<forall>k\<in>insert i D \<union> set js. k < length (fs_files ?fs)" using rest(3) rename_file_frame(1) by simp
      ultimately show ?thesis unfolding D
        using r table_insert [OF t(1), of i] p(2) by (intro Cons.IH [OF _ Cons.prems(2) rn(1) _ _ rest(1,2)]) auto
    qed
  qed
qed

lemma insert_hashes_distinct: "insert_hashes hs files \<Longrightarrow> distinct hs \<and> set hs \<inter> set files = {}"
  by (induction hs arbitrary: files) (fastforce split: if_splits)+

text \<open>The loop for a new name ends: more names with different hashes than the table has keys are too many.\<close>

lemma find_filename_None:
  assumes "find_filename fuel crc keys filename cnt = None"
  shows "(\<lambda>c. crc (lower (new_filename filename c))) ` {Suc cnt..cnt + fuel} \<subseteq> set keys"
  using assms
proof (induction fuel arbitrary: cnt)
  case 0
  then show ?case by simp
next
  case (Suc fuel)
  have "{Suc cnt..cnt + Suc fuel} = insert (Suc cnt) {Suc (Suc cnt)..Suc cnt + fuel}" by auto
  with Suc.IH [of "Suc cnt"] Suc.prems show ?case by (auto simp: Let_def split: if_splits)
qed

lemma find_filename_Some:
  assumes "inj_on (\<lambda>c. crc (lower (new_filename filename c))) {1..fuel}" "length keys < fuel"
  shows "\<exists>new. find_filename fuel crc keys filename 0 = Some new"
proof (rule ccontr)
  assume "\<nexists>new. find_filename fuel crc keys filename 0 = Some new"
  then have "find_filename fuel crc keys filename 0 = None" by (cases "find_filename fuel crc keys filename 0") auto
  then have "(\<lambda>c. crc (lower (new_filename filename c))) ` {1..fuel} \<subseteq> set keys"
    using find_filename_None [of fuel crc keys filename 0] by simp
  then have "fuel \<le> card (set keys)" using card_inj_on_le [OF assms(1)] by auto
  then show False using card_length [of keys] assms(2) by linarith
qed

lemma resolve_slow_returns:
  assumes "clean_storage fs" "distinct js" "\<forall>k\<in>set js. k < length (fs_files fs)" "length files + length js \<le> fuel"
    and "\<forall>k\<in>set js. inj_on (\<lambda>c. crc (lower (new_filename (file_path fs k) c))) {1..fuel}"
  shows "\<exists>fs'. resolve_slow_loop crc ord fuel js files fs = Some fs'"
  using assms
proof (induction js arbitrary: files fs)
  case Nil
  then show ?case by simp
next
  case (Cons i js)
  then have i: "i < length (fs_files fs)" by simp
  have "length (map ne_hash files) < fuel" using Cons.prems(4) by simp
  moreover have "inj_on (\<lambda>c. crc (lower (new_filename (file_path fs i) c))) {1..fuel}" using Cons.prems(5) by simp
  ultimately obtain new where new: "find_filename fuel crc (map ne_hash files) (file_path fs i) 0 = Some new"
    using find_filename_Some by blast
  obtain c where c: "new = new_filename (file_path fs i) c" using find_filename_new(2) [OF new] by blast
  note rn = rename_new [OF Cons.prems(1) i c]
  have "\<forall>k\<in>set js. file_path (rename_file i new fs) k = file_path fs k" using rn(2) Cons.prems(2,3) by auto
  then have renamed: "\<exists>fs'. resolve_slow_loop crc ord fuel js (files @ [e]) (rename_file i new fs) = Some fs'" for e
    using Cons.prems rn(1) rename_file_frame(1) by (intro Cons.IH) auto
  have same: "\<exists>fs'. resolve_slow_loop crc ord fuel js fl fs = Some fs'" if "length fl \<le> Suc (length files)" for fl
    using Cons.prems that by (intro Cons.IH) auto
  show ?case using same renamed new by (auto simp: Let_def split: option.split)
qed

text \<open>
  Two files of the same directory with the same name, and a stand-in for the CRC: the last byte.
\<close>

definition twins :: file_storage where
  "twins = \<lparr>fs_name = ''r'', fs_paths = [[]],
     fs_files = [\<lparr>fe_offset = 0, fe_size = 1, fe_no_root_dir = False, fe_path_index = 0, fe_name = ''a'', fe_pad_file = False\<rparr>,
                 \<lparr>fe_offset = 1, fe_size = 1, fe_no_root_dir = False, fe_path_index = 0, fe_name = ''A'', fe_pad_file = False\<rparr>],
     fs_total_size = 2, fs_num_pieces = 1, fs_piece_length = 2\<rparr>"

definition last_byte :: "string \<Rightarrow> u32" where
  "last_byte s = (if s = [] then 0 else of_char (last s))"

lemma twins_clean: "clean_storage twins"
  by (auto simp: clean_storage_def twins_def clean_paths_def clean_entry_def index_ok_def plain_def intro!: exI [of _ "[]"])

text \<open>C8: once the duplicates of a storage of plain names are resolved, no two files have the same
  path even if case is ignored, except for pad files of the same size, whatever the hash function is.\<close>

theorem resolved_paths_distinct:
  assumes "clean_storage fs" "\<And>xs. set (ord xs) = set xs"
    and "resolve_duplicate_filenames crc ord fuel fs = Some fs'"
    and "i < length (fs_files fs)" "j < length (fs_files fs)" "i \<noteq> j"
  shows "lower (file_path fs' i) \<noteq> lower (file_path fs' j) \<or> same_pad fs' i j"
proof (cases "insert_hashes (map (file_path_hash crc fs) (file_range fs)) (all_path_hashes crc fs)")
  case True
  then have "distinct (map (file_path_hash crc fs) [0..<length (fs_files fs)])"
    using insert_hashes_distinct by (auto simp: file_range_def)
  then have "file_path_hash crc fs i \<noteq> file_path_hash crc fs j" using assms(4-6) by (auto simp: distinct_conv_nth)
  then have "lower (file_path fs i) \<noteq> lower (file_path fs j)"
    using clean_hash [OF assms(1)] assms(4,5) by metis
  then show ?thesis using True assms(3) by (simp add: resolve_duplicate_filenames_def)
next
  case False
  have "table_ok crc fs {} (dir_entries crc fs)"
  proof -
    have "ne_idx e < 0" if "e \<in> set (dir_entries_loop crc (- int k - 1) p n path)" for e k p n path
      using that by (induction path arbitrary: p n) (auto split: if_splits)
    then show ?thesis by (fastforce simp: table_ok_def dir_entries_def Let_def)
  qed
  moreover have "apart fs {}" by (simp add: apart_def)
  ultimately have "apart fs' ({} \<union> set (file_range fs))"
    using False assms(1-3)
    by (intro resolve_slow_apart [of crc ord fuel _ "dir_entries crc fs" fs])
      (auto simp: resolve_duplicate_filenames_def resolve_duplicate_filenames_slow_def file_range_def)
  then show ?thesis using assms(4-6) by (auto simp: apart_def file_range_def)
qed

theorem resolved_paths_distinct_witness:
  "\<exists>fs'. resolve_duplicate_filenames last_byte (\<lambda>xs. xs) 4 twins = Some fs' \<and>
     lower (file_path fs' 0) \<noteq> lower (file_path fs' 1)"
proof -
  have "resolve_duplicate_filenames last_byte (\<lambda>xs. xs) 4 twins \<noteq> None" by code_simp
  then obtain fs' where r: "resolve_duplicate_filenames last_byte (\<lambda>xs. xs) 4 twins = Some fs'" by blast
  have "\<not> fe_pad_file (fs_files (the (resolve_duplicate_filenames last_byte (\<lambda>xs. xs) 4 twins)) ! 0)" by code_simp
  then have "\<not> same_pad fs' 0 1" using r by (simp add: same_pad_def)
  moreover have "length (fs_files twins) = 2" by (simp add: twins_def)
  ultimately show ?thesis
    using resolved_paths_distinct [OF twins_clean _ r, of 0 1] r by auto
qed

text \<open>C27: resolving the duplicates of a storage of plain names ends: a round for every entry of the
  table is enough for each new name, if the hashes of that many numbered names of a file differ.\<close>

theorem resolve_returns:
  assumes "clean_storage fs" "length (dir_entries crc fs) + length (fs_files fs) \<le> fuel"
    and "\<forall>k<length (fs_files fs). inj_on (\<lambda>c. crc (lower (new_filename (file_path fs k) c))) {1..fuel}"
  shows "\<exists>fs'. resolve_duplicate_filenames crc ord fuel fs = Some fs'"
proof -
  have "\<exists>fs'. resolve_slow_loop crc ord fuel (file_range fs) (dir_entries crc fs) fs = Some fs'"
    using assms by (intro resolve_slow_returns) (auto simp: file_range_def)
  then show ?thesis by (simp add: resolve_duplicate_filenames_def resolve_duplicate_filenames_slow_def)
qed

theorem resolve_returns_witness:
  "\<exists>fs'. resolve_duplicate_filenames last_byte (\<lambda>xs. xs) 3 twins = Some fs'"
proof (rule resolve_returns [OF twins_clean])
  show "length (dir_entries last_byte twins) + length (fs_files twins) \<le> 3" by code_simp
  have *: "\<forall>k\<in>{0, 1}. distinct (map (\<lambda>c. last_byte (lower (new_filename (file_path twins k) c))) [1, 2, 3])"
    by code_simp
  have r: "{1..3} = set [1, 2, 3 :: nat]" by auto
  show "\<forall>k<length (fs_files twins).
      inj_on (\<lambda>c. last_byte (lower (new_filename (file_path twins k) c))) {1..3}"
    using * unfolding r distinct_map by (auto simp: twins_def less_Suc_eq)
qed

end
