(* ===== verification/Bdecode_Tokens.thy ===== *)
theory Bdecode_Tokens
  imports Bdecode
begin

section \<open>The token array of a decoded buffer\<close>

text \<open>
  The array \<open>bdecode\<close> leaves behind when it reports no error: every token points forward to a token
  of the array, the last token is an end token, and no token starts behind the end of the
  buffer. The loops of the accessors, which follow these pointers without any check, therefore
  stay inside the array and the strings they return stay inside the buffer.
\<close>

definition tokens_ok :: "string \<Rightarrow> bdecode_token list \<Rightarrow> bool" where
  "tokens_ok buffer toks \<longleftrightarrow>
     toks \<noteq> [] \<and> tk_type (last toks) = T_end \<and> tk_next (last toks) = 0 \<and>
     (\<forall>i < length toks - 1. 0 < tk_next (toks ! i) \<and> i + tk_next (toks ! i) < length toks) \<and>
     (\<forall>t \<in> set toks. tk_offset t \<le> length buffer)"

text \<open>While decoding, the containers on the stack are still open.\<close>

definition partial_ok :: "string \<Rightarrow> stack_frame list \<Rightarrow> bdecode_token list \<Rightarrow> nat \<Rightarrow> bool" where
  "partial_ok buffer stack toks start \<longleftrightarrow>
     start \<le> length buffer \<and> (\<forall>t \<in> set toks. tk_offset t \<le> length buffer) \<and>
     (\<forall>k \<in> fst ` set stack. k < length toks) \<and>
     (\<forall>i < length toks. i \<notin> fst ` set stack \<longrightarrow> 0 < tk_next (toks ! i) \<and> i + tk_next (toks ! i) \<le> length toks)"

lemma check_digits_within:
  "check_digits s k = (None, n) \<Longrightarrow> s \<noteq> [] \<Longrightarrow> k < n \<and> n - k < length s"
  by (induction s k rule: check_digits.induct) (fastforce split: if_splits)+

lemma check_integer_within: "check_integer s = (None, n) \<Longrightarrow> n < length s"
  by (auto simp: check_integer_def Let_def split: if_splits prod.splits dest!: check_digits_within)

lemma parse_int_within: "parse_int s d v = (e, n, v') \<Longrightarrow> n \<le> length s"
  by (induction s d v arbitrary: n rule: parse_int.induct) (force simp: Let_def split: if_splits prod.splits)+

lemma bd_string_within:
  assumes "bd_string buffer start = Inr (tok, start')"
  shows "start' \<le> length buffer" "tk_offset tok = start" "tk_next tok = 1" "tk_type tok = T_string"
  using assms
  by (auto simp: bd_string_def token4_def Let_def split: if_splits prod.splits option.splits dest!: parse_int_within)

lemma partial_push:
  assumes "partial_ok buffer stack toks start" "start < length buffer" "tk_offset tok \<le> length buffer" "start' \<le> length buffer"
  shows "tk_next tok = 1 \<Longrightarrow> partial_ok buffer stack (toks @ [tok]) start'"
    and "partial_ok buffer ((length toks, b) # stack) (toks @ [tok]) start'"
  using assms by (auto simp: partial_ok_def nth_append less_Suc_eq)

lemma partial_pop:
  assumes "partial_ok buffer ((tp, b) # stack) toks start" "tk_offset tok \<le> length buffer" "tk_next tok = 1"
    and "start' \<le> length buffer"
  shows "partial_ok buffer stack
    ((toks @ [tok])[tp := ((toks @ [tok]) ! tp)\<lparr>tk_next := Suc (length toks) - tp\<rparr>]) start'"
proof -
  let ?toks = "toks @ [tok]"
  have tp: "tp < length toks" using assms(1) by (simp add: partial_ok_def)
  let ?toks' = "?toks[tp := (?toks ! tp)\<lparr>tk_next := Suc (length toks) - tp\<rparr>]"
  have "tk_offset (?toks ! tp) \<le> length buffer"
    using assms(1) tp by (simp add: partial_ok_def nth_append)
  then have "\<forall>t \<in> set ?toks'. tk_offset t \<le> length buffer"
    using assms(1,2) by (auto simp: partial_ok_def dest!: set_update_subset_insert [THEN subsetD])
  moreover have "0 < tk_next (?toks' ! i) \<and> i + tk_next (?toks' ! i) \<le> length ?toks'"
    if "i < length ?toks'" "i \<notin> fst ` set stack" for i
  proof (cases "i = tp")
    case True
    then show ?thesis using tp by simp
  next
    case False
    then show ?thesis using that assms(1,3) by (auto simp: partial_ok_def nth_append less_Suc_eq)
  qed
  ultimately show ?thesis using assms(1,4) by (auto simp: partial_ok_def)
qed

lemma flip_frame_keeps: "map fst (flip_frame depth toks stack) = map fst stack"
  by (auto simp: flip_frame_def Let_def map_update case_prod_beta list_update_same_conv nth_map)

lemma partial_flip: "partial_ok buffer (flip_frame depth toks stack) toks start = partial_ok buffer stack toks start"
proof -
  have "fst ` set (flip_frame depth toks stack) = fst ` set stack"
    using flip_frame_keeps by (metis list.set_map)
  then show ?thesis by (simp only: partial_ok_def)
qed

lemma bd_step_partial:
  assumes "partial_ok buffer stack toks start" "start < length buffer"
    and "bd_step buffer stack toks start = Inr (stack', toks', start')"
  shows "partial_ok buffer stack' toks' start'"
proof -
  note push = partial_push [OF assms(1,2)]
  consider (container) ty where "stack' = (length toks, False) # stack" "toks' = toks @ [token2 start ty]" "start' = Suc start"
    | (number) n where "stack' = stack" "toks' = toks @ [token4 start 1 T_integer 1]" "start' = Suc (Suc start + n)"
        "check_integer (drop (Suc start) buffer) = (None, n)"
    | (closing) tp b st where "stack = (tp, b) # st" "stack' = st" "start' = Suc start"
        "toks' = (toks @ [token4 start 1 T_end 0])[tp := ((toks @ [token4 start 1 T_end 0]) ! tp)\<lparr>tk_next := Suc (length toks) - tp\<rparr>]"
    | (str) tok where "stack' = stack" "toks' = toks @ [tok]" "bd_string buffer start = Inr (tok, start')"
    using assms(3) by (cases stack) (auto simp: bd_step_def Let_def split: if_splits option.splits prod.splits sum.splits)
  then show ?thesis
  proof cases
    case container
    then show ?thesis using push(2) assms(2) by (simp add: token2_def)
  next
    case number
    then have "start' \<le> length buffer" using check_integer_within [OF number(4)] by simp
    then show ?thesis using number push(1) assms(2) by (simp add: token4_def)
  next
    case closing
    then show ?thesis using partial_pop [of buffer tp b st toks start] assms(1,2) by (simp add: token4_def)
  next
    case str
    then show ?thesis using push(1) bd_string_within [OF str(3)] assms(2) by simp
  qed
qed

lemma bd_loop_partial:
  assumes "bd_loop buffer d t stack toks start = (None, stack', toks', start')" "partial_ok buffer stack toks start"
  shows "partial_ok buffer [] toks' start' \<and> stack' = []"
  using assms
proof (induction buffer d t stack toks start rule: bd_loop.induct)
  case (1 buffer d t stack toks start)
  obtain s1 toks1 start1 where s: "bd_step buffer stack toks start = Inr (s1, toks1, start1)"
    and lt: "start < length buffer" "\<not> length stack \<ge> d" "\<not> t - 1 < 0"
    using "1.prems"(1) by (subst (asm) bd_loop.simps) (auto split: if_splits sum.splits)
  let ?s = "flip_frame (length stack) toks1 s1"
  have p: "partial_ok buffer ?s toks1 start1"
    using bd_step_partial [OF "1.prems"(2) lt(1) s] by (simp add: partial_flip)
  show ?case
  proof (cases "?s = []")
    case True
    then have "toks' = toks1 \<and> start' = start1 \<and> stack' = []"
      using "1.prems"(1) s lt by (subst (asm) bd_loop.simps) auto
    then show ?thesis using p True by simp
  next
    case False
    then have "bd_loop buffer d (t - 1) ?s toks1 start1 = (None, stack', toks', start')"
      using "1.prems"(1) s lt by (subst (asm) bd_loop.simps) auto
    then show ?thesis using "1.IH" s lt False p by auto
  qed
qed

lemma bdecode_tokens_ok:
  assumes "bdecode buffer d t = (None, n)"
  shows "bn_buffer n = buffer" "bn_idx n = 0" "tokens_ok buffer (bn_tokens n)"
proof -
  obtain toks start where l: "bd_loop buffer d t [] [] 0 = (None, [], toks, start)"
    and n: "n = \<lparr>bn_tokens = bd_unwind [] toks start, bn_buffer = buffer, bn_idx = 0\<rparr>"
    using assms bd_loop_partial [of buffer d t "[]" "[]" 0]
    by (fastforce simp: bdecode_def partial_ok_def split: if_splits prod.splits)
  have "partial_ok buffer [] toks start" using bd_loop_partial [OF l] by (simp add: partial_ok_def)
  then show "bn_buffer n = buffer" "bn_idx n = 0" "tokens_ok buffer (bn_tokens n)"
    by (auto simp: n partial_ok_def tokens_ok_def token4_def nth_append less_Suc_eq_le)
qed

subsection \<open>Walking over the array\<close>

lemma tokens_step:
  assumes "tokens_ok buffer toks" "i < length toks"
  shows "i + tk_next (toks ! i) < length toks" and "tk_type (toks ! i) \<noteq> T_end \<Longrightarrow> 0 < tk_next (toks ! i)"
proof -
  consider "i < length toks - 1" | "toks ! i = last toks" "i = length toks - 1"
    using assms(2) last_conv_nth [of toks] by (cases "i = length toks - 1") force+
  then show "i + tk_next (toks ! i) < length toks" "tk_type (toks ! i) \<noteq> T_end \<Longrightarrow> 0 < tk_next (toks ! i)"
    using assms by (cases; auto simp: tokens_ok_def)+
qed

lemma skip_items_in_range:
  assumes "tokens_ok buffer toks" "i < length toks"
  shows "skip_items toks i k < length toks"
  using assms(2) by (induction k arbitrary: i) (simp_all add: tokens_step(1) [OF assms(1)])

text \<open>The loops that count the elements of a list stop at an end token.\<close>

lemma count_items_end:
  assumes "tokens_ok buffer toks" "i < length toks" "length toks \<le> i + fuel"
  shows "tk_type (toks ! skip_items toks i (count_items fuel toks i)) = T_end \<and>
    (\<forall>j < count_items fuel toks i. tk_type (toks ! skip_items toks i j) \<noteq> T_end)"
  using assms(2,3)
proof (induction fuel arbitrary: i)
  case 0
  then show ?case by simp
next
  case (Suc fuel)
  show ?case
  proof (cases "tk_type (toks ! i) = T_end")
    case True
    then show ?thesis by simp
  next
    case False
    let ?i = "i + tk_next (toks ! i)"
    have "0 < tk_next (toks ! i)" "?i < length toks" using tokens_step [OF assms(1) Suc.prems(1)] False by auto
    then have IH: "tk_type (toks ! skip_items toks ?i (count_items fuel toks ?i)) = T_end \<and>
        (\<forall>j < count_items fuel toks ?i. tk_type (toks ! skip_items toks ?i j) \<noteq> T_end)"
      using Suc.prems by (intro Suc.IH) auto
    have "tk_type (toks ! skip_items toks i j) \<noteq> T_end" if "j < Suc (count_items fuel toks ?i)" for j
      using IH False that by (cases j) auto
    then show ?thesis using IH False by simp
  qed
qed

text \<open>A node is null or refers to a token of a well-formed array.\<close>

definition node_ok :: "bdecode_node \<Rightarrow> bool" where
  "node_ok n \<longleftrightarrow>
     bn_idx n = -1 \<or>
     tokens_ok (bn_buffer n) (bn_tokens n) \<and> 0 \<le> bn_idx n \<and> nat (bn_idx n) < length (bn_tokens n)"

lemma null_node_ok [simp]: "node_ok null_node" "node_type null_node = T_none"
  by (simp_all add: node_ok_def null_node_def node_type_def)

lemma node_at_ok: "node_ok n \<Longrightarrow> bn_idx n \<noteq> -1 \<Longrightarrow> i < length (bn_tokens n) \<Longrightarrow> node_ok (node_at n i)"
  by (simp add: node_ok_def node_at_def)

text \<open>The token behind a node with a value is in the array.\<close>

lemma node_next:
  assumes "node_ok n" "node_type n \<noteq> T_end" "node_type n \<noteq> T_none"
  shows "nat (bn_idx n) + 1 < length (bn_tokens n)"
proof -
  have n: "bn_idx n \<noteq> -1" "tokens_ok (bn_buffer n) (bn_tokens n)" "nat (bn_idx n) < length (bn_tokens n)"
    "tk_type (bn_tokens n ! nat (bn_idx n)) \<noteq> T_end"
    using assms by (auto simp: node_ok_def node_type_def split: if_splits)
  then show ?thesis using tokens_step [OF n(2,3)] by linarith
qed

lemma list_at_ok:
  assumes "node_ok n" "node_type n = T_list"
  shows "node_ok (list_at n i)"
proof -
  have n: "nat (bn_idx n) + 1 < length (bn_tokens n)" using node_next assms by simp
  have "bn_idx n \<noteq> -1" using assms(2) by (auto simp: node_type_def)
  moreover from this have "tokens_ok (bn_buffer n) (bn_tokens n)" using assms(1) by (simp add: node_ok_def)
  ultimately show ?thesis
    using skip_items_in_range n assms(1) by (auto simp: list_at_def intro!: node_at_ok)
qed

lemma dict_find_loop_ok:
  assumes "node_ok n" "bn_idx n \<noteq> -1" "token < length (bn_tokens n)"
  shows "node_ok (dict_find_loop fuel n key token)"
  using assms(3)
proof (induction fuel arbitrary: token)
  case 0
  then show ?case by simp
next
  case (Suc fuel)
  have t: "tokens_ok (bn_buffer n) (bn_tokens n)" using assms(1,2) by (simp add: node_ok_def)
  let ?val = "token + tk_next (bn_tokens n ! token)"
  have "?val < length (bn_tokens n)" by (rule tokens_step(1) [OF t Suc.prems])
  then show ?case
    using Suc.IH [of "?val + tk_next (bn_tokens n ! ?val)"] tokens_step(1) [OF t] node_at_ok [OF assms(1,2)]
    by (auto simp: Let_def)
qed

lemma dict_find_ok:
  assumes "node_ok n" "node_type n = T_dict"
  shows "node_ok (dict_find n key)"
proof -
  have "bn_idx n \<noteq> -1" using assms(2) by (auto simp: node_type_def)
  then show ?thesis using node_next assms by (simp add: dict_find_def dict_find_loop_ok)
qed

text \<open>The value of a string node has the length the array gives for it.\<close>

lemma string_value_length:
  assumes "node_ok n" "node_type n = T_string"
  shows "length (string_value n) = token_source_span (bn_tokens n) (nat (bn_idx n)) - start_offset (bn_tokens n ! nat (bn_idx n))"
proof -
  let ?i = "nat (bn_idx n)"
  have i: "?i + 1 < length (bn_tokens n)" using node_next assms by simp
  have "bn_idx n \<noteq> -1" using assms(2) by (auto simp: node_type_def)
  then have "\<forall>t\<in>set (bn_tokens n). tk_offset t \<le> length (bn_buffer n)"
    using assms(1) by (simp add: node_ok_def tokens_ok_def)
  then have "tk_offset (bn_tokens n ! Suc ?i) \<le> length (bn_buffer n)" using i by simp
  then show ?thesis by (simp add: string_value_def token_string_def token_source_span_def Let_def)
qed

text \<open>C10: in the token array of a buffer that is decoded without an error, every walk along the
  next pointers stays inside the array and meets an end token, and no token lies behind the end of
  the buffer: the unchecked loops of the accessors end, inside the array, on every input.\<close>

theorem decoded_walk_ends:
  assumes "bdecode buffer d t = (None, n)" "i < length (bn_tokens n)"
  shows "(\<exists>k. tk_type (bn_tokens n ! skip_items (bn_tokens n) i k) = T_end \<and>
        (\<forall>j<k. tk_type (bn_tokens n ! skip_items (bn_tokens n) i j) \<noteq> T_end)) \<and>
      (\<forall>k. skip_items (bn_tokens n) i k < length (bn_tokens n)) \<and> tk_offset (bn_tokens n ! i) \<le> length buffer"
proof -
  have ok: "tokens_ok buffer (bn_tokens n)" by (rule bdecode_tokens_ok [OF assms(1)])
  have "\<exists>k. tk_type (bn_tokens n ! skip_items (bn_tokens n) i k) = T_end \<and>
      (\<forall>j<k. tk_type (bn_tokens n ! skip_items (bn_tokens n) i j) \<noteq> T_end)"
    using count_items_end [OF ok assms(2), of "length (bn_tokens n)"] by auto
  moreover have "\<forall>k. skip_items (bn_tokens n) i k < length (bn_tokens n)"
    using skip_items_in_range [OF ok assms(2)] by blast
  moreover have "tk_offset (bn_tokens n ! i) \<le> length buffer" using ok assms(2) by (simp add: tokens_ok_def)
  ultimately show ?thesis by blast
qed

theorem decoded_walk_ends_witness:
  "\<exists>k. tk_type (bn_tokens (snd (bdecode ''li1ei2ee'' 100 1000)) !
     skip_items (bn_tokens (snd (bdecode ''li1ei2ee'' 100 1000))) 1 k) = T_end"
proof -
  have "fst (bdecode ''li1ei2ee'' 100 1000) = None" "1 < length (bn_tokens (snd (bdecode ''li1ei2ee'' 100 1000)))"
    by code_simp+
  then show ?thesis
    using decoded_walk_ends [of "''li1ei2ee''" 100 1000 "snd (bdecode ''li1ei2ee'' 100 1000)" 1]
    by (metis prod.collapse)
qed

end
