(* ===== verification/Torrent_Load.thy ===== *)
theory Torrent_Load
  imports Torrent_Duplicates Bdecode_Tokens "HOL-Library.Multiset"
begin

section \<open>Loading a torrent file\<close>

text \<open>
  \<open>torrent_info.cpp\<close> of libtorrent as the client calls it: the files, piece hashes, info hash and
  trackers of a decoded torrent file, with every error. The copy of the info section is the
  buffer the decoded nodes refer to, so pointers into it are strings. What the client never
  reads (symbolic links, similar torrents, DHT nodes, web seeds, comments, dates) is left out, as
  are the branches that only store it; the checks that can fail while it is read are kept.
  Parameters are the SHA-1 of the crypto library the build links, the CRC and the hash table order
  of the theory before, the random shuffle of the trackers and the parser of magnet links, which
  a torrent file with pieces never reaches.
\<close>

subsection \<open>More of the decoded nodes\<close>

definition dict_find_dict :: "bdecode_node \<Rightarrow> string \<Rightarrow> bdecode_node" where
  "dict_find_dict n key = (let ret = dict_find n key in if node_type ret = T_dict then ret else null_node)"

definition dict_find_int_or :: "bdecode_node \<Rightarrow> string \<Rightarrow> int \<Rightarrow> int" where
  "dict_find_int_or n key default_val =
     (let n = dict_find n key in if node_type n \<noteq> T_integer then default_val else int_value n)"

definition string_length :: "bdecode_node \<Rightarrow> int" where
  "string_length n =
     (let i = nat (bn_idx n)
      in int (token_source_span (bn_tokens n) i) - int (start_offset (bn_tokens n ! i)))"

definition list_string_value_at :: "bdecode_node \<Rightarrow> nat \<Rightarrow> string" where
  "list_string_value_at n i = (let e = list_at n i in if node_type e \<noteq> T_string then [] else string_value e)"

definition data_section :: "bdecode_node \<Rightarrow> string" where
  "data_section n =
     (if bn_idx n = -1 then []
      else
        let i = nat (bn_idx n); t = bn_tokens n ! i; nx = bn_tokens n ! (i + tk_next t)
        in take (tk_offset nx - tk_offset t) (drop (tk_offset t) (bn_buffer n)))"

definition node :: "bdecode_node \<Rightarrow> bool" where
  "node n \<longleftrightarrow> bn_idx n \<noteq> -1"

definition list_items :: "bdecode_node \<Rightarrow> bdecode_node list" where
  "list_items n = map (list_at n) [0..<list_size n]"

subsection \<open>One file\<close>

datatype torrent_error =
    Bd_error bd_error | torrent_is_no_dict | torrent_missing_info | torrent_info_no_dict
  | metadata_too_large | torrent_missing_piece_length | torrent_missing_name
  | torrent_invalid_length | torrent_invalid_name | torrent_file_parse_failed
  | no_files_in_torrent | too_many_pieces_in_torrent | torrent_missing_pieces
  | torrent_invalid_hashes | Magnet_error

record file_flags =
  flag_symlink :: bool
  flag_executable :: bool
  flag_hidden :: bool
  flag_pad_file :: bool

definition add_attribute :: "char \<Rightarrow> file_flags \<Rightarrow> file_flags" where
  "add_attribute c f =
     (if c = CHR ''l'' then f\<lparr>flag_symlink := True\<rparr>
      else if c = CHR ''x'' then f\<lparr>flag_executable := True\<rparr>
      else if c = CHR ''h'' then f\<lparr>flag_hidden := True\<rparr>
      else if c = CHR ''p'' then f\<lparr>flag_pad_file := True\<rparr>
      else f)"

definition get_file_attributes :: "bdecode_node \<Rightarrow> file_flags" where
  "get_file_attributes dict =
     (let none = \<lparr>flag_symlink = False, flag_executable = False, flag_hidden = False, flag_pad_file = False\<rparr>;
          attr = dict_find_string dict ''attr''
      in if node attr then fold add_attribute (string_value attr) none else none)"

fun path_length_loop :: "bdecode_node list \<Rightarrow> int \<Rightarrow> torrent_error + int" where
  "path_length_loop [] ret = Inr ret"
| "path_length_loop (e # es) ret =
     (if node_type e \<noteq> T_string then Inl torrent_invalid_name
      else path_length_loop es (ret + string_length e))"

definition path_length :: "bdecode_node \<Rightarrow> torrent_error + int" where
  "path_length p =
     (case path_length_loop (list_items p) 0 of
        Inl e \<Rightarrow> Inl e | Inr ret \<Rightarrow> Inr (ret + int (list_size p)))"

definition strip_separators :: "string \<Rightarrow> string" where
  "strip_separators filename = dropWhile (\<lambda>c. c = sep) filename"

definition first_node :: "bdecode_node \<Rightarrow> bdecode_node \<Rightarrow> bdecode_node" where
  "first_node p q = (if node p then p else q)"

text \<open>The path and the borrowed name of the file of a single-file torrent.\<close>

definition top_level_path :: "bdecode_node \<Rightarrow> string \<Rightarrow> torrent_error + (string \<times> string)" where
  "top_level_path dict root_dir =
     (let p = first_node (dict_find_string dict ''name.utf-8'') (dict_find_string dict ''name'') in
      if \<not> node p \<or> string_length p = 0 then Inl torrent_missing_name
      else
        let path = sanitize_append_path_element root_dir (string_value p)
        in if path = [] then Inl torrent_missing_name
           else Inr (path, strip_separators (string_value p)))"

text \<open>The same for an element of the list \<open>files\<close>, with the counter of pad files. \<open>cnt\<close> is a \<open>char[10]\<close>.\<close>

definition listed_path ::
  "bdecode_node \<Rightarrow> string \<Rightarrow> bool \<Rightarrow> nat \<Rightarrow> torrent_error + (string \<times> string \<times> nat)" where
  "listed_path dict root_dir pad pad_file_cnt =
     (let p = first_node (dict_find_list dict ''path.utf-8'') (dict_find_list dict ''path'') in
      if node p \<and> list_size p > 0 then
        (case path_length p of
           Inl e \<Rightarrow> Inl e
         | Inr _ \<Rightarrow>
             let elements = map string_value (list_items p);
                 path = foldl sanitize_append_path_element root_dir elements;
                 path = (if length path = length root_dir then path @ ''/_'' else path)
             in Inr (path, strip_separators (last elements), pad_file_cnt))
      else if pad then Inr (combine_path ''.pad'' (take 9 (dec pad_file_cnt)), [], pad_file_cnt + 1)
      else Inl torrent_missing_name)"

definition has_infix :: "string \<Rightarrow> string \<Rightarrow> bool" where
  "has_infix pat s \<longleftrightarrow> list_ex (\<lambda>k. take (length pat) (drop k s) = pat) [0..<Suc (length s)]"

text \<open>
  \<open>Inl None\<close> is a return of \<open>false\<close> with no error set. Only the parsing of the symbolic link that can
  fail is kept of it.
\<close>

definition extract_single_file ::
  "bdecode_node \<Rightarrow> file_storage \<Rightarrow> string \<Rightarrow> bool \<Rightarrow> nat \<Rightarrow> torrent_error option + (file_storage \<times> nat)" where
  "extract_single_file dict files root_dir top_level pad_file_cnt =
     (if node_type dict \<noteq> T_dict then Inl None
      else
        let flags = get_file_attributes dict;
            file_size = (if flag_symlink flags then 0 else dict_find_int_or dict ''length'' (-1))
        in if file_size < 0 then Inl (Some torrent_invalid_length)
        else
          case (if top_level
                then (case top_level_path dict root_dir of
                        Inl e \<Rightarrow> Inl e | Inr (path, filename) \<Rightarrow> Inr (path, filename, pad_file_cnt))
                else listed_path dict root_dir (flag_pad_file flags) pad_file_cnt) of
            Inl e \<Rightarrow> Inl (Some e)
          | Inr (path, filename, pad_file_cnt) \<Rightarrow>
              let pad = (flag_pad_file flags \<or> has_infix ''_____padding_file_'' path);
                  s_p = dict_find_list dict ''symlink path'';
                  symlink = (if flag_symlink flags \<and> node s_p then path_length s_p else Inr 0);
                  filename = (if length filename > length path
                                \<or> drop (length path - length filename) path \<noteq> filename then [] else filename)
              in case symlink of
                   Inl e \<Rightarrow> Inl (Some e)
                 | Inr _ \<Rightarrow> Inr (add_file_borrow filename path file_size pad files, pad_file_cnt))"

subsection \<open>The list of files\<close>

fun extract_file_list ::
  "bdecode_node list \<Rightarrow> file_storage \<Rightarrow> string \<Rightarrow> nat \<Rightarrow> torrent_error option + file_storage" where
  "extract_file_list [] target root_dir pad_file_cnt = Inr target"
| "extract_file_list (d # ds) target root_dir pad_file_cnt =
     (case extract_single_file d target root_dir False pad_file_cnt of
        Inl e \<Rightarrow> Inl e
      | Inr (target, pad_file_cnt) \<Rightarrow> extract_file_list ds target root_dir pad_file_cnt)"

definition extract_files :: "bdecode_node \<Rightarrow> file_storage \<Rightarrow> string \<Rightarrow> torrent_error option + file_storage" where
  "extract_files list target root_dir =
     (if node_type list \<noteq> T_list then Inl (Some torrent_file_parse_failed)
      else extract_file_list (list_items list) target root_dir 0)"

subsection \<open>Merkle trees\<close>

function merkle_leafs_loop :: "int \<Rightarrow> int \<Rightarrow> int" where
  "merkle_leafs_loop pieces ret =
     (if 0 < ret \<and> pieces > ret then merkle_leafs_loop pieces (2 * ret) else ret)"
  by pat_completeness auto
termination
  by (relation "measure (\<lambda>(pieces, ret). nat (pieces - ret))") auto

declare merkle_leafs_loop.simps [simp del]

definition merkle_num_leafs :: "int \<Rightarrow> int" where
  "merkle_num_leafs pieces = merkle_leafs_loop pieces 1"

definition merkle_num_nodes :: "int \<Rightarrow> int" where
  "merkle_num_nodes leafs = 2 * leafs - 1"

subsection \<open>The info section\<close>

text \<open>A torrent under construction: the members of \<open>torrent_info\<close> the client reads.\<close>

record torrent =
  to_files :: file_storage
  to_info_hash :: "byte list"
  to_piece_hashes :: "byte list"
  to_merkle_tree :: "byte list list"
  to_merkle_first_leaf :: int
  to_urls :: "(string \<times> byte) list"

definition empty_storage :: file_storage where
  "empty_storage =
     \<lparr>fs_name = [], fs_paths = [], fs_files = [], fs_total_size = 0, fs_num_pieces = 0, fs_piece_length = 0\<rparr>"

definition empty_torrent :: torrent where
  "empty_torrent =
     \<lparr>to_files = empty_storage, to_info_hash = replicate 20 0, to_piece_hashes = [], to_merkle_tree = [],
      to_merkle_first_leaf = 0, to_urls = []\<rparr>"

definition int_max :: int where
  "int_max = 2 ^ 31 - 1"

definition default_piece_limit :: int where
  "default_piece_limit = 0x100000"

text \<open>Division as C++ does it.\<close>

definition cdiv :: "int \<Rightarrow> int \<Rightarrow> int" where
  "cdiv a b = (if a < 0 then - ((- a) div b) else a div b)"

text \<open>The files of the info section: up to the commit, nothing of it is kept on an error.\<close>

definition info_files :: "bdecode_node \<Rightarrow> byte list \<Rightarrow> int \<Rightarrow> torrent_error option + file_storage" where
  "info_files info info_hash piece_length =
     (let files = empty_storage\<lparr>fs_piece_length := piece_length\<rparr>;
          name_ent = first_node (dict_find_string info ''name.utf-8'') (dict_find_string info ''name'')
      in if \<not> node name_ent then Inl (Some torrent_missing_name)
      else
        let name = sanitize_append_path_element [] (string_value name_ent);
            name = (if name = [] then to_hex info_hash else name);
            files_node = dict_find_list info ''files''
        in case (if \<not> node files_node
                 then map_sum id fst (extract_single_file info files [] True 0)
                 else extract_files files_node files name) of
             Inl e \<Rightarrow> Inl e
           | Inr files \<Rightarrow>
               if fs_files files = [] then Inl (Some no_files_in_torrent)
               else if fs_name files = [] then Inl (Some torrent_missing_name)
               else if fs_total_size files \<ge> (int_max - fs_piece_length files) * fs_piece_length files
               then Inl (Some too_many_pieces_in_torrent)
               else Inr (files\<lparr>fs_num_pieces :=
                      cint (cdiv (fs_total_size files + fs_piece_length files - 1) (fs_piece_length files))\<rparr>))"

text \<open>The piece hashes, or the tree with the root hash.\<close>

definition info_hashes ::
  "bdecode_node \<Rightarrow> file_storage \<Rightarrow> int \<Rightarrow> torrent_error + (byte list \<times> byte list list \<times> int)" where
  "info_hashes info files max_pieces =
     (let pieces = dict_find_string info ''pieces''; root_hash = dict_find_string info ''root hash'' in
      if \<not> node pieces \<and> \<not> node root_hash then Inl torrent_missing_pieces
      else if fs_num_pieces files \<ge> int_max div 20 \<or> fs_num_pieces files > max_pieces
      then Inl too_many_pieces_in_torrent
      else if node pieces then
        (if string_length pieces \<noteq> cint (fs_num_pieces files * 20) then Inl torrent_invalid_hashes
         else Inr (bytes_of (string_value pieces), [], 0))
      else if string_length root_hash \<noteq> 20 then Inl torrent_invalid_hashes
      else if fs_num_pieces files \<le> 0 then Inl no_files_in_torrent
      else
        let num_leafs = merkle_num_leafs (fs_num_pieces files);
            num_nodes = merkle_num_nodes num_leafs
        in Inr ([], (replicate (nat num_nodes) (replicate 20 0))[0 := bytes_of (string_value root_hash)],
                num_nodes - num_leafs))"

text \<open>
  \<open>parse_info_section\<close>: the error, if one is set, whether it succeeded, and the torrent. The early
  errors leave the piece length as it is, the later ones set it to 0.
\<close>

definition parse_info_section ::
  "(byte list \<Rightarrow> byte list) \<Rightarrow> bdecode_node \<Rightarrow> int \<Rightarrow> torrent \<Rightarrow> torrent_error option \<times> bool \<times> torrent" where
  "parse_info_section sha1 info max_pieces t =
     (if node_type info \<noteq> T_dict then (Some torrent_info_no_dict, False, t)
      else
        let section = data_section info;
            t = t\<lparr>to_info_hash := sha1 (bytes_of section)\<rparr>
        in if int (length section) \<ge> int_max then (Some metadata_too_large, False, t)
        else
          let piece_length = dict_find_int_or info ''piece length'' (-1)
          in if piece_length \<le> 0 \<or> piece_length > int_max
          then (Some torrent_missing_piece_length, False, t)
          else
            let invalid = t\<lparr>to_files := (to_files t)\<lparr>fs_piece_length := 0\<rparr>\<rparr>
            in case info_files info (to_info_hash t) piece_length of
                 Inl e \<Rightarrow> (e, False, invalid)
               | Inr files \<Rightarrow>
                   (case info_hashes info files max_pieces of
                      Inl e \<Rightarrow> (Some e, False, invalid)
                    | Inr (hashes, tree, first_leaf) \<Rightarrow>
                        (None, True, t\<lparr>to_files := files, to_piece_hashes := hashes, to_merkle_tree := tree,
                                      to_merkle_first_leaf := first_leaf\<rparr>)))"

definition hash_for_piece :: "torrent \<Rightarrow> int \<Rightarrow> byte list" where
  "hash_for_piece t index =
     (if to_merkle_tree t \<noteq> [] then to_merkle_tree t ! nat (to_merkle_first_leaf t + index)
      else take 20 (drop (nat (index * 20)) (to_piece_hashes t)))"

subsection \<open>Trackers\<close>

definition is_space :: "char \<Rightarrow> bool" where
  "is_space c \<longleftrightarrow> c = CHR '' '' \<or> code c = 9 \<or> code c = 10 \<or> code c = 13 \<or> code c = 12 \<or> code c = 11"

definition trim :: "string \<Rightarrow> string" where
  "trim url = dropWhile is_space url"

text \<open>The entries of the tiers, each with its tier, a \<open>uint8_t\<close>. Entries with an empty URL are skipped.\<close>

definition tier_urls :: "bdecode_node \<Rightarrow> nat \<Rightarrow> (string \<times> byte) list" where
  "tier_urls announce_node j =
     (let tier = list_at announce_node j in
      if node_type tier \<noteq> T_list then []
      else map (\<lambda>url. (url, word_of_nat j))
             (filter (\<lambda>url. url \<noteq> []) (map (\<lambda>k. trim (list_string_value_at tier k)) [0..<list_size tier])))"

definition announce_list ::
  "((string \<times> byte) list \<Rightarrow> (string \<times> byte) list) \<Rightarrow> bdecode_node \<Rightarrow> (string \<times> byte) list" where
  "announce_list shuffle announce_node =
     (let urls = concat (map (tier_urls announce_node) [0..<list_size announce_node])
      in if urls \<noteq> [] then sort_key (\<lambda>e. unat (snd e)) (shuffle urls) else urls)"

definition announce_urls ::
  "((string \<times> byte) list \<Rightarrow> (string \<times> byte) list) \<Rightarrow> bdecode_node \<Rightarrow> (string \<times> byte) list" where
  "announce_urls shuffle torrent_file =
     (let announce_node = dict_find_list torrent_file ''announce-list'';
          urls = (if node announce_node then announce_list shuffle announce_node else [])
      in if urls = [] then
           (let url = trim (dict_find_string_value torrent_file ''announce'')
            in if url \<noteq> [] then [(url, 0)] else [])
         else urls)"

subsection \<open>The whole torrent file\<close>

record load_env =
  le_sha1 :: "byte list \<Rightarrow> byte list"
  le_crc :: "string \<Rightarrow> u32"
  le_ord :: "name_entry list \<Rightarrow> name_entry list"
  le_shuffle :: "(string \<times> byte) list \<Rightarrow> (string \<times> byte) list"
  le_magnet :: "string \<Rightarrow> torrent_error + (byte list \<times> string list)"
  le_fuel :: nat

text \<open>\<open>None\<close> if the fuel does not suffice to rename the duplicates.\<close>

definition parse_torrent_file ::
  "load_env \<Rightarrow> bdecode_node \<Rightarrow> int \<Rightarrow> torrent \<Rightarrow> (torrent_error option \<times> bool \<times> torrent) option" where
  "parse_torrent_file E torrent_file piece_limit t =
     (if node_type torrent_file \<noteq> T_dict then Some (Some torrent_is_no_dict, False, t)
      else
        let info = dict_find_dict torrent_file ''info'' in
        if \<not> node info then
          (let uri = dict_find_string torrent_file ''magnet-uri'' in
           if node uri then
             (case le_magnet E (string_value uri) of
                Inl e \<Rightarrow> Some (Some e, False, t)
              | Inr (info_hash, trackers) \<Rightarrow>
                  Some (None, True, t\<lparr>to_info_hash := info_hash,
                                      to_urls := to_urls t @ map (\<lambda>url. (url, 0)) trackers\<rparr>))
           else Some (Some torrent_missing_info, False, t))
        else
          case parse_info_section (le_sha1 E) info piece_limit t of
            (ec, False, t) \<Rightarrow> Some (ec, False, t)
          | (ec, True, t) \<Rightarrow>
              (case resolve_duplicate_filenames (le_crc E) (le_ord E) (le_fuel E) (to_files t) of
                 None \<Rightarrow> None
               | Some files \<Rightarrow>
                   Some (ec, True, t\<lparr>to_files := files, to_urls := announce_urls (le_shuffle E) torrent_file\<rparr>)))"

text \<open>The constructor the client uses: the error, if one is set, and the torrent.\<close>

definition load_torrent :: "load_env \<Rightarrow> string \<Rightarrow> (torrent_error option \<times> torrent) option" where
  "load_torrent E buffer =
     (case bdecode buffer 100 2000000 of
        (Some e, _) \<Rightarrow> Some (Some (Bd_error e), empty_torrent)
      | (None, e) \<Rightarrow> map_option (\<lambda>(ec, _, t). (ec, t)) (parse_torrent_file E e default_piece_limit empty_torrent))"

text \<open>The torrent as the client sees it.\<close>

definition torrent_info_of :: "torrent \<Rightarrow> torrent_info" where
  "torrent_info_of t =
     \<lparr>ti_files = to_files t, ti_hash_for_piece = hash_for_piece t, ti_info_hash = to_info_hash t,
      ti_trackers = map fst (to_urls t)\<rparr>"

subsection \<open>What a parsed info section is\<close>

lemma extract_single_file_adds:
  assumes "extract_single_file dict files root_dir top_level cnt = Inr (files', cnt')"
  shows "\<exists>filename path sz pad. files' = add_file_borrow filename path sz pad files"
  using assms
  by (auto simp: extract_single_file_def Let_def split: if_splits sum.splits prod.splits)

lemma extract_file_list_keeps:
  assumes "extract_file_list ds target root cnt = Inr files" "P target"
    and step: "\<And>fs filename path sz pad. P fs \<Longrightarrow> P (add_file_borrow filename path sz pad fs)"
  shows "P files"
  using assms(1,2)
proof (induction ds target root cnt rule: extract_file_list.induct)
  case (2 d ds target root cnt)
  then obtain target' cnt' where x: "extract_single_file d target root False cnt = Inr (target', cnt')"
    "extract_file_list ds target' root cnt' = Inr files" by (auto split: sum.splits)
  moreover have "P target'" using extract_single_file_adds [OF x(1)] step "2.prems"(2) by auto
  ultimately show ?case using "2.IH" by blast
qed simp

text \<open>Whatever adding a file keeps holds of the files of an info section.\<close>

lemma info_files_keeps:
  assumes "info_files info hash L = Inr files"
    and "P (empty_storage\<lparr>fs_piece_length := L\<rparr>)"
    and step: "\<And>fs filename path sz pad. P fs \<Longrightarrow> P (add_file_borrow filename path sz pad fs)"
  shows "\<exists>fs. P fs \<and> fs_files fs \<noteq> [] \<and> fs_name fs \<noteq> [] \<and>
    fs_total_size fs < (int_max - fs_piece_length fs) * fs_piece_length fs \<and>
    files = fs\<lparr>fs_num_pieces := cint (cdiv (fs_total_size fs + fs_piece_length fs - 1) (fs_piece_length fs))\<rparr>"
proof -
  let ?fs0 = "empty_storage\<lparr>fs_piece_length := L\<rparr>"
  have P1: "P fs" if "extract_single_file info ?fs0 [] True 0 = Inr (fs, c)" for fs c
    using extract_single_file_adds [OF that] step assms(2) by auto
  have P2: "P fs" if "extract_files n ?fs0 name = Inr fs" for n name fs
    using that extract_file_list_keeps [OF _ assms(2) step] by (auto simp: extract_files_def split: if_splits)
  let ?n = "\<lambda>fs. cint (cdiv (fs_total_size fs + fs_piece_length fs - 1) (fs_piece_length fs))"
  let ?ok = "\<lambda>fs. fs_files fs \<noteq> [] \<and> fs_name fs \<noteq> [] \<and>
    fs_total_size fs < (int_max - fs_piece_length fs) * fs_piece_length fs"
  obtain r where "(case r of Inl e \<Rightarrow> Inl e | Inr fs \<Rightarrow>
       if fs_files fs = [] then Inl (Some no_files_in_torrent)
       else if fs_name fs = [] then Inl (Some torrent_missing_name)
       else if fs_total_size fs \<ge> (int_max - fs_piece_length fs) * fs_piece_length fs
       then Inl (Some too_many_pieces_in_torrent) else Inr (fs\<lparr>fs_num_pieces := ?n fs\<rparr>)) = Inr files"
    and r: "\<forall>fs. r = Inr fs \<longrightarrow> P fs"
  proof -
    let ?name_ent = "first_node (dict_find_string info ''name.utf-8'') (dict_find_string info ''name'')"
    let ?name = "sanitize_append_path_element [] (string_value ?name_ent)"
    let ?r = "if \<not> node (dict_find_list info ''files'')
      then map_sum id fst (extract_single_file info ?fs0 [] True 0)
      else extract_files (dict_find_list info ''files'') ?fs0 (if ?name = [] then to_hex hash else ?name)"
    have "\<forall>fs. ?r = Inr fs \<longrightarrow> P fs"
      using P1 P2 by (auto simp: map_sum_def split: sum.splits if_splits)
    moreover have "node ?name_ent" using assms(1) by (auto simp: info_files_def Let_def split: if_splits)
    ultimately show thesis using assms(1) that [of ?r] by (simp add: info_files_def Let_def del: split_paired_All)
  qed
  then obtain fs where "r = Inr fs" "?ok fs" "files = fs\<lparr>fs_num_pieces := ?n fs\<rparr>"
    by (auto simp: not_le split: sum.splits if_splits)
  with r show ?thesis by blast
qed

lemma pieces_cover:
  fixes T L :: int
  assumes "0 < T" "0 < L" "T < (int_max - L) * L"
  defines "n \<equiv> (T + L - 1) div L"
  shows "0 < n" "n < 2 ^ 31" "(n - 1) * L < T" "T \<le> n * L"
proof -
  have e: "n * L + (T + L - 1) mod L = T + L - 1" unfolding n_def by simp
  have m: "0 \<le> (T + L - 1) mod L" "(T + L - 1) mod L < L" using assms(2) by simp_all
  show le: "T \<le> n * L" using e m by linarith
  show lt: "(n - 1) * L < T" using e m by (simp add: left_diff_distrib)
  have "0 * L < n * L" using le assms(1) by simp
  then show "0 < n" using assms(2) mult_less_cancel_right_pos by blast
  have "(n - 1) * L < (int_max - L) * L" using lt assms(3) by linarith
  then have "n - 1 < int_max - L" using assms(2) mult_less_cancel_right_pos by blast
  then show "n < 2 ^ 31" using assms(2) by (simp add: int_max_def)
qed

lemma info_files_ok:
  assumes "info_files info hash L = Inr files" "0 < L" "L \<le> int_max"
    and "0 < sizes_sum files" "sizes_sum files < 2 ^ 48"
  shows "fs_ok files"
proof -
  let ?P = "\<lambda>fs. filling fs \<and> fs_piece_length fs = L"
  have "?P (empty_storage\<lparr>fs_piece_length := L\<rparr>)" by (simp add: empty_storage_def filling_def sizes_sum_def)
  from info_files_keeps [OF assms(1), of ?P, OF this] add_file_borrow_filling
  obtain fs where fs: "filling fs" "fs_piece_length fs = L" "fs_total_size fs < (int_max - L) * L"
      "files = fs\<lparr>fs_num_pieces := cint (cdiv (fs_total_size fs + L - 1) L)\<rparr>" by auto
  have s: "sizes_sum fs = sizes_sum files" by (simp add: fs(4) sizes_sum_def)
  then have c: "contiguous 0 (fs_files fs)" "fs_total_size fs = sizes_sum files"
    using fs(1) assms(5) by (simp_all add: filling_def)
  note p = pieces_cover [OF assms(4,2), folded c(2), OF fs(3)]
  have d: "cdiv (fs_total_size fs + L - 1) L = (fs_total_size fs + L - 1) div L"
    unfolding cdiv_def using c(2) assms(2,4) by simp
  have n: "cint ((fs_total_size fs + L - 1) div L) = (fs_total_size fs + L - 1) div L"
    by (rule cint_id) (use p(1,2) in linarith)+
  have F: "fs_files files = fs_files fs" "fs_total_size files = fs_total_size fs" "fs_piece_length files = L"
    "fs_num_pieces files = (fs_total_size fs + L - 1) div L"
    using fs(2) unfolding fs(4) d n by simp_all
  have "L < 2 ^ 31" using assms(3) by (simp add: int_max_def)
  moreover have "0 < fs_total_size fs" "fs_total_size fs < 2 ^ 48"
    "fs_total_size fs = sum_list (map fe_size (fs_files fs))"
    using c(2) s assms(4,5) by (simp_all add: sizes_sum_def)
  ultimately show ?thesis unfolding fs_ok_def F using p c(1) assms(2) by blast
qed

subsection \<open>The hashes\<close>

lemma merkle_leafs_ge: "0 < ret \<Longrightarrow> pieces \<le> merkle_leafs_loop pieces ret \<and> ret \<le> merkle_leafs_loop pieces ret"
proof (induction pieces ret rule: merkle_leafs_loop.induct)
  case (1 pieces ret)
  then show ?case by (subst (1 2) merkle_leafs_loop.simps) auto
qed

lemma string_length_value:
  "node_ok n \<Longrightarrow> node_type n = T_string \<Longrightarrow> 0 \<le> string_length n \<Longrightarrow> int (length (string_value n)) = string_length n"
  by (simp add: string_value_length string_length_def Let_def)

lemma node_null [simp]: "\<not> node null_node"
  by (simp add: node_def null_node_def)

lemma dict_find_string_ok:
  assumes "node_ok n" "node_type n = T_dict"
  shows "node_ok (dict_find_string n key)" "node (dict_find_string n key) \<Longrightarrow> node_type (dict_find_string n key) = T_string"
  using dict_find_ok [OF assms] node_null by (auto simp: dict_find_string_def Let_def split: if_splits)

lemma info_hashes_ok:
  assumes "info_hashes info files max_pieces = Inr (hashes, tree, first_leaf)" "node_ok info" "node_type info = T_dict"
    and "0 \<le> i" "i < fs_num_pieces files"
    and "to_piece_hashes t = hashes" "to_merkle_tree t = tree" "to_merkle_first_leaf t = first_leaf"
  shows "length (hash_for_piece t i) = 20" "fs_num_pieces files \<le> max_pieces"
proof -
  let ?n = "fs_num_pieces files"
  let ?p = "dict_find_string info ''pieces''" and ?r = "dict_find_string info ''root hash''"
  note p = dict_find_string_ok [OF assms(2,3)]
  have small: "?n < int_max div 20" using assms(1) by (auto simp: info_hashes_def Let_def split: if_splits)
  then have c: "cint (?n * 20) = ?n * 20" using assms(4,5) by (simp add: int_max_def)
  show "?n \<le> max_pieces" using assms(1) by (auto simp: info_hashes_def Let_def split: if_splits)
  show "length (hash_for_piece t i) = 20"
  proof (cases "node ?p")
    case True
    then have h: "tree = []" "hashes = bytes_of (string_value ?p)" "string_length ?p = ?n * 20"
      using assms(1) c by (auto simp: info_hashes_def Let_def split: if_splits)
    then have "int (length hashes) = ?n * 20" using string_length_value p True assms(4,5) by simp
    then have "nat (i * 20) + 20 \<le> length hashes" using assms(4,5) by linarith
    then show ?thesis using h(1) assms(6-8) by (simp add: hash_for_piece_def)
  next
    case False
    let ?leafs = "merkle_num_leafs ?n" and ?root = "bytes_of (string_value ?r)"
    have h: "tree = (replicate (nat (2 * ?leafs - 1)) (replicate 20 0))[0 := ?root]" "first_leaf = ?leafs - 1"
      "string_length ?r = 20" "node ?r"
      using assms(1) False by (auto simp: info_hashes_def merkle_num_nodes_def Let_def split: if_splits)
    then have root: "length ?root = 20" using string_length_value [of ?r] p by simp
    have leafs: "?n \<le> ?leafs" "1 \<le> ?leafs" using merkle_leafs_ge [of 1 ?n] by (simp_all add: merkle_num_leafs_def)
    have "nat (first_leaf + i) < nat (2 * ?leafs - 1)" using leafs assms(4,5) h(2) by linarith
    moreover have "tree \<noteq> []" using h(1) leafs by simp
    moreover have "\<forall>x\<in>set tree. length x = 20"
      using root unfolding h(1) by (auto dest!: set_update_subset_insert [THEN subsetD])
    ultimately show ?thesis using assms(6-8) h(1) by (simp add: hash_for_piece_def)
  qed
qed

subsection \<open>Resolving duplicates keeps the layout\<close>

definition layout :: "file_storage \<Rightarrow> (int \<times> int) list \<times> int \<times> int \<times> int" where
  "layout fs = (map (\<lambda>f. (fe_offset f, fe_size f)) (fs_files fs), fs_total_size fs, fs_num_pieces fs, fs_piece_length fs)"

lemma rename_file_layout: "layout (rename_file i new fs) = layout fs"
proof -
  obtain paths e where u: "update_path_index (fs_name fs) (fs_paths fs) (fs_files fs ! i) new True = (paths, e)"
    by fastforce
  let ?g = "\<lambda>f. (fe_offset f, fe_size f)"
  have "?g e = ?g (fs_files fs ! i)" using update_path_index_frame [OF u] by simp
  then have "map ?g ((fs_files fs)[i := e]) = map ?g (fs_files fs)"
    by (cases "i < length (fs_files fs)") (auto simp: map_update list_update_same_conv list_update_beyond not_less)
  then show ?thesis by (simp add: layout_def rename_file_def u)
qed

lemma resolve_slow_layout:
  "resolve_slow_loop crc ord fuel js files fs = Some fs' \<Longrightarrow> layout fs' = layout fs"
proof (induction crc ord fuel js files fs rule: resolve_slow_loop.induct)
  case (2 crc ord fuel i js files fs)
  then show ?case
    by (auto simp: Let_def rename_file_layout split: option.splits if_splits)
qed simp

lemma resolve_layout: "resolve_duplicate_filenames crc ord fuel fs = Some fs' \<Longrightarrow> layout fs' = layout fs"
  unfolding resolve_duplicate_filenames_def resolve_duplicate_filenames_slow_def
  by (simp split: if_splits) (rule resolve_slow_layout)

lemma contiguous_cong:
  "map (\<lambda>f. (fe_offset f, fe_size f)) xs = map (\<lambda>f. (fe_offset f, fe_size f)) ys \<Longrightarrow> contiguous p xs = contiguous p ys"
proof (induction xs arbitrary: ys p)
  case (Cons x xs)
  let ?g = "\<lambda>f. (fe_offset f, fe_size f)"
  obtain y zs where y: "ys = y # zs" using Cons.prems by (cases ys) simp_all
  have "map ?g xs = map ?g zs" "fe_offset x = fe_offset y" "fe_size x = fe_size y" using Cons.prems y by simp_all
  then show ?case using Cons.IH [of zs] y by simp
qed simp

lemma layout_cong:
  assumes "layout fs = layout fs'"
  shows "fs_ok fs = fs_ok fs'" "sizes_sum fs = sizes_sum fs'" "fs_num_pieces fs = fs_num_pieces fs'"
proof -
  let ?g = "\<lambda>f. (fe_offset f, fe_size f)"
  have g: "map ?g (fs_files fs) = map ?g (fs_files fs')" using assms by (simp add: layout_def)
  then have "map snd (map ?g (fs_files fs)) = map snd (map ?g (fs_files fs'))" by simp
  then have "map fe_size (fs_files fs) = map fe_size (fs_files fs')" by (simp add: comp_def)
  then show "fs_ok fs = fs_ok fs'" "sizes_sum fs = sizes_sum fs'" "fs_num_pieces fs = fs_num_pieces fs'"
    using assms contiguous_cong [OF g] by (simp_all add: layout_def fs_ok_def sizes_sum_def)
qed

subsection \<open>Properties of loading\<close>

text \<open>A torrent file with one file of five bytes in two pieces.\<close>

definition small_torrent :: string where
  "small_torrent = ''d8:announce5: u://4:infod6:lengthi5e4:name1:a12:piece lengthi4e6:pieces40:''
     @ replicate 20 CHR ''x'' @ replicate 20 CHR ''y'' @ ''ee''"

definition small_env :: load_env where
  "small_env = \<lparr>le_sha1 = (\<lambda>bs. replicate 20 0), le_crc = last_byte, le_ord = (\<lambda>xs. xs), le_shuffle = (\<lambda>xs. xs),
     le_magnet = (\<lambda>_. Inl Magnet_error), le_fuel = 4\<rparr>"

text \<open>One whose path is \<open>a..\<close>, \<open>..\<close> and one whose list of files holds a number.\<close>

definition dotdot_torrent :: string where
  "dotdot_torrent = ''d4:infod5:filesld6:lengthi5e4:pathl3:a..2:..eee4:name1:r12:piece lengthi5e6:pieces20:''
     @ replicate 20 CHR ''x'' @ ''ee''"

definition odd_torrent :: string where
  "odd_torrent = ''d4:infod5:filesli1ee4:name1:a12:piece lengthi1eee''"

lemma parse_info_section_ok:
  assumes "parse_info_section sha1 info max_pieces t = (ec, True, t')" "node_ok info"
  shows "0 < sizes_sum (to_files t') \<Longrightarrow> sizes_sum (to_files t') < 2 ^ 48 \<Longrightarrow> fs_ok (to_files t')"
    and "\<forall>i. 0 \<le> i \<and> i < fs_num_pieces (to_files t') \<longrightarrow>
           length (hash_for_piece t' i) = 20 \<and> fs_num_pieces (to_files t') \<le> max_pieces"
    and "ec = None" and "to_info_hash t' = sha1 (bytes_of (data_section info))"
proof -
  let ?L = "dict_find_int_or info ''piece length'' (-1)"
  obtain files hashes tree first_leaf where
    f: "info_files info (sha1 (bytes_of (data_section info))) ?L = Inr files" "0 < ?L" "?L \<le> int_max"
    and h: "info_hashes info files max_pieces = Inr (hashes, tree, first_leaf)" "node_type info = T_dict"
    and t': "to_files t' = files" "to_piece_hashes t' = hashes" "to_merkle_tree t' = tree"
      "to_merkle_first_leaf t' = first_leaf" "ec = None" "to_info_hash t' = sha1 (bytes_of (data_section info))"
    using assms(1)
    by (auto simp: parse_info_section_def Let_def split: if_splits sum.splits prod.splits)
  show "0 < sizes_sum (to_files t') \<Longrightarrow> sizes_sum (to_files t') < 2 ^ 48 \<Longrightarrow> fs_ok (to_files t')"
    using info_files_ok [OF f] t'(1) by simp
  show "\<forall>i. 0 \<le> i \<and> i < fs_num_pieces (to_files t') \<longrightarrow>
      length (hash_for_piece t' i) = 20 \<and> fs_num_pieces (to_files t') \<le> max_pieces"
    using info_hashes_ok [OF h(1) assms(2) h(2)] t' by auto
  show "ec = None" "to_info_hash t' = sha1 (bytes_of (data_section info))" using t' by simp_all
qed

lemma load_torrent_cases:
  assumes "load_torrent E buffer = Some (None, t)"
  obtains (none) "fs_files (to_files t) = []"
  | (info) info t' files where "node_ok info"
      "parse_info_section (le_sha1 E) info default_piece_limit empty_torrent = (None, True, t')"
      "layout files = layout (to_files t')"
      "t = t'\<lparr>to_files := files, to_urls := to_urls t\<rparr>"
proof -
  obtain n where n: "bdecode buffer 100 2000000 = (None, n)"
    and p: "map_option (\<lambda>(ec, _, t). (ec, t)) (parse_torrent_file E n default_piece_limit empty_torrent) = Some (None, t)"
    using assms by (auto simp: load_torrent_def split: prod.splits option.splits)
  obtain b where p: "parse_torrent_file E n default_piece_limit empty_torrent = Some (None, b, t)" using p by auto
  have ok: "node_ok n" using bdecode_tokens_ok [OF n] by (simp add: node_ok_def tokens_ok_def)
  let ?info = "dict_find_dict n ''info''"
  have d: "node_type n = T_dict" using p by (auto simp: parse_torrent_file_def split: if_splits)
  have oki: "node_ok ?info" using dict_find_ok [OF ok d] by (simp add: dict_find_dict_def Let_def)
  have empty: "fs_files (to_files empty_torrent) = []" by (simp add: empty_torrent_def empty_storage_def)
  show thesis
  proof (cases "node ?info")
    case False
    then have "to_files t = to_files empty_torrent"
      using p d by (auto simp: parse_torrent_file_def Let_def split: if_splits sum.splits prod.splits)
    then show thesis using none empty by simp
  next
    case True
    obtain ec r t' where i: "parse_info_section (le_sha1 E) ?info default_piece_limit empty_torrent = (ec, r, t')"
      by (metis prod_cases3)
    show thesis
    proof (cases r)
      case True
      then have "ec = None" using parse_info_section_ok(3) i oki by metis
      moreover obtain files where
        f: "resolve_duplicate_filenames (le_crc E) (le_ord E) (le_fuel E) (to_files t') = Some files"
        "t = t'\<lparr>to_files := files, to_urls := announce_urls (le_shuffle E) n\<rparr>"
        using p d \<open>node ?info\<close> i True by (auto simp: parse_torrent_file_def Let_def split: option.splits)
      ultimately show thesis using info [OF oki] i True resolve_layout [OF f(1)] by simp
    next
      case False
      then have "t = t'" using p d \<open>node ?info\<close> i by (auto simp: parse_torrent_file_def Let_def)
      moreover have "fs_files (to_files t') = []"
        using i False empty
        by (auto simp: parse_info_section_def Let_def split: if_splits sum.splits prod.splits)
      ultimately show thesis using none by simp
    qed
  qed
qed

lemma load_torrent_storage:
  assumes "load_torrent E buffer = Some (None, t)"
    and "0 < sizes_sum (to_files t)" "sizes_sum (to_files t) < 2 ^ 48"
  shows "fs_ok (ti_files (torrent_info_of t)) \<and> fs_num_pieces (to_files t) \<le> 2 ^ 20 \<and>
    (\<forall>i. 0 \<le> i \<and> i < fs_num_pieces (to_files t) \<longrightarrow> length (ti_hash_for_piece (torrent_info_of t) i) = 20)"
  using assms(1)
proof (cases rule: load_torrent_cases)
  case none
  then show ?thesis using assms(2) by (simp add: sizes_sum_def)
next
  case (info info t' files)
  have tf: "to_files t = files" "hash_for_piece t = hash_for_piece t'"
    by (subst info(4), simp, rule ext, subst info(4), simp add: hash_for_piece_def)
  note l = layout_cong [OF info(3)]
  note p = parse_info_section_ok [OF info(2,1)]
  have ok: "fs_ok (to_files t')" using p(1) assms(2,3) tf(1) l(2) by simp
  then have "fs_ok (ti_files (torrent_info_of t))" using l(1) tf(1) by (simp add: torrent_info_of_def)
  moreover have "0 < fs_num_pieces (to_files t')" using ok by (simp add: fs_ok_def)
  then have "fs_num_pieces (to_files t) \<le> 2 ^ 20"
    using p(2) [rule_format, of 0] l(3) tf(1) by (simp add: default_piece_limit_def)
  moreover have "\<forall>i. 0 \<le> i \<and> i < fs_num_pieces (to_files t) \<longrightarrow> length (ti_hash_for_piece (torrent_info_of t) i) = 20"
    using p(2) l(3) tf by (simp add: torrent_info_of_def)
  ultimately show ?thesis by blast
qed

text \<open>C6: a torrent file of any bytes that loads without an error and whose files have between 1 and
  2 ^ 48 - 1 bytes in all gives a well-formed storage, which the correctness of the download relies
  on: the files lie end to end, the pieces cover them, there are at most 2 ^ 20 pieces, and every piece
  has a hash of 20 bytes.\<close>

theorem loaded_torrent_ok:
  assumes "load_torrent E buffer = Some (None, t)"
    and "0 < sizes_sum (to_files t)" "sizes_sum (to_files t) < 2 ^ 48"
  shows "fs_ok (ti_files (torrent_info_of t)) \<and> fs_num_pieces (to_files t) \<le> 2 ^ 20 \<and>
    (\<forall>i. 0 \<le> i \<and> i < fs_num_pieces (to_files t) \<longrightarrow> length (ti_hash_for_piece (torrent_info_of t) i) = 20)"
  using assms by (rule load_torrent_storage)

theorem loaded_torrent_ok_witness:
  "\<exists>t. load_torrent small_env small_torrent = Some (None, t) \<and> fs_ok (ti_files (torrent_info_of t))
     \<and> length (ti_hash_for_piece (torrent_info_of t) 1) = 20"
proof -
  have "case load_torrent small_env small_torrent of
      Some (None, t) \<Rightarrow> sizes_sum (to_files t) = 5 \<and> fs_num_pieces (to_files t) = 2 | _ \<Rightarrow> False" by code_simp
  then obtain t where t: "load_torrent small_env small_torrent = Some (None, t)" "sizes_sum (to_files t) = 5"
    "fs_num_pieces (to_files t) = 2" by (auto split: option.splits prod.splits)
  have s: "0 < sizes_sum (to_files t)" "sizes_sum (to_files t) < 2 ^ 48" using t(2) by simp_all
  show ?thesis using loaded_torrent_ok [OF t(1) s] t(1,3) by simp
qed

text \<open>The sanitizer is bypassed by the borrowed name: the torrent file with the path \<open>a..\<close>, \<open>..\<close> loads
  without an error and its file is called \<open>..\<close>, so that its path leaves the directory of the torrent.\<close>

theorem loaded_name_not_sanitized:
  "\<exists>t. load_torrent E dotdot_torrent = Some (None, t) \<and> file_name (to_files t) 0 = ''..''
     \<and> file_path (to_files t) 0 = ''r/..''"
proof -
  have "case load_torrent E dotdot_torrent of
      Some (None, t) \<Rightarrow> file_name (to_files t) 0 = ''..'' \<and> file_path (to_files t) 0 = ''r/..'' | _ \<Rightarrow> False"
    by code_simp
  then show ?thesis by (auto split: option.splits prod.splits)
qed

text \<open>A torrent file whose list of files holds something other than a dictionary is rejected
  without an error being set: the client, which only looks at the error, goes on with a torrent
  that has no files and no pieces.\<close>

theorem rejected_without_error:
  "\<exists>t. load_torrent E odd_torrent = Some (None, t) \<and> fs_files (to_files t) = [] \<and>
     fs_num_pieces (to_files t) = 0 \<and> fs_piece_length (to_files t) = 0"
proof -
  have "case load_torrent E odd_torrent of
      Some (None, t) \<Rightarrow> fs_files (to_files t) = [] \<and> fs_num_pieces (to_files t) = 0 \<and> fs_piece_length (to_files t) = 0
    | _ \<Rightarrow> False" by code_simp
  then show ?thesis by (auto split: option.splits prod.splits)
qed

end
