(* ===== verification/Main_Program.thy ===== *)
theory Main_Program
  imports Session_Threads Torrent_Load
begin

section \<open>The program\<close>

text \<open>
  \<open>app/main.cpp\<close>, \<open>src/file_reader.cpp\<close> and \<open>src/signal_handler.cpp\<close>: the program loads the torrent
  file it is given, builds a session on it and runs the session to its end. The loop that waits
  for the engine, and its interleaving with it, is in \<open>Session_Threads\<close>; here the engine runs to its
  end with fuel. The console output and the measurement of the run time are left out.
\<close>

subsection \<open>Signals\<close>

datatype signal = SIGABRT | SIGFPE | SIGILL | SIGINT | SIGSEGV | SIGTERM | SIGPIPE

text \<open>What a signal that has a handler leads to: the callback is called first.\<close>

datatype 'a sig_result = Bad_function_call | Sig_return 'a | Sig_exit signal 'a

definition sig_init :: "signal list" where
  "sig_init = [SIGABRT, SIGFPE, SIGILL, SIGINT, SIGSEGV, SIGTERM, SIGPIPE]"

definition sig_handle :: "('a \<Rightarrow> 'a) option \<Rightarrow> signal \<Rightarrow> 'a \<Rightarrow> 'a sig_result" where
  "sig_handle sig_cb signum x =
     (case sig_cb of
        None \<Rightarrow> Bad_function_call
      | Some cb \<Rightarrow> if signum = SIGPIPE then Sig_return (cb x) else Sig_exit signum (cb x))"

subsection \<open>Reading the torrent file\<close>

text \<open>A file that cannot be opened reads as an empty one.\<close>

definition to_buffer :: "(string \<Rightarrow> string option) \<Rightarrow> string \<Rightarrow> string" where
  "to_buffer fs filename = (case fs filename of None \<Rightarrow> [] | Some content \<Rightarrow> content)"

subsection \<open>The main function\<close>

datatype exit_status = EXIT_SUCCESS | EXIT_FAILURE

record ('b, 'w) world_env =
  we_files :: "string \<Rightarrow> string option"
  we_load :: load_env
  we_ext :: "'b externals"
  we_os :: "'w os_api"
  we_draw :: "u32 \<Rightarrow> nat \<Rightarrow> nat"
  we_trackers :: "('b, 'w) tenv"
  we_agent_fuel :: nat
  we_fuel :: nat

text \<open>The session \<open>main\<close> builds, with its environment. The default time of the reactor is five seconds.\<close>

definition main_session :: "('b, 'w) world_env \<Rightarrow> torrent \<Rightarrow> 'w \<Rightarrow> ('b, 'w) env \<times> ('b, 'w) sess" where
  "main_session W t w =
     (let info = torrent_info_of t;
          (reactor, w) = net_reactor_ctor (we_os W) 5000 w;
          (peer_id, s) = session_ctor (we_ext W) (we_os W) (we_draw W) info reactor w
      in (\<lparr>en_ext = we_ext W, en_os = we_os W, en_ti = info, en_peer_id = peer_id, en_fuel = we_agent_fuel W\<rparr>, s))"

text \<open>The exit status and the session, if there was one; the size of the buffer is cast to an \<open>int\<close>.\<close>

definition main ::
  "('b, 'w) world_env \<Rightarrow> string list \<Rightarrow> 'w \<Rightarrow> (exit_status \<times> ('b, 'w) sess option) res" where
  "main W argv w =
     (if length argv < 2 then Inr (EXIT_FAILURE, None)
      else
        let file_buffer = to_buffer (we_files W) (argv ! 1) in
        if int (length file_buffer) \<ge> 2 ^ 31 then Inl (Undefined ''negative size'')
        else
          case load_torrent (we_load W) file_buffer of
            None \<Rightarrow> Inl Out_of_fuel
          | Some (Some error, _) \<Rightarrow> Inr (EXIT_FAILURE, None)
          | Some (None, t) \<Rightarrow>
              (let (V, s) = main_session W t w
               in res_bind (start V (we_trackers W) s) (\<lambda>(running, s).
                    if running then res_bind (engine (we_fuel W) V s) (\<lambda>s. Inr (EXIT_SUCCESS, Some s))
                    else Inr (EXIT_SUCCESS, Some s))))"

subsection \<open>What the program does\<close>

lemma main_session_fresh:
  assumes "main_session W t w = (V, s)"
  shows "ss_agents s = Map.empty" "registrations_ok s" "timers_ok s" "en_ext V = we_ext W" "en_os V = we_os W"
    and "en_ti V = torrent_info_of t"
    and "sh_pieces (ss_shared s) = fst (piece_handler_ctor (we_ext W) (torrent_info_of t))"
    and "sh_blocks (ss_shared s) = []"
  using assms
  by (auto simp: main_session_def session_ctor_def net_reactor_ctor_def registrations_ok_def timers_ok_def Let_def
      split: prod.splits)

lemma start_failed_pieces:
  assumes "start V T s = Inr (False, s')"
  shows "sh_pieces (ss_shared s') = sh_pieces (ss_shared s)" "sh_blocks (ss_shared s') = sh_blocks (ss_shared s)"
  using assms by (auto simp: start_def Let_def res_bind_eq_Inr split: prod.splits if_splits)

text \<open>
  Two things end the program before the piece handler does: no tracker knows a peer, or \<open>poll\<close> fails
  in some round of the engine.
\<close>

definition ended_early :: "('b, 'w) world_env \<Rightarrow> torrent \<Rightarrow> 'w \<Rightarrow> bool" where
  "ended_early W t w \<longleftrightarrow>
     (case main_session W t w of (V, s) \<Rightarrow>
        (\<exists>s1. start V (we_trackers W) s = Inr (False, s1)) \<or>
        (\<exists>s1 s2. start V (we_trackers W) s = Inr (True, s1) \<and> engine_reach V s1 s2 \<and> sh_running (ss_shared s2)
           \<and> poll_fails V s2))"

text \<open>
  If the program ends with a session, its piece handler went through a sequence of operations with
  the blocks the peers sent.
\<close>

lemma main_operations:
  assumes "main W argv w = Inr (st, Some s')"
  obtains t ops told where "load_torrent (we_load W) (to_buffer (we_files W) (argv ! 1)) = Some (None, t)"
    "ph_run (we_ext W) (torrent_info_of t) ops (False, fst (piece_handler_ctor (we_ext W) (torrent_info_of t)))
      = (told, sh_pieces (ss_shared s'))"
    "sh_blocks (ss_shared s') = payloads ops" "told \<or> ended_early W t w"
proof -
  obtain t V s running s1 where t: "load_torrent (we_load W) (to_buffer (we_files W) (argv ! 1)) = Some (None, t)"
    and m: "main_session W t w = (V, s)" and s1: "start V (we_trackers W) s = Inr (running, s1)"
    and e: "if running then engine (we_fuel W) V s1 = Inr s' else s' = s1"
    using assms(1) unfolding main_def Let_def
    by (auto simp: res_bind_eq_Inr split: if_splits option.splits prod.splits)
  note f = main_session_fresh [OF m]
  show thesis
  proof (cases running)
    case True
    then have "sess_inv V (False, sh_pieces (ss_shared s), sh_blocks (ss_shared s)) s1"
      using start_inv [OF _ f(1-3)] s1 by simp
    then obtain told where r: "ph_runs V (False, sh_pieces (ss_shared s), [])
        (told, sh_pieces (ss_shared s'), sh_blocks (ss_shared s'))"
      and d: "told \<or> (\<exists>s2. engine_reach V s1 s2 \<and> sh_running (ss_shared s2) \<and> poll_fails V s2)"
      using engine_inv [of "we_fuel W" V s1 s'] e True f(8) by fastforce
    obtain ops where "ph_run (en_ext V) (en_ti V) ops (False, sh_pieces (ss_shared s)) = (told, sh_pieces (ss_shared s'))"
      "sh_blocks (ss_shared s') = payloads ops" using r unfolding ph_runs_def by auto
    moreover have "told \<or> ended_early W t w" using d s1 True m unfolding ended_early_def by auto
    ultimately show thesis using that [OF t, of ops told] f(4,6,7) by simp
  next
    case False
    then have s': "start V (we_trackers W) s = Inr (False, s')" using s1 e by simp
    have "sh_pieces (ss_shared s') = sh_pieces (ss_shared s)" "sh_blocks (ss_shared s') = payloads []"
      using start_failed_pieces [OF s'] f(8) by simp_all
    moreover have "ended_early W t w" using s1 False m unfolding ended_early_def by auto
    ultimately show thesis using that [OF t, of "[]" False] f(7) by simp
  qed
qed

text \<open>A torrent of one piece of three bytes in two files, and a peer that sends it.\<close>

definition tiny_torrent :: string where
  "tiny_torrent = ''d8:announce8:http://t4:infod5:filesld6:lengthi2e4:pathl1:aeed6:lengthi1e4:pathl1:beee4:name1:t12:piece lengthi16384e6:pieces20:''
     @ replicate 20 CHR ''x'' @ ''ee''"

definition tiny_ext :: "lbuf externals" where
  "tiny_ext = small_E\<lparr>ex_sha1 := (\<lambda>bs. if bs = [1, 2, 3] then replicate 20 120 else [])\<rparr>"

definition tiny_os :: "script os_api" where
  "tiny_os = script_os\<lparr>sys_read := (\<lambda>_ _ w. case sc_in w of [] \<Rightarrow> (0, [], w)
     | bs # rest \<Rightarrow> (int (length bs), bs, w\<lparr>sc_in := rest\<rparr>))\<rparr>"

definition tiny_W :: "(lbuf, script) world_env" where
  "tiny_W = \<lparr>we_files = [''t.torrent'' \<mapsto> tiny_torrent], we_load = small_env, we_ext = tiny_ext, we_os = tiny_os,
     we_draw = (\<lambda>_ _. 0),
     we_trackers = \<lparr>te_bb = list_buffer, te_os = tiny_os, te_resolve = (\<lambda>_ w. (None, w)),
       te_curl = (\<lambda>_ w. ([], Some (''d5:peers6:'' @ [CHR 0x7F, CHR 0x00, CHR 0x00, CHR 0x01, CHR 0x00, CHR 0x01] @ ''e''), 200, w)),
       te_oob = (\<lambda>_. 0), te_fuel = 5\<rparr>,
     we_agent_fuel = 20, we_fuel = 5\<rparr>"

definition tiny_world :: script where
  "tiny_world = script_start\<lparr>sc_ready := [[(6, EPOLLIN)]],
     sc_in := [rd list_buffer (new_handshake list_buffer (\<lambda>_. 0) ''-tent0001-0123456789'' (to_hex (replicate 20 0)))
       @ frame BITFIELD [0x80] @ frame PIECE [0, 0, 0, 0, 0, 0, 0, 0, 1, 2, 3]]\<rparr>"

definition tiny_t :: torrent where
  "tiny_t = \<lparr>to_files =
     \<lparr>fs_name = ''t'', fs_paths = [[]],
        fs_files =
          [\<lparr>fe_offset = 0, fe_size = 2, fe_no_root_dir = False,
              fe_path_index = 0, fe_name = ''a'', fe_pad_file = False\<rparr>,
           \<lparr>fe_offset = 2, fe_size = 1, fe_no_root_dir = False,
              fe_path_index = 0, fe_name = ''b'', fe_pad_file = False\<rparr>],
        fs_total_size = 3, fs_num_pieces = 1, fs_piece_length = 16384\<rparr>,
     to_info_hash = replicate 20 0, to_piece_hashes = replicate 20 120,
     to_merkle_tree = [], to_merkle_first_leaf = 0, to_urls = [(''http://t'', 0)]\<rparr>"

lemma tiny_load: "load_torrent small_env tiny_torrent = Some (None, tiny_t)"
  by code_simp

lemma tiny_buffer: "to_buffer (we_files tiny_W) ([''tent'', ''t.torrent''] ! 1) = tiny_torrent"
    "\<not> int (length tiny_torrent) \<ge> 2 ^ 31"
  by (simp_all add: tiny_W_def to_buffer_def tiny_torrent_def)

lemma tiny_run:
  "case main_session tiny_W tiny_t tiny_world of (V, s) \<Rightarrow>
     (case start V (we_trackers tiny_W) s of Inl e \<Rightarrow> False
      | Inr (b, s) \<Rightarrow> b \<and> (case engine 5 V s of Inl e \<Rightarrow> False | Inr s \<Rightarrow> ph_written (sh_pieces (ss_shared s)) = 1
            \<and> map (rd list_buffer) (sh_blocks (ss_shared s)) = [[0, 0, 0, 0, 0, 0, 0, 0, 1, 2, 3]]))"
  by code_simp

lemma tiny_piece [simp]:
  "in_torrent (torrent_info_of tiny_t) 0" "piece_size (ti_files (torrent_info_of tiny_t)) 0 = 3"
  by code_simp+

lemma tiny_honest:
  assumes "rd list_buffer pc = [0, 0, 0, 0, 0, 0, 0, 0, 1, 2, 3]"
  shows "honest_op tiny_ext (torrent_info_of tiny_t) (Op_received pc)"
  using assms by (simp add: tiny_ext_def honest_def of_be_def)

lemma tiny_main:
  "\<exists>s'. main tiny_W [''tent'', ''t.torrent''] tiny_world = Inr (EXIT_SUCCESS, Some s')
     \<and> ph_written (sh_pieces (ss_shared s')) = 1 \<and> length (sh_blocks (ss_shared s')) = 1
     \<and> (\<forall>pc\<in>set (sh_blocks (ss_shared s')). honest_op tiny_ext (torrent_info_of tiny_t) (Op_received pc))"
proof -
  obtain V s where m: "main_session tiny_W tiny_t tiny_world = (V, s)" by fastforce
  have "\<exists>s1 s'. start V (we_trackers tiny_W) s = Inr (True, s1) \<and> engine 5 V s1 = Inr s'
      \<and> ph_written (sh_pieces (ss_shared s')) = 1
      \<and> map (rd list_buffer) (sh_blocks (ss_shared s')) = [[0, 0, 0, 0, 0, 0, 0, 0, 1, 2, 3]]"
    using tiny_run unfolding m
    by (cases "start V (we_trackers tiny_W) s"; cases "engine 5 V (snd (projr (start V (we_trackers tiny_W) s)))")
      (simp_all split: prod.splits)
  then obtain s1 s' where e: "start V (we_trackers tiny_W) s = Inr (True, s1)" "engine 5 V s1 = Inr s'"
    and h: "ph_written (sh_pieces (ss_shared s')) = 1"
      "map (rd list_buffer) (sh_blocks (ss_shared s')) = [[0, 0, 0, 0, 0, 0, 0, 0, 1, 2, 3]]" by (elim exE conjE) (rule that)
  have W: "we_load tiny_W = small_env" "we_fuel tiny_W = 5" by (simp_all add: tiny_W_def)
  have "main tiny_W [''tent'', ''t.torrent''] tiny_world = Inr (EXIT_SUCCESS, Some s')"
    using m e tiny_load tiny_buffer unfolding main_def Let_def W by simp
  moreover obtain pc where pc: "sh_blocks (ss_shared s') = [pc]" "rd list_buffer pc = [0, 0, 0, 0, 0, 0, 0, 0, 1, 2, 3]"
    using h(2) unfolding map_eq_Cons_conv by auto
  ultimately show ?thesis using h(1) tiny_honest [OF pc(2)] unfolding pc(1)
    by (intro exI [of _ s']) (simp only: pc(1) list.set ball_simps list.size, simp)
qed

lemma tiny_hyps:
  "bb_laws (ex_bb (we_ext tiny_W))" "block_aligned (torrent_info_of tiny_t)"
  "no_empty_hash (we_ext tiny_W) (torrent_info_of tiny_t)" "all_open (we_ext tiny_W) (torrent_info_of tiny_t)"
  "names_distinct (torrent_info_of tiny_t)" "sizes_sum (to_files tiny_t) = 3" "to_merkle_tree tiny_t = []"
proof -
  have W: "we_ext tiny_W = tiny_ext" by (simp add: tiny_W_def)
  have e: "ex_bb tiny_ext = list_buffer" "ex_sha1 tiny_ext [] = []" "ex_open_ok tiny_ext = (\<lambda>_. True)"
    by (simp_all add: tiny_ext_def small_E_def)
  show "bb_laws (ex_bb (we_ext tiny_W))" by (simp add: W e list_buffer_laws)
  show "block_aligned (torrent_info_of tiny_t)"
    by (simp add: block_aligned_def torrent_info_of_def tiny_t_def BLOCK_LEN_def)
  show "no_empty_hash (we_ext tiny_W) (torrent_info_of tiny_t)"
    by (auto simp: W e no_empty_hash_def in_torrent_def torrent_info_of_def hash_for_piece_def tiny_t_def)
  show "all_open (we_ext tiny_W) (torrent_info_of tiny_t)" by (simp add: W e all_open_def)
  show "names_distinct (torrent_info_of tiny_t)" by (simp add: names_distinct_def torrent_info_of_def tiny_t_def)
  show "sizes_sum (to_files tiny_t) = 3" "to_merkle_tree tiny_t = []" by (simp_all add: tiny_t_def sizes_sum_def)
qed

text \<open>C2: the whole program, from the torrent file to the disk. Suppose it ends with a session, the torrent
  it loaded has a size the program can represent, a list of piece hashes, a piece length that is a
  multiple of the block length and distinct leaf names, its files can be opened, no piece has the hash
  of no bytes, and every block that the peers sent is one of the torrent's and has its length (its
  bytes can be wrong). Then the pieces counted as written are pieces of the torrent whose bytes on disk
  have the 20-byte hash that the torrent file has for them; and these are all pieces, unless no
  tracker knew a peer or \<open>poll\<close> failed.\<close>

theorem main_downloads:
  assumes "main W argv w = Inr (st, Some s')"
    and "load_torrent (we_load W) (to_buffer (we_files W) (argv ! 1)) = Some (None, t)" "ti = torrent_info_of t"
    and "0 < sizes_sum (to_files t)" "sizes_sum (to_files t) < 2 ^ 48" "to_merkle_tree t = []"
    and "bb_laws (ex_bb (we_ext W))" "block_aligned ti" "no_empty_hash (we_ext W) ti" "all_open (we_ext W) ti"
    and "names_distinct ti" "\<forall>pc\<in>set (sh_blocks (ss_shared s')). honest_op (we_ext W) ti (Op_received pc)"
  shows "\<exists>Q. ph_written (sh_pieces (ss_shared s')) = int (card Q) \<and> Q \<subseteq> {i. in_torrent ti i}
    \<and> (\<forall>i\<in>Q. ex_sha1 (we_ext W) (region ti i (image (ti_files ti) (ph_files (sh_pieces (ss_shared s')))))
          = take 20 (drop (nat (sint i * 20)) (to_piece_hashes t)))
    \<and> (Q = {i. in_torrent ti i} \<or> ended_early W t w)"
proof -
  obtain t' ops told where t': "load_torrent (we_load W) (to_buffer (we_files W) (argv ! 1)) = Some (None, t')"
    and r: "ph_run (we_ext W) (torrent_info_of t') ops (False, fst (piece_handler_ctor (we_ext W) (torrent_info_of t')))
      = (told, sh_pieces (ss_shared s'))"
    and b: "sh_blocks (ss_shared s') = payloads ops" and d: "told \<or> ended_early W t' w"
    by (rule main_operations [OF assms(1)])
  have t: "t' = t" "torrent_info_of t' = ti" using t' assms(2,3) by simp_all
  have ok: "fs_ok (ti_files ti)" using load_torrent_storage [OF assms(2,4,5)] assms(3) by simp
  have h: "\<forall>op\<in>set ops. honest_op (we_ext W) ti op"
  proof
    show "honest_op (we_ext W) ti op" if "op \<in> set ops" for op
      using assms(12) that payloads_set [of _ ops] unfolding b by (cases op) auto
  qed
  obtain Q where Q: "download_inv (we_ext W) ti Q (sh_pieces (ss_shared s'))" "told \<longrightarrow> Q = {i. in_torrent ti i}"
    using ph_run_inv [OF assms(7) ok assms(8,9) h ctor_inv [OF assms(7) ok assms(10,11)] _ r [unfolded t(2)]] by blast
  have "ti_hash_for_piece ti (sint i) = take 20 (drop (nat (sint i * 20)) (to_piece_hashes t))" for i :: u32
    using assms(3,6) by (simp add: torrent_info_of_def hash_for_piece_def)
  then show ?thesis using Q d t(1) unfolding download_inv_def by (intro exI [of _ Q]) auto
qed

theorem main_downloads_witness:
  "\<exists>s'. main tiny_W [''tent'', ''t.torrent''] tiny_world = Inr (EXIT_SUCCESS, Some s')
     \<and> ex_sha1 tiny_ext (region (torrent_info_of tiny_t) 0 (image (to_files tiny_t) (ph_files (sh_pieces (ss_shared s')))))
         = replicate 20 120"
proof -
  obtain s' where s': "main tiny_W [''tent'', ''t.torrent''] tiny_world = Inr (EXIT_SUCCESS, Some s')"
    "ph_written (sh_pieces (ss_shared s')) = 1"
    "\<forall>pc\<in>set (sh_blocks (ss_shared s')). honest_op tiny_ext (torrent_info_of tiny_t) (Op_received pc)" using tiny_main by blast
  have E: "we_ext tiny_W = tiny_ext" "we_load tiny_W = small_env" by (simp_all add: tiny_W_def)
  have l: "load_torrent (we_load tiny_W) (to_buffer (we_files tiny_W) ([''tent'', ''t.torrent''] ! 1)) = Some (None, tiny_t)"
    unfolding E tiny_buffer by (rule tiny_load)
  have z: "0 < sizes_sum (to_files tiny_t)" "sizes_sum (to_files tiny_t) < 2 ^ 48" by (simp_all add: tiny_hyps(6))
  obtain Q where Q: "card Q = 1" "Q \<subseteq> {i. in_torrent (torrent_info_of tiny_t) i}"
    "\<forall>i\<in>Q. ex_sha1 tiny_ext (region (torrent_info_of tiny_t) i (image (ti_files (torrent_info_of tiny_t)) (ph_files (sh_pieces (ss_shared s')))))
        = take 20 (drop (nat (sint i * 20)) (to_piece_hashes tiny_t))"
    using main_downloads [OF s'(1) l HOL.refl z tiny_hyps(7,1-5)] s'(2,3) unfolding E by auto
  have "i = 0" if "in_torrent (torrent_info_of tiny_t) i" for i :: u32
  proof -
    have "sint i = 0" using that by (simp add: in_torrent_def torrent_info_of_def tiny_t_def)
    then show ?thesis by (rule signed_eq_0_iff [THEN iffD1])
  qed
  then have "Q = {0}" using Q(1,2) by (auto simp: card_1_singleton_iff)
  then show ?thesis using Q(3) s'(1) by (auto simp: torrent_info_of_def tiny_t_def)
qed

end
