(* ===== verification/Sha1.thy ===== *)
theory Sha1
  imports Prelude
begin

section \<open>The hash function\<close>

text \<open>
  \<open>extern/libtorrent/src/sha1.cpp\<close> and \<open>hasher.cpp\<close>, the SHA-1 that libtorrent is built with when it
  is given no cryptographic library. The first part is the code: 80 unrolled rounds that rename five
  variables instead of moving them, a message schedule kept in a circle of 16 words, a byte order
  fixed up in place, and a streaming interface with a partly filled buffer. The second part is the
  definition of FIPS 180, which has none of these, and the third proves them equal.
\<close>

subsection \<open>The code\<close>

record sha1_ctx =
  sx_state :: "u32 list"
  sx_count :: "u32 \<times> u32"
  sx_buffer :: "byte list"

text \<open>The two instances of the templates; \<open>memcpy\<close> to the words of the union reads in that order.\<close>

datatype endian = Little_endian | Big_endian

definition rol :: "u32 \<Rightarrow> nat \<Rightarrow> u32" where
  "rol val bits = push_bit bits val OR drop_bit (32 - bits) val"

definition load32 :: "endian \<Rightarrow> byte list \<Rightarrow> u32" where
  "load32 en bs = (case en of Little_endian \<Rightarrow> of_be (rev bs) | Big_endian \<Rightarrow> of_be bs)"

definition load_block :: "endian \<Rightarrow> byte list \<Rightarrow> u32 list" where
  "load_block en buffer = map (\<lambda>k. load32 en (take 4 (drop (4 * k) buffer))) [0..<16]"

definition blk0 :: "endian \<Rightarrow> u32 list \<Rightarrow> nat \<Rightarrow> u32 list" where
  "blk0 en l i =
     (case en of
        Little_endian \<Rightarrow> l[i := (rol (l ! i) 24 AND 0xFF00FF00) OR (rol (l ! i) 8 AND 0x00FF00FF)]
      | Big_endian \<Rightarrow> l)"

definition blk :: "u32 list \<Rightarrow> nat \<Rightarrow> u32 list" where
  "blk l i =
     l[i mod 16 := rol (l ! ((i + 13) mod 16) XOR l ! ((i + 8) mod 16) XOR l ! ((i + 2) mod 16) XOR l ! (i mod 16)) 1]"

text \<open>
  The variables \<open>a\<close> to \<open>e\<close> are the elements of a list; a macro is called with the positions of its
  \<open>v\<close>, \<open>w\<close>, \<open>x\<close>, \<open>y\<close> and \<open>z\<close>. The calls of \<open>SHA1transform\<close> move them one variable down each time.
\<close>

type_synonym regs = "nat \<times> nat \<times> nat \<times> nat \<times> nat"

definition sha1_op :: "(u32 \<Rightarrow> u32 \<Rightarrow> u32 \<Rightarrow> u32) \<Rightarrow> u32 \<Rightarrow> regs \<Rightarrow> u32 \<Rightarrow> u32 list \<Rightarrow> u32 list" where
  "sha1_op f k vs m r =
     (let (v, w, x, y, z) = vs;
          r = r[z := r ! z + (f (r ! w) (r ! x) (r ! y) + m + k + rol (r ! v) 5)]
      in r[w := rol (r ! w) 30])"

definition R0 :: "endian \<Rightarrow> regs \<Rightarrow> nat \<Rightarrow> u32 list \<times> u32 list \<Rightarrow> u32 list \<times> u32 list" where
  "R0 en vs i s =
     (let l = blk0 en (snd s) i
      in (sha1_op (\<lambda>w x y. (w AND (x XOR y)) XOR y) 0x5A827999 vs (l ! i) (fst s), l))"

definition R1 :: "regs \<Rightarrow> nat \<Rightarrow> u32 list \<times> u32 list \<Rightarrow> u32 list \<times> u32 list" where
  "R1 vs i s =
     (let l = blk (snd s) i
      in (sha1_op (\<lambda>w x y. (w AND (x XOR y)) XOR y) 0x5A827999 vs (l ! (i mod 16)) (fst s), l))"

definition R2 :: "regs \<Rightarrow> nat \<Rightarrow> u32 list \<times> u32 list \<Rightarrow> u32 list \<times> u32 list" where
  "R2 vs i s =
     (let l = blk (snd s) i
      in (sha1_op (\<lambda>w x y. w XOR x XOR y) 0x6ED9EBA1 vs (l ! (i mod 16)) (fst s), l))"

definition R3 :: "regs \<Rightarrow> nat \<Rightarrow> u32 list \<times> u32 list \<Rightarrow> u32 list \<times> u32 list" where
  "R3 vs i s =
     (let l = blk (snd s) i
      in (sha1_op (\<lambda>w x y. ((w OR x) AND y) OR (w AND x)) 0x8F1BBCDC vs (l ! (i mod 16)) (fst s), l))"

definition R4 :: "regs \<Rightarrow> nat \<Rightarrow> u32 list \<times> u32 list \<Rightarrow> u32 list \<times> u32 list" where
  "R4 vs i s =
     (let l = blk (snd s) i
      in (sha1_op (\<lambda>w x y. w XOR x XOR y) 0xCA62C1D6 vs (l ! (i mod 16)) (fst s), l))"

definition call_regs :: "nat \<Rightarrow> regs" where
  "call_regs i =
     (let v = (80 - i) mod 5 in (v, (v + 1) mod 5, (v + 2) mod 5, (v + 3) mod 5, (v + 4) mod 5))"

definition SHA1transform :: "endian \<Rightarrow> u32 list \<Rightarrow> byte list \<Rightarrow> u32 list" where
  "SHA1transform en state buffer =
     (let s = fold (\<lambda>i. R0 en (call_regs i) i) [0..<16] (state, load_block en buffer);
          s = fold (\<lambda>i. R1 (call_regs i) i) [16..<20] s;
          s = fold (\<lambda>i. R2 (call_regs i) i) [20..<40] s;
          s = fold (\<lambda>i. R3 (call_regs i) i) [40..<60] s;
          s = fold (\<lambda>i. R4 (call_regs i) i) [60..<80] s
      in map2 (+) state (fst s))"

text \<open>
  The loop of \<open>internal_update\<close> over whole blocks of the data. A \<open>size_t\<close> has 64 bits, so that the
  first comparison below is between a value of 32 bits and one of 64.
\<close>

function update_loop :: "endian \<Rightarrow> byte list \<Rightarrow> nat \<Rightarrow> u32 list \<Rightarrow> nat \<times> u32 list" where
  "update_loop en data i state =
     (if i + 63 < length data
      then update_loop en data (i + 64) (SHA1transform en state (take 64 (drop i data)))
      else (i, state))"
  by pat_completeness auto
termination by (relation "measure (\<lambda>(en, data, i, state). length data - i)") auto

declare update_loop.simps [simp del]

definition add_count :: "u32 \<times> u32 \<Rightarrow> nat \<Rightarrow> u32 \<times> u32" where
  "add_count count n =
     (let len = word_of_nat n :: u64;
          c0 = fst count + ucast (push_bit 3 len);
          c1 = (if (ucast c0 :: u64) < push_bit 3 len then snd count + 1 else snd count)
      in (c0, c1 + ucast (drop_bit 29 len)))"

definition internal_update :: "endian \<Rightarrow> sha1_ctx \<Rightarrow> byte list \<Rightarrow> sha1_ctx" where
  "internal_update en ctx data =
     (let j = unat (drop_bit 3 (fst (sx_count ctx)) AND 63);
          ctx = ctx\<lparr>sx_count := add_count (sx_count ctx) (length data)\<rparr>;
          (i, j, ctx) =
            (if j + length data > 63 then
               let buffer = take j (sx_buffer ctx) @ take (64 - j) data;
                   (i, state) = update_loop en data (64 - j) (SHA1transform en (sx_state ctx) buffer)
               in (i, 0, ctx\<lparr>sx_buffer := buffer, sx_state := state\<rparr>)
             else (0, j, ctx))
      in ctx\<lparr>sx_buffer := take j (sx_buffer ctx) @ drop i data @ drop (j + (length data - i)) (sx_buffer ctx)\<rparr>)"

definition SHA1_init :: "sha1_ctx \<Rightarrow> sha1_ctx" where
  "SHA1_init ctx =
     ctx\<lparr>sx_state := [0x67452301, 0xEFCDAB89, 0x98BADCFE, 0x10325476, 0xC3D2E1F0], sx_count := (0, 0)\<rparr>"

definition SHA1_update :: "endian \<Rightarrow> sha1_ctx \<Rightarrow> byte list \<Rightarrow> sha1_ctx" where
  "SHA1_update en ctx data = internal_update en ctx data"

text \<open>The loop that pads with zeros, with fuel.\<close>

fun pad_loop :: "nat \<Rightarrow> endian \<Rightarrow> sha1_ctx \<Rightarrow> sha1_ctx option" where
  "pad_loop 0 en ctx = (if fst (sx_count ctx) AND 504 \<noteq> 448 then None else Some ctx)"
| "pad_loop (Suc fuel) en ctx =
     (if fst (sx_count ctx) AND 504 \<noteq> 448 then pad_loop fuel en (SHA1_update en ctx [0]) else Some ctx)"

definition finalcount :: "u32 \<times> u32 \<Rightarrow> byte list" where
  "finalcount count =
     map (\<lambda>i. ucast (drop_bit ((3 - i mod 4) * 8) (if i \<ge> 4 then fst count else snd count) AND 255)) [0..<8]"

definition digest :: "u32 list \<Rightarrow> byte list" where
  "digest state = map (\<lambda>i. ucast (drop_bit ((3 - i mod 4) * 8) (state ! (i div 4)) AND 255)) [0..<20]"

definition SHA1_final :: "endian \<Rightarrow> sha1_ctx \<Rightarrow> byte list option" where
  "SHA1_final en ctx =
     (let count = finalcount (sx_count ctx) in
      map_option (\<lambda>ctx. digest (sx_state (SHA1_update en ctx count)))
        (pad_loop 64 en (SHA1_update en ctx [0x80])))"

text \<open>
  The class \<open>hasher\<close> on this implementation; what its context holds before it is initialized is a
  parameter.
\<close>

definition hasher_ctor :: "sha1_ctx \<Rightarrow> sha1_ctx" where
  "hasher_ctor m_context = SHA1_init m_context"

definition hasher_update :: "endian \<Rightarrow> byte list \<Rightarrow> sha1_ctx \<Rightarrow> sha1_ctx" where
  "hasher_update en data m_context = SHA1_update en m_context data"

definition hasher_span :: "endian \<Rightarrow> sha1_ctx \<Rightarrow> byte list \<Rightarrow> sha1_ctx" where
  "hasher_span en m_context data = hasher_update en data (hasher_ctor m_context)"

definition hasher_final :: "endian \<Rightarrow> sha1_ctx \<Rightarrow> byte list option" where
  "hasher_final en m_context = SHA1_final en m_context"

definition hasher_reset :: "sha1_ctx \<Rightarrow> sha1_ctx" where
  "hasher_reset m_context = SHA1_init m_context"

subsection \<open>FIPS 180\<close>

type_synonym hash5 = "u32 \<times> u32 \<times> u32 \<times> u32 \<times> u32"

text \<open>The message schedule, the functions and the constants.\<close>

fun sha1_w :: "byte list \<Rightarrow> nat \<Rightarrow> u32" where
  "sha1_w m t =
     (if t < 16 then of_be (take 4 (drop (4 * t) m))
      else word_rotl 1 (sha1_w m (t - 3) XOR sha1_w m (t - 8) XOR sha1_w m (t - 14) XOR sha1_w m (t - 16)))"

declare sha1_w.simps [simp del]

definition sha1_f :: "nat \<Rightarrow> u32 \<Rightarrow> u32 \<Rightarrow> u32 \<Rightarrow> u32" where
  "sha1_f t x y z =
     (if t < 20 then (x AND y) XOR (NOT x AND z)
      else if t < 40 then x XOR y XOR z
      else if t < 60 then (x AND y) XOR (x AND z) XOR (y AND z)
      else x XOR y XOR z)"

definition sha1_k :: "nat \<Rightarrow> u32" where
  "sha1_k t =
     (if t < 20 then 0x5A827999 else if t < 40 then 0x6ED9EBA1 else if t < 60 then 0x8F1BBCDC else 0xCA62C1D6)"

fun sha1_step :: "byte list \<Rightarrow> nat \<Rightarrow> hash5 \<Rightarrow> hash5" where
  "sha1_step m t (a, b, c, d, e) =
     (word_rotl 5 a + sha1_f t b c d + e + sha1_k t + sha1_w m t, a, word_rotl 30 b, c, d)"

definition sha1_compress :: "hash5 \<Rightarrow> byte list \<Rightarrow> hash5" where
  "sha1_compress h m =
     (let (h0, h1, h2, h3, h4) = h; (a, b, c, d, e) = fold (sha1_step m) [0..<80] h
      in (h0 + a, h1 + b, h2 + c, h3 + d, h4 + e))"

fun sha1_blocks :: "hash5 \<Rightarrow> byte list \<Rightarrow> hash5" where
  "sha1_blocks h m = (if length m < 64 then h else sha1_blocks (sha1_compress h (take 64 m)) (drop 64 m))"

declare sha1_blocks.simps [simp del]

definition sha1_iv :: hash5 where
  "sha1_iv = (0x67452301, 0xEFCDAB89, 0x98BADCFE, 0x10325476, 0xC3D2E1F0)"

definition sha1_pad :: "byte list \<Rightarrow> byte list" where
  "sha1_pad m =
     m @ 0x80 # replicate ((119 - length m mod 64) mod 64) 0 @ be 8 (word_of_nat (8 * length m) :: u64)"

definition sha1 :: "byte list \<Rightarrow> byte list" where
  "sha1 m = (let (a, b, c, d, e) = sha1_blocks sha1_iv (sha1_pad m) in concat (map (be 4) [a, b, c, d, e]))"

subsection \<open>Words\<close>

lemma rol_word_rotl:
  assumes n: "n < 32"
  shows "rol val n = word_rotl n val"
proof (rule bit_word_eqI)
  fix i assume "i < LENGTH(32)"
  then have i: "i < 32" by simp
  show "bit (rol val n) i \<longleftrightarrow> bit (word_rotl n val) i"
  proof (cases "n \<le> i")
    case True
    then have m: "i + (32 - n) = (i - n) + 32" using n by simp
    have "(i + (32 - n)) mod 32 = i - n" unfolding m using i by simp
    then show ?thesis using n i True
      by (auto simp: rol_def bit_simps bit_word_rotl_iff dest: bit_imp_le_length)
  next
    case False
    then have m: "i + (32 - n) = 32 - n + i" "(i + (32 - n)) mod 32 = 32 - n + i" using n i by simp_all
    show ?thesis using n i False unfolding rol_def bit_or_iff bit_push_bit_iff bit_drop_bit_eq bit_word_rotl_iff
      by (simp add: m)
  qed
qed

lemma round_functions:
  fixes w x y :: u32
  shows "(w AND (x XOR y)) XOR y = (w AND x) XOR (NOT w AND y)"
    and "((w OR x) AND y) OR (w AND x) = (w AND x) XOR (w AND y) XOR (x AND y)"
  by (rule bit_word_eqI; auto simp: bit_simps)+

lemma byte_index_cases:
  assumes "(i :: nat) < 32"
  obtains j where "j < 8" "i = j \<or> i = 8 + j \<or> i = 16 + j \<or> i = 24 + j"
proof -
  have "i mod 8 < 8" "i = i mod 8 \<or> i = 8 + i mod 8 \<or> i = 16 + i mod 8 \<or> i = 24 + i mod 8" using assms by presburger+
  then show thesis using that by blast
qed

lemma of_be_4:
  "(of_be [b0, b1, b2, b3] :: u32)
     = push_bit 24 (ucast b0) OR push_bit 16 (ucast b1) OR push_bit 8 (ucast b2) OR ucast b3"
  by (simp add: of_be_def push_bit_or or.assoc)

lemma byte_masks:
  "(0xFF00FF00 :: u32) = push_bit 8 (mask 8) OR push_bit 24 (mask 8)"
  "(0x00FF00FF :: u32) = mask 8 OR push_bit 16 (mask 8)"
  by code_simp+

lemma swap_bytes_bit:
  fixes b0 b1 b2 b3 :: byte
  assumes j: "j < 8" and i: "i = j \<or> i = 8 + j \<or> i = 16 + j \<or> i = 24 + j"
    and w: "w = (of_be [b3, b2, b1, b0] :: u32)"
  shows "bit ((rol w 24 AND 0xFF00FF00) OR (rol w 8 AND 0x00FF00FF)) i \<longleftrightarrow> bit (of_be [b0, b1, b2, b3] :: u32) i"
proof -
  have b: "\<not> bit b n" if "8 \<le> n" for b :: byte and n
    using that bit_imp_le_length [of b n] by auto
  show ?thesis using i j unfolding w of_be_4 byte_masks rol_def
    by (elim disjE) (simp_all add: bit_simps b)
qed

lemma swap_bytes:
  assumes "length bs = 4"
  shows "(rol (of_be (rev bs)) 24 AND 0xFF00FF00) OR (rol (of_be (rev bs)) 8 AND 0x00FF00FF) = (of_be bs :: u32)"
proof -
  obtain b0 b1 b2 b3 where bs: "bs = [b0, b1, b2, b3]"
    using assms by (auto simp: length_Suc_conv numeral_eq_Suc)
  show ?thesis
  proof (rule bit_word_eqI)
    fix i assume "i < LENGTH(32)"
    then obtain j where "j < 8" "i = j \<or> i = 8 + j \<or> i = 16 + j \<or> i = 24 + j" by (auto elim: byte_index_cases)
    then show "bit ((rol (of_be (rev bs)) 24 AND 0xFF00FF00) OR (rol (of_be (rev bs)) 8 AND 0x00FF00FF)) i
        \<longleftrightarrow> bit (of_be bs :: u32) i"
      unfolding bs using swap_bytes_bit by simp
  qed
qed

subsection \<open>The rounds\<close>

text \<open>The message schedule in the circle of 16 words before round \<open>i\<close>.\<close>

definition circle :: "endian \<Rightarrow> byte list \<Rightarrow> nat \<Rightarrow> u32 list \<Rightarrow> bool" where
  "circle en m i l \<longleftrightarrow> length l = 16 \<and>
     (\<forall>t. t < i \<and> i \<le> t + 16 \<longrightarrow> l ! (t mod 16) = sha1_w m t)
     \<and> (\<forall>t<16. i \<le> t \<longrightarrow> l ! t = load32 en (take 4 (drop (4 * t) m)))"

lemma circle_start: "circle en m 0 (load_block en m)"
  by (simp add: circle_def load_block_def)

lemma circle_blk0:
  assumes "circle en m i l" "i < 16" "length m = 64"
  shows "circle en m (Suc i) (blk0 en l i)" "blk0 en l i ! i = sha1_w m i"
proof -
  have l: "l ! i = load32 en (take 4 (drop (4 * i) m))" "length l = 16" using assms by (simp_all add: circle_def)
  have "length (take 4 (drop (4 * i) m)) = 4" using assms(2,3) by simp
  then have v: "blk0 en l i = l[i := sha1_w m i]"
    using swap_bytes [of "take 4 (drop (4 * i) m)"] l assms(2)
    by (cases en; simp add: blk0_def load32_def sha1_w.simps [of m i]; metis list_update_id)
  have "l[i := sha1_w m i] ! (t mod 16) = sha1_w m t" if "t < Suc i" "Suc i \<le> t + 16" for t
    using that assms(1,2) l(2) by (cases "t = i") (auto simp: circle_def)
  then show "circle en m (Suc i) (blk0 en l i)"
    using assms(1,2) l(2) unfolding circle_def v by auto
  show "blk0 en l i ! i = sha1_w m i" using v l(2) assms(2) by simp
qed

lemma circle_index:
  assumes "16 \<le> (i :: nat)"
  shows "(i + 13) mod 16 = (i - 3) mod 16" "(i + 8) mod 16 = (i - 8) mod 16" "(i + 2) mod 16 = (i - 14) mod 16"
    "i mod 16 = (i - 16) mod 16"
proof -
  obtain k where k: "i = 16 + k" using assms le_Suc_ex by blast
  have "16 + k + 13 = k + 13 + 16" "16 + k + 8 = k + 8 + 16" "16 + k + 2 = k + 2 + 16" "16 + k = k + 16" by simp_all
  then show "(i + 13) mod 16 = (i - 3) mod 16" "(i + 8) mod 16 = (i - 8) mod 16" "(i + 2) mod 16 = (i - 14) mod 16"
    "i mod 16 = (i - 16) mod 16" unfolding k by (simp_all only: mod_add_self2) (simp_all add: add.commute)
qed

lemma circle_blk:
  assumes "circle en m i l" "16 \<le> i"
  shows "circle en m (Suc i) (blk l i)" "blk l i ! (i mod 16) = sha1_w m i"
proof -
  have l: "l ! (t mod 16) = sha1_w m t" if "t < i" "i \<le> t + 16" for t using assms(1) that by (simp add: circle_def)
  have n: "length l = 16" using assms(1) by (simp add: circle_def)
  have e: "(i + 13) mod 16 = (i - 3) mod 16" "(i + 8) mod 16 = (i - 8) mod 16" "(i + 2) mod 16 = (i - 14) mod 16"
    "i mod 16 = (i - 16) mod 16" by (rule circle_index [OF assms(2)])+
  have "rol (l ! ((i + 13) mod 16) XOR l ! ((i + 8) mod 16) XOR l ! ((i + 2) mod 16) XOR l ! (i mod 16)) 1
      = sha1_w m i"
    unfolding e using assms(2) by (simp add: l rol_word_rotl sha1_w.simps [of m i])
  then have v: "blk l i = l[i mod 16 := sha1_w m i]" by (simp add: blk_def)
  have "l[i mod 16 := sha1_w m i] ! (t mod 16) = sha1_w m t" if t: "t < Suc i" "Suc i \<le> t + 16" for t
  proof (cases "t = i")
    case True
    then show ?thesis using n by simp
  next
    case False
    then have "i - t < 16" "i - t \<noteq> 0" using t by simp_all
    then have "i mod 16 \<noteq> t mod 16" using t by (metis dvd_imp_mod_0 less_Suc_eq_le mod_eq_dvd_iff_nat mod_less)
    then show ?thesis using t False l by simp
  qed
  then show "circle en m (Suc i) (blk l i)" using n assms(2) unfolding circle_def v by auto
  show "blk l i ! (i mod 16) = sha1_w m i" using v n by simp
qed

text \<open>The variables, read in the order of the next call, are those of FIPS 180.\<close>

definition regs_at :: "nat \<Rightarrow> u32 list \<Rightarrow> hash5" where
  "regs_at i r = (let (v, w, x, y, z) = call_regs i in (r ! v, r ! w, r ! x, r ! y, r ! z))"

lemma list5_cases:
  assumes "length r = 5"
  obtains a b c d e where "r = [a, b, c, d, e]"
  using assms by (auto simp: length_Suc_conv numeral_eq_Suc)

lemma sha1_op_step:
  assumes "length r = 5" "i < 80" "m = sha1_w msg i" "k = sha1_k i" "\<And>x y z. f x y z = sha1_f i x y z"
  shows "regs_at (Suc i) (sha1_op f k (call_regs i) m r) = sha1_step msg i (regs_at i r)"
proof -
  obtain a b c d e where r: "r = [a, b, c, d, e]" using assms(1) by (rule list5_cases)
  obtain n where n: "80 - i = Suc n" "80 - Suc i = n" using assms(2) by (cases "80 - i") simp_all
  have "Suc n mod 5 < 5" by simp
  then have "Suc n mod 5 = 0 \<or> Suc n mod 5 = 1 \<or> Suc n mod 5 = 2 \<or> Suc n mod 5 = 3 \<or> Suc n mod 5 = 4" by linarith
  moreover have "n mod 5 = (Suc n mod 5 + 4) mod 5" by (simp add: mod_simps)
  ultimately show ?thesis
    unfolding r regs_at_def call_regs_def n by (elim disjE)
      (simp_all add: sha1_op_def Let_def assms(3-5) rol_word_rotl)
qed

lemma length_sha1_op [simp]: "length (sha1_op f k vs m r) = length r"
  by (simp add: sha1_op_def Let_def split: prod.split)

definition round_ok :: "endian \<Rightarrow> byte list \<Rightarrow> nat \<Rightarrow> hash5 \<Rightarrow> u32 list \<times> u32 list \<Rightarrow> bool" where
  "round_ok en m i h s \<longleftrightarrow> length (fst s) = 5 \<and> circle en m i (snd s) \<and> regs_at i (fst s) = h"

lemma rounds:
  assumes "round_ok en m i h s" "length m = 64"
  shows "i < 16 \<Longrightarrow> round_ok en m (Suc i) (sha1_step m i h) (R0 en (call_regs i) i s)"
    and "16 \<le> i \<Longrightarrow> i < 20 \<Longrightarrow> round_ok en m (Suc i) (sha1_step m i h) (R1 (call_regs i) i s)"
    and "20 \<le> i \<Longrightarrow> i < 40 \<Longrightarrow> round_ok en m (Suc i) (sha1_step m i h) (R2 (call_regs i) i s)"
    and "40 \<le> i \<Longrightarrow> i < 60 \<Longrightarrow> round_ok en m (Suc i) (sha1_step m i h) (R3 (call_regs i) i s)"
    and "60 \<le> i \<Longrightarrow> i < 80 \<Longrightarrow> round_ok en m (Suc i) (sha1_step m i h) (R4 (call_regs i) i s)"
proof -
  have s: "length (fst s) = 5" "circle en m i (snd s)" "regs_at i (fst s) = h" using assms(1) by (simp_all add: round_ok_def)
  note op = sha1_op_step [OF s(1), of i _ m, unfolded s(3)]
  show "round_ok en m (Suc i) (sha1_step m i h) (R0 en (call_regs i) i s)" if "i < 16"
    using that circle_blk0 [OF s(2) _ assms(2)] s(1)
    by (simp add: round_ok_def R0_def Let_def op sha1_k_def sha1_f_def round_functions)
  show "round_ok en m (Suc i) (sha1_step m i h) (R1 (call_regs i) i s)" if "16 \<le> i" "i < 20"
    using that circle_blk [OF s(2)] s(1)
    by (simp add: round_ok_def R1_def Let_def op sha1_k_def sha1_f_def round_functions)
  show "round_ok en m (Suc i) (sha1_step m i h) (R2 (call_regs i) i s)" if "20 \<le> i" "i < 40"
    using that circle_blk [OF s(2)] s(1)
    by (simp add: round_ok_def R2_def Let_def op sha1_k_def sha1_f_def)
  show "round_ok en m (Suc i) (sha1_step m i h) (R3 (call_regs i) i s)" if "40 \<le> i" "i < 60"
    using that circle_blk [OF s(2)] s(1)
    by (simp add: round_ok_def R3_def Let_def op sha1_k_def sha1_f_def round_functions)
  show "round_ok en m (Suc i) (sha1_step m i h) (R4 (call_regs i) i s)" if "60 \<le> i" "i < 80"
    using that circle_blk [OF s(2)] s(1)
    by (simp add: round_ok_def R4_def Let_def op sha1_k_def sha1_f_def)
qed

lemma fold_rounds:
  assumes "\<And>i h s. i0 \<le> i \<Longrightarrow> i < i1 \<Longrightarrow> round_ok en m i h s \<Longrightarrow> round_ok en m (Suc i) (g i h) (R i s)"
    and "round_ok en m i0 h s" "i0 \<le> i1"
  shows "round_ok en m i1 (fold g [i0..<i1] h) (fold R [i0..<i1] s)"
  using assms(3,1)
proof (induction i1 rule: dec_induct)
  case base
  then show ?case using assms(2) by simp
next
  case (step n)
  then have "round_ok en m n (fold g [i0..<n] h) (fold R [i0..<n] s)" by simp
  then show ?case using step by simp
qed

lemma upt_80: "[0..<80] = [0..<16] @ [16..<20] @ [20..<40] @ [40..<60] @ [60..<80]"
  by (simp add: upt_rec)

definition list5 :: "hash5 \<Rightarrow> u32 list" where
  "list5 h = (let (a, b, c, d, e) = h in [a, b, c, d, e])"

lemma round_ok_80: "round_ok en m 80 h s \<Longrightarrow> fst s = list5 h"
proof -
  assume r: "round_ok en m 80 h s"
  then have "length (fst s) = 5" by (simp add: round_ok_def)
  then obtain a b c d e where "fst s = [a, b, c, d, e]" by (rule list5_cases)
  then show ?thesis using r by (auto simp: round_ok_def regs_at_def call_regs_def list5_def)
qed

text \<open>One block: for either byte order of the machine the unrolled rounds with their renamed
  variables, their circular message schedule and their byte swaps compute the compression function
  of FIPS 180.\<close>

lemma SHA1transform_compress:
  assumes "length m = 64"
  shows "SHA1transform en (list5 h) m = list5 (sha1_compress h m)"
proof -
  obtain h0 h1 h2 h3 h4 where h: "h = (h0, h1, h2, h3, h4)" by (metis prod_cases5)
  let ?init = "([h0, h1, h2, h3, h4], load_block en m)"
  let ?last = "fold (\<lambda>i. R4 (call_regs i) i) [60..<80] (fold (\<lambda>i. R3 (call_regs i) i) [40..<60]
    (fold (\<lambda>i. R2 (call_regs i) i) [20..<40] (fold (\<lambda>i. R1 (call_regs i) i) [16..<20]
      (fold (\<lambda>i. R0 en (call_regs i) i) [0..<16] ?init))))"
  have "round_ok en m 0 h ?init" by (simp add: h round_ok_def circle_start regs_at_def call_regs_def)
  then have "round_ok en m 16 (fold (sha1_step m) [0..<16] h) (fold (\<lambda>i. R0 en (call_regs i) i) [0..<16] ?init)"
    by (rule fold_rounds [rotated]) (simp_all add: rounds(1) [OF _ assms])
  then have "round_ok en m 20 (fold (sha1_step m) [16..<20] (fold (sha1_step m) [0..<16] h))
      (fold (\<lambda>i. R1 (call_regs i) i) [16..<20] (fold (\<lambda>i. R0 en (call_regs i) i) [0..<16] ?init))"
    by (rule fold_rounds [rotated]) (simp_all add: rounds(2) [OF _ assms])
  then have "round_ok en m 40 (fold (sha1_step m) [20..<40] (fold (sha1_step m) [16..<20] (fold (sha1_step m) [0..<16] h)))
      (fold (\<lambda>i. R2 (call_regs i) i) [20..<40] (fold (\<lambda>i. R1 (call_regs i) i) [16..<20]
        (fold (\<lambda>i. R0 en (call_regs i) i) [0..<16] ?init)))"
    by (rule fold_rounds [rotated]) (simp_all add: rounds(3) [OF _ assms])
  then have "round_ok en m 60 (fold (sha1_step m) [40..<60] (fold (sha1_step m) [20..<40]
      (fold (sha1_step m) [16..<20] (fold (sha1_step m) [0..<16] h))))
      (fold (\<lambda>i. R3 (call_regs i) i) [40..<60] (fold (\<lambda>i. R2 (call_regs i) i) [20..<40]
        (fold (\<lambda>i. R1 (call_regs i) i) [16..<20] (fold (\<lambda>i. R0 en (call_regs i) i) [0..<16] ?init))))"
    by (rule fold_rounds [rotated]) (simp_all add: rounds(4) [OF _ assms])
  then have "round_ok en m 80 (fold (sha1_step m) [0..<80] h) ?last"
    unfolding upt_80 fold_append comp_apply
    by (rule fold_rounds [rotated]) (simp_all add: rounds(5) [OF _ assms])
  then have e1: "fst ?last = list5 (fold (sha1_step m) [0..<80] h)" by (rule round_ok_80)
  obtain a b c d e where e: "fold (sha1_step m) [0..<80] h = (a, b, c, d, e)" by (metis prod_cases5)
  have "SHA1transform en (list5 h) m = map2 (+) [h0, h1, h2, h3, h4] (fst ?last)"
    by (simp only: SHA1transform_def Let_def list5_def h prod.case)
  also have "\<dots> = list5 (sha1_compress h m)"
    unfolding e1 sha1_compress_def e Let_def by (simp add: h list5_def)
  finally show ?thesis .
qed

subsection \<open>The stream\<close>

definition rest64 :: "byte list \<Rightarrow> byte list" where
  "rest64 m = drop (64 * (length m div 64)) m"

lemma length_rest64 [simp]: "length (rest64 m) = length m mod 64"
  by (simp add: rest64_def minus_mult_div_eq_mod)

lemma rest64_short: "length m < 64 \<Longrightarrow> rest64 m = m"
  by (simp add: rest64_def)

lemma rest64_drop: "64 \<le> length m \<Longrightarrow> rest64 m = rest64 (drop 64 m)"
  by (simp add: rest64_def le_div_geq add.commute)

lemma full_block:
  assumes "length a = 64"
  shows "sha1_blocks h (a @ b) = sha1_blocks (sha1_compress h a) b" "rest64 (a @ b) = rest64 b"
  using assms rest64_drop [of "a @ b"] by (simp_all add: sha1_blocks.simps [of h "a @ b"])

lemma sha1_blocks_append: "sha1_blocks h (a @ b) = sha1_blocks (sha1_blocks h a) (rest64 a @ b)"
proof (induction h a rule: sha1_blocks.induct)
  case (1 h m)
  show ?case
  proof (cases "length m < 64")
    case True
    then show ?thesis by (simp add: sha1_blocks.simps [of h m] rest64_short)
  next
    case False
    then show ?thesis
      using 1 by (simp add: sha1_blocks.simps [of h m] sha1_blocks.simps [of h "m @ b"] rest64_drop)
  qed
qed

lemma rest64_append: "rest64 (a @ b) = rest64 (rest64 a @ b)"
proof (induction a rule: measure_induct_rule [where f = length])
  case (less a)
  show ?case
  proof (cases "length a < 64")
    case True
    then show ?thesis by (simp add: rest64_short)
  next
    case False
    then show ?thesis using less [of "drop 64 a"] rest64_drop [of "a @ b"] rest64_drop [of a] by simp
  qed
qed

lemma update_loop_blocks:
  "i \<le> length data \<Longrightarrow>
     snd (update_loop en data i (list5 h)) = list5 (sha1_blocks h (drop i data))
     \<and> fst (update_loop en data i (list5 h)) \<le> length data
     \<and> drop (fst (update_loop en data i (list5 h))) data = rest64 (drop i data)"
proof (induction "length data - i" arbitrary: i h rule: less_induct)
  case less
  show ?case
  proof (cases "i + 63 < length data")
    case True
    then have "length (take 64 (drop i data)) = 64" by simp
    then have t: "SHA1transform en (list5 h) (take 64 (drop i data)) = list5 (sha1_compress h (take 64 (drop i data)))"
      by (rule SHA1transform_compress)
    have n: "\<not> length data - i < 64" using True by linarith
    have b: "sha1_blocks h (drop i data) = sha1_blocks (sha1_compress h (take 64 (drop i data))) (drop (i + 64) data)"
      using n by (simp add: sha1_blocks.simps [of h "drop i data"] add.commute)
    have "rest64 (drop i data) = rest64 (drop (i + 64) data)"
      using True rest64_drop [of "drop i data"] by (simp add: add.commute)
    then show ?thesis
      using less.hyps [of "i + 64" "sha1_compress h (take 64 (drop i data))"] True
      by (simp add: update_loop.simps [of en data i] t b)
  next
    case False
    then have "length data - i < 64" by linarith
    then show ?thesis using less.prems False
      by (simp add: update_loop.simps [of en data i] sha1_blocks.simps [of h] rest64_short)
  qed
qed

text \<open>The bit count as it should be, and as \<open>internal_update\<close> keeps it.\<close>

definition bit_count :: "nat \<Rightarrow> u32 \<times> u32" where
  "bit_count n = (word_of_nat (8 * n), word_of_nat (8 * n div 2 ^ 32))"

lemma carry_mod:
  assumes "c < N" "d < (N :: nat)"
  shows "(c + d) mod N < d \<longleftrightarrow> N \<le> c + d"
proof (cases "c + d < N")
  case False
  then obtain x where x: "c + d = x + N" by (metis add.commute le_Suc_ex not_less)
  then have "x < d" "x < N" using assms by linarith+
  then show ?thesis using False by (simp add: x)
qed simp

lemma carry_div:
  assumes "d < (N :: nat)"
  shows "(a + d) div N = a div N + (if N \<le> a mod N + d then 1 else 0)"
proof -
  have "(a + d) div N = a div N + (a mod N + d) div N" using assms by (simp add: div_add1_eq [of a d])
  moreover have "(a mod N + d) div N = (if N \<le> a mod N + d then 1 else 0)"
  proof (cases "N \<le> a mod N + d")
    case True
    then obtain x where x: "a mod N + d = x + N" by (metis add.commute le_Suc_ex)
    then have "x < N" using assms mod_less_divisor [of N a] by linarith
    moreover have "N \<noteq> 0" using assms by simp
    ultimately show ?thesis using True by (simp add: x div_add_self2)
  qed simp
  ultimately show ?thesis by simp
qed

lemma unat_ucast_32: "unat (ucast (w :: u32) :: u64) = unat w"
  using unsigned_less [where 'a = nat, of w] by (simp add: unsigned_ucast_eq take_bit_nat_eq_self)

lemma ucast_of_nat: "(ucast (word_of_nat n :: u64) :: u32) = word_of_nat n"
  by (simp add: unsigned_of_nat word_of_nat_eq_iff)

lemma add_count:
  assumes "k < 2 ^ 29"
  shows "add_count (bit_count n) k = bit_count (n + k)"
proof -
  let ?c = "8 * n mod 2 ^ 32" and ?d = "8 * k"
  have d: "?d < 2 ^ 32" using assms by simp
  have p: "push_bit 3 (word_of_nat k :: u64) = word_of_nat ?d" by (simp add: push_bit_eq_mult)
  have u: "unat (word_of_nat ?d :: u64) = ?d" using d by (simp add: unat_of_nat del: of_nat_mult)
  have c0: "(word_of_nat (8 * n) :: u32) + word_of_nat ?d = word_of_nat (8 * (n + k))" by simp
  have uc: "unat (word_of_nat (8 * (n + k)) :: u32) = (?c + ?d) mod 2 ^ 32"
    by (simp add: unat_of_nat mod_simps distrib_left del: of_nat_mult of_nat_add)
  have z: "drop_bit 29 (word_of_nat k :: u64) = 0"
  proof -
    have "unat (drop_bit 29 (word_of_nat k :: u64)) = 0"
      using assms by (simp add: unat_drop_bit_eq unat_of_nat drop_bit_nat_def)
    then show ?thesis by (simp only: unsigned_eq_0_iff)
  qed
  have carry: "(ucast (word_of_nat (8 * (n + k)) :: u32) :: u64) < word_of_nat ?d \<longleftrightarrow> 2 ^ 32 \<le> ?c + ?d"
  proof -
    have "(ucast (word_of_nat (8 * (n + k)) :: u32) :: u64) < word_of_nat ?d \<longleftrightarrow> (?c + ?d) mod 2 ^ 32 < ?d"
      by (simp only: word_less_nat_alt u uc unat_ucast_32)
    also have "\<dots> \<longleftrightarrow> 2 ^ 32 \<le> ?c + ?d" by (rule carry_mod) (use d in simp_all)
    finally show ?thesis .
  qed
  have e: "8 * (n + k) div 2 ^ 32 = 8 * n div 2 ^ 32 + (if 2 ^ 32 \<le> ?c + ?d then 1 else 0)"
    unfolding distrib_left by (rule carry_div [OF d])
  show ?thesis
    unfolding add_count_def bit_count_def Let_def fst_conv snd_conv p ucast_of_nat c0 carry z e by simp
qed

text \<open>From half a gigabyte on, the comparison always finds a carry.\<close>

lemma add_count_large:
  assumes "2 ^ 29 \<le> k" "k < 2 ^ 61"
  shows "add_count (bit_count n) k = (fst (bit_count (n + k)),
    snd (bit_count (n + k)) + (if n mod 2 ^ 29 + k mod 2 ^ 29 < 2 ^ 29 then 1 else 0))"
proof -
  have p: "push_bit 3 (word_of_nat k :: u64) = word_of_nat (8 * k)" by (simp add: push_bit_eq_mult)
  have u: "unat (word_of_nat (8 * k) :: u64) = 8 * k" using assms(2) by (simp add: unat_of_nat del: of_nat_mult)
  have c: "(ucast c0 :: u64) < word_of_nat (8 * k)" for c0 :: u32
  proof -
    have "unat c0 < 2 ^ 32" using unsigned_less [where 'a = nat, of c0] by simp
    then have "unat c0 < 8 * k" using assms(1) by simp
    then show ?thesis by (simp only: word_less_nat_alt u unat_ucast_32)
  qed
  have d: "drop_bit 29 (word_of_nat k :: u64) = word_of_nat (k div 2 ^ 29)"
    using assms(2) by (simp add: word_unat_eq_iff unat_drop_bit_eq unat_of_nat drop_bit_nat_def)
  have h: "8 * m div 2 ^ 32 = m div 2 ^ 29" for m :: nat by simp
  have s: "(n + k) div 2 ^ 29 = n div 2 ^ 29 + k div 2 ^ 29 + (if n mod 2 ^ 29 + k mod 2 ^ 29 < 2 ^ 29 then 0 else 1)"
    using div_add1_eq [of n k "2 ^ 29"] mod_less_divisor [of "2 ^ 29" n] mod_less_divisor [of "2 ^ 29" k]
    by (auto simp: not_less le_div_geq)
  have c0: "(word_of_nat (8 * n) :: u32) + word_of_nat (8 * k) = word_of_nat (8 * (n + k))" by simp
  show ?thesis
    unfolding add_count_def bit_count_def Let_def p d ucast_of_nat fst_conv snd_conv c0 h s
    by (simp add: c del: of_nat_mult)
qed

lemma bit_count_unat: "unat (fst (bit_count n)) = 8 * (n mod 2 ^ 29)"
proof -
  have "unat (fst (bit_count n)) = (8 * n) mod (8 * 2 ^ 29)" by (simp add: bit_count_def unat_of_nat del: of_nat_mult)
  then show ?thesis by (simp only: mult_mod_right)
qed

lemma mod_64_cancel: "n mod 536870912 mod 64 = (n :: nat) mod 64"
  by (rule mod_mod_cancel) simp

lemma buffer_fill: "unat (drop_bit 3 (fst (bit_count n)) AND 63) = n mod 64"
proof -
  have m: "(63 :: u32) = mask 6" by code_simp
  have "unat (drop_bit 3 (fst (bit_count n)) AND 63) = unat (fst (bit_count n)) div 8 mod 64"
    by (simp add: m flip: take_bit_eq_mask) (simp add: unsigned_take_bit_eq unat_drop_bit_eq take_bit_nat_def drop_bit_nat_def)
  then show ?thesis by (simp add: bit_count_unat mod_64_cancel)
qed

lemma pad_test: "fst (bit_count n) AND 504 = 448 \<longleftrightarrow> n mod 64 = 56"
proof -
  have m: "(504 :: u32) = push_bit 3 (mask 6)" "(448 :: u32) = push_bit 3 56" by code_simp+
  have "fst (bit_count n) = push_bit 3 (word_of_nat n)" by (simp add: bit_count_def push_bit_eq_mult)
  then have "fst (bit_count n) AND 504 = push_bit 3 (take_bit 6 (word_of_nat n))"
    by (simp only: m take_bit_eq_mask push_bit_and)
  also have "\<dots> = word_of_nat (8 * (n mod 64))" 
    by (simp add: push_bit_eq_mult take_bit_of_nat take_bit_nat_def)
  finally have "fst (bit_count n) AND 504 = word_of_nat (8 * (n mod 64))" .
  moreover have "(word_of_nat (8 * (n mod 64)) :: u32) = word_of_nat 448 \<longleftrightarrow> 8 * (n mod 64) = 448"
  proof -
    have "8 * (n mod 64) < 2 ^ 32" by (rule order.strict_trans1 [of _ "8 * 63"]) (simp_all add: less_Suc_eq_le [symmetric])
    then show ?thesis unfolding word_of_nat_eq_iff by (simp add: take_bit_nat_eq_self)
  qed
  ultimately show ?thesis by simp
qed

text \<open>The context after the bytes of \<open>m\<close> have gone through it.\<close>

definition ctx_ok :: "byte list \<Rightarrow> sha1_ctx \<Rightarrow> bool" where
  "ctx_ok m ctx \<longleftrightarrow>
     sx_state ctx = list5 (sha1_blocks sha1_iv m) \<and> sx_count ctx = bit_count (length m)
     \<and> length (sx_buffer ctx) = 64 \<and> take (length m mod 64) (sx_buffer ctx) = rest64 m"

lemma init_ok: "length (sx_buffer ctx) = 64 \<Longrightarrow> ctx_ok [] (SHA1_init ctx)"
  by (simp add: ctx_ok_def SHA1_init_def sha1_blocks.simps list5_def sha1_iv_def bit_count_def rest64_def)

lemma mod_add_small: "a mod 64 + (b :: nat) < 64 \<Longrightarrow> (a + b) mod 64 = a mod 64 + b"
  by (metis mod_add_left_eq mod_less)

lemma update_ok:
  assumes "ctx_ok m ctx" "length data < 2 ^ 29"
  shows "ctx_ok (m @ data) (SHA1_update en ctx data)"
proof -
  let ?j = "length m mod 64" and ?h = "sha1_blocks sha1_iv m"
  have c: "sx_state ctx = list5 ?h" "sx_count ctx = bit_count (length m)" "length (sx_buffer ctx) = 64"
    "take ?j (sx_buffer ctx) = rest64 m" using assms(1) by (simp_all add: ctx_ok_def)
  have j: "?j < 64" by simp
  note b = sha1_blocks_append [of sha1_iv m data] and r = rest64_append [of m data]
  note u = SHA1_update_def internal_update_def c(2) buffer_fill add_count [OF assms(2)]
  show ?thesis
  proof (cases "?j + length data > 63")
    case False
    then have n: "?j + length data < 64" by simp
    have l: "(length m + length data) mod 64 = ?j + length data" using n by (rule mod_add_small)
    have "length (rest64 m @ data) < 64" using n by simp
    then have "sha1_blocks sha1_iv (m @ data) = ?h" "rest64 (m @ data) = rest64 m @ data"
      unfolding b r by (simp_all add: sha1_blocks.simps [of ?h "rest64 m @ data"] rest64_short)
    then show ?thesis using False n c l by (simp add: ctx_ok_def u Let_def)
  next
    case True
    let ?i = "64 - ?j"
    define full where "full = rest64 m @ take ?i data"
    have i: "?i \<le> length data" using True by simp
    have f: "length full = 64" using i j by (simp add: full_def)
    define st where "st = update_loop en data ?i (list5 (sha1_compress ?h full))"
    have l: "snd st = list5 (sha1_blocks (sha1_compress ?h full) (drop ?i data))" "fst st \<le> length data"
      "drop (fst st) data = rest64 (drop ?i data)"
      using update_loop_blocks [OF i, of en "sha1_compress ?h full"] by (simp_all add: st_def)
    have split: "rest64 m @ data = full @ drop ?i data" by (simp add: full_def)
    have d: "sha1_blocks sha1_iv (m @ data) = sha1_blocks (sha1_compress ?h full) (drop ?i data)"
      "rest64 (m @ data) = rest64 (drop ?i data)"
      unfolding b r split by (rule full_block [OF f])+
    have q: "length data - fst st = length (m @ data) mod 64"
      by (metis d(2) l(3) length_drop length_rest64)
    have "SHA1_update en ctx data = ctx\<lparr>sx_count := bit_count (length m + length data),
        sx_state := snd st, sx_buffer := rest64 (m @ data) @ drop (length data - fst st) full\<rparr>"
    proof -
      obtain a b where ab: "st = (a, b)" by fastforce
      have t: "SHA1transform en (list5 ?h) full = list5 (sha1_compress ?h full)" using f by (rule SHA1transform_compress)
      show ?thesis using True l(3) unfolding d(2) ab u Let_def c(1)
        by (simp add: c(1,4) ab [unfolded st_def] t flip: full_def)
    qed
    moreover have "length (m @ data) mod 64 \<le> 64" by (simp add: less_imp_le)
    ultimately show ?thesis unfolding q using d(1) l(1) f by (simp add: ctx_ok_def)
  qed
qed

lemma updates_ok:
  assumes "ctx_ok m ctx" "\<forall>d\<in>set ds. length d < 2 ^ 29"
  shows "ctx_ok (m @ concat ds) (fold (\<lambda>d ctx. SHA1_update en ctx d) ds ctx)"
  using assms
proof (induction ds arbitrary: m ctx)
  case Nil
  then show ?case by simp
next
  case (Cons d ds)
  then have "ctx_ok (m @ d) (SHA1_update en ctx d)" using update_ok by simp
  then show ?case using Cons.IH [of "m @ d"] Cons.prems(2) by simp
qed

subsection \<open>The padding\<close>

lemma pad_loop_ok:
  assumes "ctx_ok m ctx" "k \<le> fuel" "(length m + k) mod 64 = 56" "\<forall>i<k. (length m + i) mod 64 \<noteq> 56"
  shows "\<exists>ctx'. pad_loop fuel en ctx = Some ctx' \<and> ctx_ok (m @ replicate k 0) ctx'"
  using assms
proof (induction k arbitrary: m ctx fuel)
  case 0
  have "fst (sx_count ctx) AND 504 = 448" using 0 pad_test [of "length m"] by (simp add: ctx_ok_def)
  then show ?case using 0 by (cases fuel) auto
next
  case (Suc k)
  then obtain n where n: "fuel = Suc n" "k \<le> n" by (cases fuel) auto
  have "length m mod 64 \<noteq> 56" using Suc.prems(4) by (metis add.right_neutral zero_less_Suc)
  then have "fst (sx_count ctx) AND 504 \<noteq> 448" using Suc.prems(1) pad_test [of "length m"] by (simp add: ctx_ok_def)
  moreover have "ctx_ok (m @ [0]) (SHA1_update en ctx [0])" using update_ok [OF Suc.prems(1), of "[0]"] by simp
  moreover have "\<forall>i<k. (length (m @ [0]) + i) mod 64 \<noteq> 56"
  proof (intro allI impI)
    fix i assume "i < k"
    then show "(length (m @ [0]) + i) mod 64 \<noteq> 56" using Suc.prems(4) [rule_format, of "Suc i"] by simp
  qed
  ultimately show ?case
    using Suc.IH [of "m @ [0]" "SHA1_update en ctx [0]" n] Suc.prems(3) n by (simp add: replicate_app_Cons_same)
qed

lemma be_digit: "ucast (w AND 255) = (ucast w :: byte)" for w :: u32
proof -
  have m: "(255 :: u32) = mask 8" by code_simp
  show ?thesis unfolding m by (rule bit_word_eqI) (simp add: bit_simps)
qed

lemma upt_8: "[0..<8] = [0, 1, 2, 3, 4, 5, 6, 7 :: nat]"
  by (simp add: upt_rec)

lemma be_4_map: "be 4 (w :: u32) = map (\<lambda>i. ucast (drop_bit ((3 - i) * 8) w)) [0, 1, 2, 3]"
  by (simp add: numeral_eq_Suc)

lemma be_8_list:
  "be 8 w = [ucast (drop_bit 56 w), ucast (drop_bit 48 w), ucast (drop_bit 40 w), ucast (drop_bit 32 w),
     ucast (drop_bit 24 w), ucast (drop_bit 16 w), ucast (drop_bit 8 w), ucast w]"
proof -
  have "be 2 w = [ucast (drop_bit 8 w), ucast w]" by (simp add: numeral_2_eq_2)
  then show ?thesis
    using be.simps(2) [of 7 w] be.simps(2) [of 6 w] be.simps(2) [of 5 w] be.simps(2) [of 4 w]
      be.simps(2) [of 3 w] be.simps(2) [of 2 w]
    by simp
qed

lemma be_8_split:
  fixes n :: nat
  shows "be 8 (word_of_nat n :: u64) = be 4 (word_of_nat (n div 2 ^ 32) :: u32) @ be 4 (word_of_nat n :: u32)"
proof -
  have e: "n div 2 ^ 32 = drop_bit 32 n" by (simp add: drop_bit_eq_div)
  have lo: "ucast (drop_bit k (word_of_nat n :: u64)) = (ucast (drop_bit k (word_of_nat n :: u32)) :: byte)" if "k \<le> 24" for k
    using that by (intro bit_word_eqI) (auto simp: bit_simps)
  have hi: "ucast (drop_bit (32 + k) (word_of_nat n :: u64)) = (ucast (drop_bit k (word_of_nat (n div 2 ^ 32) :: u32)) :: byte)"
    if "k \<le> 24" for k
    using that unfolding e by (intro bit_word_eqI) (auto simp: bit_simps ac_simps)
  show ?thesis
    using lo [of 0] lo [of 8] lo [of 16] lo [of 24] hi [of 0] hi [of 8] hi [of 16] hi [of 24]
    unfolding be_8_list be_4_map by simp
qed

lemma finalcount_be: "finalcount (bit_count n) = be 8 (word_of_nat (8 * n) :: u64)"
proof -
  have "finalcount (c0, c1) = be 4 c1 @ be 4 c0" for c0 c1
    unfolding finalcount_def upt_8 be_4_map be_digit by simp
  then show ?thesis by (simp only: bit_count_def be_8_split)
qed

lemma digest_be: "digest (list5 (a, b, c, d, e)) = concat (map (be 4) [a, b, c, d, e])"
proof -
  have "[0..<20] = [0, 1, 2, 3, 4, 5, 6, 7, 8, 9, 10, 11, 12, 13, 14, 15, 16, 17, 18, 19 :: nat]" by (simp add: upt_rec)
  then show ?thesis unfolding digest_def be_4_map be_digit list5_def by simp
qed

lemma zeros:
  fixes n :: nat
  shows "(n + 1 + (119 - n mod 64) mod 64) mod 64 = 56" "\<forall>i<(119 - n mod 64) mod 64. (n + 1 + i) mod 64 \<noteq> 56"
proof -
  define k where "k = n mod 64"
  have k: "k < 64" by (simp add: k_def)
  have step: "(n + 1 + i) mod 64 = (k + (1 + i)) mod 64" for i by (simp only: k_def add.assoc mod_add_left_eq)
  have z: "(119 - k) mod 64 = (if k \<le> 55 then 55 - k else 119 - k)"
  proof (cases "k \<le> 55")
    case True
    then have e: "119 - k = 55 - k + 64" by simp
    show ?thesis unfolding e mod_add_self2 using True by simp
  qed (use k in simp)
  show "(n + 1 + (119 - n mod 64) mod 64) mod 64 = 56"
    unfolding step unfolding k_def [symmetric] z using k by simp
  show "\<forall>i<(119 - n mod 64) mod 64. (n + 1 + i) mod 64 \<noteq> 56"
  proof (intro allI impI)
    fix i assume i: "i < (119 - n mod 64) mod 64"
    show "(n + 1 + i) mod 64 \<noteq> 56"
    proof (cases "k + (1 + i) < 64")
      case True
      then show ?thesis unfolding step using i [folded k_def, unfolded z] by (auto split: if_splits)
    next
      case False
      then obtain x where x: "k + (1 + i) = x + 64" by (metis add.commute le_Suc_ex not_less)
      then have "x < 56" using i [folded k_def, unfolded z] k by (auto split: if_splits)
      then show ?thesis unfolding step x mod_add_self2 by simp
    qed
  qed
qed

lemma final_ok:
  assumes "ctx_ok m ctx"
  shows "SHA1_final en ctx = Some (sha1 m)"
proof -
  let ?k = "(119 - length m mod 64) mod 64"
  have p: "ctx_ok (m @ [0x80]) (SHA1_update en ctx [0x80])" using update_ok [OF assms, of "[0x80]"] by simp
  have k: "?k \<le> 64" by (simp add: less_imp_le)
  have z: "(length (m @ [0x80]) + ?k) mod 64 = 56" "\<forall>i<?k. (length (m @ [0x80]) + i) mod 64 \<noteq> 56"
    using zeros [of "length m"] by (simp_all only: length_append list.size One_nat_def plus_nat.add_0)
  obtain ctx' where c: "pad_loop 64 en (SHA1_update en ctx [0x80]) = Some ctx'" "ctx_ok ((m @ [0x80]) @ replicate ?k 0) ctx'"
    using pad_loop_ok [OF p k z] by blast
  have "sx_count ctx = bit_count (length m)" using assms by (simp add: ctx_ok_def)
  then have f: "finalcount (sx_count ctx) = be 8 (word_of_nat (8 * length m) :: u64)" by (simp only: finalcount_be)
  have "ctx_ok (sha1_pad m) (SHA1_update en ctx' (finalcount (sx_count ctx)))"
    using update_ok [OF c(2), of "finalcount (sx_count ctx)" en] unfolding f sha1_pad_def
    by (simp del: be.simps)
  then have "sx_state (SHA1_update en ctx' (finalcount (sx_count ctx))) = list5 (sha1_blocks sha1_iv (sha1_pad m))"
    by (simp add: ctx_ok_def)
  then show ?thesis
    unfolding SHA1_final_def Let_def c(1)
    by (cases "sha1_blocks sha1_iv (sha1_pad m)" rule: prod_cases5) (simp add: sha1_def digest_be del: be.simps)
qed

subsection \<open>The interface of a streaming hash\<close>

text \<open>What a client of \<open>hasher\<close> relies on: the digest is a function of the bytes fed in, whatever pieces
  they come in, and an object can be used again after it is reset.\<close>

locale stream_hash =
  fixes start :: "'c \<Rightarrow> 'c" and feed :: "byte list \<Rightarrow> 'c \<Rightarrow> 'c" and final :: "'c \<Rightarrow> byte list option"
    and usable :: "'c \<Rightarrow> bool" and limit :: nat and hash :: "byte list \<Rightarrow> byte list"
  assumes digest_of: "usable c \<Longrightarrow> \<forall>d\<in>set ds. length d < limit \<Longrightarrow> final (fold feed ds (start c)) = Some (hash (concat ds))"
    and still_usable: "usable c \<Longrightarrow> \<forall>d\<in>set ds. length d < limit \<Longrightarrow> usable (fold feed ds (start c))"
begin

lemma same_bytes_same_digest:
  assumes "usable c" "\<forall>d\<in>set ds. length d < limit" "\<forall>d\<in>set es. length d < limit" "concat ds = concat es"
  shows "final (fold feed ds (start c)) = final (fold feed es (start c))"
  using assms by (simp add: digest_of)

lemma reset_forgets:
  assumes "usable c" "\<forall>d\<in>set ds. length d < limit" "\<forall>d\<in>set es. length d < limit"
  shows "final (fold feed es (start (fold feed ds (start c)))) = Some (hash (concat es))"
  using assms by (simp add: digest_of still_usable)

end

lemma hasher_stream:
  assumes "length (sx_buffer ctx) = 64" "\<forall>d\<in>set ds. length d < 2 ^ 29"
  shows "ctx_ok (concat ds) (fold (hasher_update en) ds (hasher_ctor ctx))"
proof -
  have "hasher_update en = (\<lambda>d ctx. SHA1_update en ctx d)" by (simp add: hasher_update_def fun_eq_iff)
  then show ?thesis using updates_ok [OF init_ok [OF assms(1)] assms(2), of en] by (simp add: hasher_ctor_def)
qed

interpretation lt: stream_hash hasher_ctor "hasher_update en" "hasher_final en" "\<lambda>ctx. length (sx_buffer ctx) = 64" "2 ^ 29" sha1
  for en
proof
  fix c :: sha1_ctx and ds :: "byte list list"
  assume "length (sx_buffer c) = 64" "\<forall>d\<in>set ds. length d < 2 ^ 29"
  then have ok: "ctx_ok (concat ds) (fold (hasher_update en) ds (hasher_ctor c))" by (rule hasher_stream)
  then show "hasher_final en (fold (hasher_update en) ds (hasher_ctor c)) = Some (sha1 (concat ds))"
    by (simp add: hasher_final_def final_ok)
  show "length (sx_buffer (fold (hasher_update en) ds (hasher_ctor c))) = 64" using ok by (simp add: ctx_ok_def)
qed

text \<open>C12: the hasher. Fed with any bytes in any chunks of less than half a gigabyte, on a machine of
  either byte order, it returns the SHA-1 of FIPS 180 of the concatenated chunks; the padding loop
  always ends; and after \<open>reset\<close> the object works as a new one.\<close>

theorem hasher_is_sha1:
  assumes "length (sx_buffer ctx) = 64" "\<forall>d\<in>set ds. length d < 2 ^ 29" "\<forall>d\<in>set es. length d < 2 ^ 29"
  shows "hasher_final en (fold (hasher_update en) ds (hasher_ctor ctx)) = Some (sha1 (concat ds))
    \<and> hasher_final en (fold (hasher_update en) es (hasher_reset (fold (hasher_update en) ds (hasher_ctor ctx))))
        = Some (sha1 (concat es))"
  using lt.digest_of [OF assms(1,2)] lt.reset_forgets [OF assms] by (simp add: hasher_reset_def hasher_ctor_def)

definition blank_ctx :: sha1_ctx where
  "blank_ctx = \<lparr>sx_state = [], sx_count = (0, 0), sx_buffer = replicate 64 0\<rparr>"

theorem hasher_is_sha1_witness:
  "hasher_final Little_endian (fold (hasher_update Little_endian) [[0x61, 0x62], [0x63]] (hasher_ctor blank_ctx))
     = Some (sha1 [0x61, 0x62, 0x63])"
  using hasher_is_sha1 [of blank_ctx "[[0x61, 0x62], [0x63]]" "[]" Little_endian]
  by (simp add: blank_ctx_def)

text \<open>C31: the 64-bit count. After one update with k bytes (fewer than 2 ^ 61) of a hasher whose count
  stands for n bytes, the count stands for n + k, except that it is one too large in its high word
  exactly if k is half a gigabyte or more and the low 29 bits of n and k add up without a carry: the
  low word of 32 bits is compared with a length of 64 bits, and the comparison always finds a
  carry then.\<close>

theorem update_counts:
  assumes "sx_count ctx = bit_count n" "length data < 2 ^ 61"
  shows "sx_count (SHA1_update en ctx data)
      = (fst (bit_count (n + length data)), snd (bit_count (n + length data))
           + (if 2 ^ 29 \<le> length data \<and> n mod 2 ^ 29 + length data mod 2 ^ 29 < 2 ^ 29 then 1 else 0))"
proof -
  have "sx_count (SHA1_update en ctx data) = add_count (sx_count ctx) (length data)"
    by (simp add: SHA1_update_def internal_update_def Let_def split: prod.split)
  then show ?thesis using add_count [of "length data" n] add_count_large [of "length data" n] assms
    by (cases "length data < 2 ^ 29") (simp_all del: of_nat_add)
qed

theorem update_counts_witness:
  "sx_count (SHA1_update Little_endian (SHA1_init blank_ctx) (replicate (2 ^ 29) 0)) = (0, 2)
     \<and> bit_count (2 ^ 29) = (0, 1)
     \<and> sx_count (SHA1_update Little_endian ((SHA1_init blank_ctx)\<lparr>sx_count := bit_count (2 ^ 28)\<rparr>) (replicate (2 ^ 29 + 2 ^ 28) 0))
        = bit_count (2 ^ 30)"
proof -
  have "sx_count (SHA1_init blank_ctx) = bit_count 0" by (simp add: SHA1_init_def bit_count_def)
  from update_counts [OF this, of "replicate (2 ^ 29) 0" Little_endian]
    update_counts [of "(SHA1_init blank_ctx)\<lparr>sx_count := bit_count (2 ^ 28)\<rparr>" "2 ^ 28" "replicate (2 ^ 29 + 2 ^ 28) 0" Little_endian]
  show ?thesis by (simp add: bit_count_def)
qed

end
