(* ===== verification/Piece_Hash.thy ===== *)
theory Piece_Hash
  imports Download Sha1
begin

section \<open>The hash check of a piece\<close>

text \<open>
  \<open>write_if_valid\<close> of \<open>src/piece_handler.cpp\<close> with the hasher object it really keeps: the bytes of every
  block are fed to libtorrent's \<open>hasher\<close> one block after the other. The piece handler of
  \<open>Piece_Handler\<close> compares a function of all the bytes with the hash of the torrent; here it is shown
  that this is the same if the function is SHA-1.
\<close>

fun hash_blocks_lt ::
  "endian \<Rightarrow> 'b byte_buffer_api \<Rightarrow> u32 \<Rightarrow> nat list \<Rightarrow> sha1_ctx \<Rightarrow> (piece_received_key \<rightharpoonup> 'b received_block)
     \<Rightarrow> sha1_ctx option \<times> (piece_received_key \<rightharpoonup> 'b received_block)" where
  "hash_blocks_lt en B index [] hasher m = (Some hasher, m)"
| "hash_blocks_lt en B index (k # ks) hasher m =
     (let key = (index, block_begin k);
          m = touch B m key;
          block = block_at B m key
      in if \<not> rb_received block then (None, m)
         else hash_blocks_lt en B index ks
                (hasher_update en (at_ptr (bb_get_read B (rb_block block)) 0
                   (bb_get_read_available B (rb_block block))) hasher) m)"

text \<open>\<open>None\<close> is a hasher whose \<open>final\<close> does not return.\<close>

definition write_if_valid_lt ::
  "endian \<Rightarrow> sha1_ctx \<Rightarrow> 'b externals \<Rightarrow> torrent_info \<Rightarrow> u32 \<Rightarrow> 'b piece_handler \<Rightarrow> (bool \<times> 'b piece_handler) option" where
  "write_if_valid_lt en ctx E ti index ph =
     (let piece_sz = piece_size (ti_files ti) (sint index);
          ks = [0..<nat (blocks_per_piece piece_sz)];
          (hasher, m) = hash_blocks_lt en (ex_bb E) index ks (hasher_ctor ctx) (ph_received ph);
          ph = ph\<lparr>ph_received := m\<rparr>
      in case hasher of
           None \<Rightarrow> Some (False, ph)
         | Some hasher \<Rightarrow>
             map_option
               (\<lambda>h. if h = ti_hash_for_piece ti (sint index)
                    then (let ph = fold (write_block E ti index) ks ph
                          in (True, ph\<lparr>ph_written := ph_written ph + 1\<rparr>))
                    else (False, ph))
               (hasher_final en hasher))"

text \<open>The blocks that the loop reads are those that were received or empty ones.\<close>

definition short_blocks :: "'b externals \<Rightarrow> u32 \<Rightarrow> nat list \<Rightarrow> 'b piece_handler \<Rightarrow> bool" where
  "short_blocks E index ks ph \<longleftrightarrow>
     (\<forall>k\<in>set ks. length (block_bytes E ph (index, block_begin k)) < 2 ^ 29)"

lemma hash_blocks_lt_eq:
  "hash_blocks_lt en B i ks h m =
     (let (hashed, m') = hash_blocks B i ks acc m
      in (map_option (\<lambda>_. fold (hasher_update en)
            (map (\<lambda>k. rd B (rb_block (block_at B m (i, block_begin k)))) ks) h) hashed, m'))"
proof (induction ks arbitrary: h acc m)
  case (Cons k ks)
  show ?case
  proof (cases "rcvd m (i, block_begin k)")
    case True
    then show ?thesis
      using Cons.IH [of "hasher_update en (rd B (rb_block (block_at B m (i, block_begin k)))) h"
          "touch B m (i, block_begin k)" "acc @ rd B (rb_block (block_at B m (i, block_begin k)))"]
      by (simp add: Let_def)
  qed (simp add: Let_def)
qed simp

text \<open>C13: the hash check. If the hash function of the piece handler is SHA-1, the check that keeps a
  hasher object and feeds it block by block returns and does what the check on the concatenated
  blocks does. (No block is as long as half a gigabyte; a block asked for has 16384 bytes.)\<close>

theorem write_if_valid_streams:
  assumes "ex_sha1 E = sha1" "length (sx_buffer ctx) = 64" "short_blocks E i [0..<nblocks ti i] ph"
  shows "write_if_valid_lt en ctx E ti i ph = Some (write_if_valid E ti i ph)"
proof -
  let ?ks = "[0..<nblocks ti i]"
  let ?bs = "map (\<lambda>k. block_bytes E ph (i, block_begin k)) ?ks"
  obtain res m' where h: "hash_blocks (ex_bb E) i ?ks [] (ph_received ph) = (res, m')" by fastforce
  have l: "hash_blocks_lt en (ex_bb E) i ?ks (hasher_ctor ctx) (ph_received ph)
      = (map_option (\<lambda>_. fold (hasher_update en) ?bs (hasher_ctor ctx)) res, m')"
    by (simp add: hash_blocks_lt_eq [of en "ex_bb E" i ?ks _ _ "[]"] h)
  have "\<forall>d\<in>set ?bs. length d < 2 ^ 29" using assms(3) by (simp add: short_blocks_def)
  then have f: "hasher_final en (fold (hasher_update en) ?bs (hasher_ctor ctx)) = Some (sha1 (concat ?bs))"
    using assms(2) by (rule lt.digest_of [rotated])
  have "res = None \<or> res = Some (concat ?bs)" using hash_blocks_spec(2) [OF h] by simp
  then show ?thesis using h l f assms(1)
    by (auto simp: write_if_valid_lt_def write_if_valid_def Let_def)
qed

definition one_block :: "lbuf piece_handler" where
  "one_block = (fst (piece_handler_ctor small_E small_ti))\<lparr>ph_received :=
     [(0, 0) \<mapsto> \<lparr>rb_received = True, rb_block = ([1, 2, 3], [], 0)\<rparr>]\<rparr>"

theorem write_if_valid_streams_witness:
  "write_if_valid_lt Little_endian blank_ctx (small_E\<lparr>ex_sha1 := sha1\<rparr>) small_ti 0 one_block
     = Some (write_if_valid (small_E\<lparr>ex_sha1 := sha1\<rparr>) small_ti 0 one_block)"
proof (rule write_if_valid_streams)
  have "nblocks small_ti 0 = 1" by simp
  then show "short_blocks (small_E\<lparr>ex_sha1 := sha1\<rparr>) 0 [0..<nblocks small_ti 0] one_block"
    by (simp add: short_blocks_def one_block_def block_at_def lookup_or_def block_begin_def rd_def at_ptr_def list_buffer_def)
qed (simp_all add: blank_ctx_def)

end
