(* ===== verification/Bencode.thy ===== *)
theory Bencode
  imports Net Bdecode_Tokens
begin

section \<open>Encoding and decoding\<close>

text \<open>
  The encoder of libtorrent, \<open>extern/libtorrent/include/libtorrent/bencode.hpp\<close> and \<open>integer_to_str\<close> of
  \<open>src/entry.cpp\<close>, which trackers and the makers of torrent files use, and what the decoder of
  \<open>Bdecode\<close> makes of its output: the accessors of the decoded node give back the value that was
  encoded. The number of characters that the functions also return is the length of the string.
\<close>

subsection \<open>The encoder\<close>

text \<open>
  The variants of \<open>entry\<close>; a dictionary is a \<open>std::map\<close>, here the list of its items in the order of
  iteration.
\<close>

datatype entry =
    Int_t int
  | String_t string
  | List_t "entry list"
  | Dictionary_t "(string \<times> entry) list"
  | Undefined_t
  | Preformatted_t string

text \<open>
  \<open>integer_to_str\<close> writes digits from the back of a buffer of 21 characters, of which the last is
  the terminating zero: the loop goes on while the position is above the first character, or above the
  second if there is a sign. (Negating the smallest 64-bit integer overflows, which is undefined; the
  theorems are about larger ones.)
\<close>

fun write_digits :: "nat \<Rightarrow> nat \<Rightarrow> string \<Rightarrow> string" where
  "write_digits 0 val str = str"
| "write_digits (Suc room) val str =
     (if val = 0 then str else write_digits room (val div 10) (digit (val mod 10) # str))"

definition integer_to_str :: "int \<Rightarrow> string" where
  "integer_to_str val =
     (let sign = (if val < 0 then 1 else 0 :: nat);
          str = write_digits (19 - sign) (nat \<bar>val\<bar>) (if val = 0 then ''0'' else [])
      in if sign = 1 then CHR ''-'' # str else str)"

fun bencode :: "entry \<Rightarrow> string"
  and bencode_list :: "entry list \<Rightarrow> string"
  and bencode_dict :: "(string \<times> entry) list \<Rightarrow> string" where
  "bencode (Int_t i) = CHR ''i'' # integer_to_str i @ ''e''"
| "bencode (String_t s) = integer_to_str (int (length s)) @ CHR '':'' # s"
| "bencode (List_t es) = CHR ''l'' # bencode_list es @ ''e''"
| "bencode (Dictionary_t kvs) = CHR ''d'' # bencode_dict kvs @ ''e''"
| "bencode (Preformatted_t s) = s"
| "bencode Undefined_t = ''0:''"
| "bencode_list [] = []"
| "bencode_list (e # es) = bencode e @ bencode_list es"
| "bencode_dict [] = []"
| "bencode_dict ((k, v) # kvs) = (integer_to_str (int (length k)) @ CHR '':'' # k) @ bencode v @ bencode_dict kvs"

subsection \<open>Numbers\<close>

text \<open>The value of a string of digits.\<close>

definition digits_val :: "nat \<Rightarrow> string \<Rightarrow> nat" where
  "digits_val v ds = foldl (\<lambda>v c. v * 10 + (of_char c - 48)) v ds"

lemma digits_val_simps [simp]:
  "digits_val v [] = v"
  "digits_val v (c # cs) = digits_val (v * 10 + (of_char c - 48)) cs"
  "digits_val v (cs @ [c]) = digits_val v cs * 10 + (of_char c - 48)"
  by (simp_all add: digits_val_def)

lemma digits_val_mono: "v \<le> digits_val v ds"
proof (induction ds arbitrary: v)
  case (Cons c cs)
  have "v \<le> v * 10 + (of_char c - 48)" by simp
  also have "\<dots> \<le> digits_val (v * 10 + (of_char c - 48)) cs" by (rule Cons.IH)
  finally show ?case by simp
qed simp

lemma digit_numeric: "d < 10 \<Longrightarrow> numeric (digit d)" "d < 10 \<Longrightarrow> digit d \<noteq> CHR ''e''" "d < 10 \<Longrightarrow> digit d \<noteq> CHR '':''"
  "d < 10 \<Longrightarrow> digit d \<noteq> CHR ''-''"
  by (auto simp: numeric_def dest!: arg_cong [of _ _ "of_char :: char \<Rightarrow> nat"])

lemma dec_numeric: "c \<in> set (dec n) \<Longrightarrow> numeric c"
  using dec_digits_only digit_numeric(1) by blast

lemma dec_val: "digits_val 0 (dec n) = n"
proof (induction n rule: dec.induct)
  case (1 n)
  then show ?case by (subst dec.simps) simp
qed

lemma length_dec:
  assumes "n < 10 ^ k" "0 < k"
  shows "length (dec n) \<le> k"
  using assms
proof (induction k arbitrary: n)
  case (Suc k)
  show ?case
  proof (cases "n < 10")
    case False
    then have "n div 10 < 10 ^ k" "0 < k" using Suc.prems by (cases k; simp add: less_mult_imp_div_less)+
    then show ?thesis using Suc.IH [of "n div 10"] False by (simp add: dec.simps [of n])
  qed (simp add: dec.simps [of n])
qed simp

lemma length_dec_ge:
  assumes "10 ^ k \<le> n"
  shows "k < length (dec n)"
  using assms
proof (induction k arbitrary: n)
  case 0
  then show ?case using dec_not_Nil by simp
next
  case (Suc k)
  then have "10 ^ k \<le> n div 10" by (simp add: less_eq_div_iff_mult_less_eq mult.commute)
  moreover have "\<not> n < 10" using Suc.prems one_le_power [of "10 :: nat" k] unfolding power_Suc by linarith
  ultimately have "10 ^ k \<le> n div 10" "\<not> n < 10" by simp_all
  then show ?case using Suc.IH [of "n div 10"] by (simp add: dec.simps [of n])
qed

lemma write_digits_dec:
  "0 < n \<Longrightarrow> write_digits room n str = drop (length (dec n) - room) (dec n) @ str"
proof (induction room arbitrary: n str)
  case (Suc room)
  show ?case
  proof (cases "n < 10")
    case True
    then show ?thesis using Suc.prems by (cases room) (simp_all add: dec.simps [of n])
  next
    case False
    then have "0 < n div 10" by simp
    then show ?thesis using Suc.IH [of "n div 10"] False Suc.prems by (simp add: dec.simps [of n])
  qed
qed simp

lemma write_digits_zero [simp]: "write_digits room 0 str = str"
  by (cases room) simp_all

lemma integer_to_str_dec:
  assumes "- (10 ^ 18) < i" "i < 10 ^ 19"
  shows "integer_to_str i = (if i < 0 then CHR ''-'' # dec (nat (- i)) else dec (nat i))"
proof (cases "i = 0")
  case True
  have "digit 0 = CHR ''0''" by code_simp
  then show ?thesis using True by (simp add: integer_to_str_def dec.simps [of 0])
next
  case False
  have "nat \<bar>i\<bar> < 10 ^ (if i < 0 then 18 else 19)" using assms by (simp add: nat_less_iff)
  then have "length (dec (nat \<bar>i\<bar>)) \<le> (if i < 0 then 18 else 19)" by (rule length_dec) simp
  then show ?thesis using False by (auto simp: integer_to_str_def write_digits_dec Let_def split: if_splits)
qed

lemma parse_int_digits:
  assumes "\<forall>c\<in>set ds. numeric c" "\<not> numeric delim" "int (digits_val v ds) \<le> INT64_MAX"
  shows "parse_int (ds @ delim # rest) delim (int v) = (None, length ds, int (digits_val v ds))"
  using assms
proof (induction ds arbitrary: v)
  case (Cons c cs)
  let ?w = "v * 10 + (of_char c - 48)"
  have n: "48 \<le> (of_char c :: nat)" "numeric c" "c \<noteq> delim" using Cons.prems(1,2) by (auto simp: numeric_def)
  define d where "d = (of_char c :: int) - 48"
  have w: "int ?w = int v * 10 + d" using n(1) by (simp add: d_def of_nat_diff of_nat_of_char)
  have "int ?w \<le> INT64_MAX" using Cons.prems(3) digits_val_mono [of ?w cs] by simp
  then have "int v \<le> INT64_MAX div 10" "\<not> int v * 10 > INT64_MAX - d"
    using w n(1) by (simp_all add: INT64_MAX_def)
  moreover have "parse_int (cs @ delim # rest) delim (int v * 10 + d) = (None, length cs, int (digits_val ?w cs))"
    using Cons.IH [of ?w] Cons.prems unfolding w by simp
  ultimately show ?case using n by (simp add: Let_def flip: d_def)
qed simp

lemma check_digits_enc:
  assumes "\<forall>c\<in>set ds. numeric c" "ds \<noteq> []"
  shows "check_digits (ds @ CHR ''e'' # rest) k = (None, k + length ds)"
  using assms
proof (induction ds arbitrary: k)
  case (Cons c cs)
  have "hd (cs @ CHR ''e'' # rest) = CHR ''e'' \<longleftrightarrow> cs = []"
    using Cons.prems(1) by (cases cs) (auto simp: numeric_def)
  then show ?case using Cons by (cases "cs = []") auto
qed simp

definition int_ok :: "int \<Rightarrow> bool" where
  "int_ok i \<longleftrightarrow> - (10 ^ 18) < i \<and> i < 2 ^ 63"

lemma int_ok_str:
  assumes "int_ok i"
  obtains ds where "integer_to_str i = (if i < 0 then CHR ''-'' # ds else ds)" "\<forall>c\<in>set ds. numeric c" "ds \<noteq> []"
    "length ds \<le> 19" "int (digits_val 0 ds) = \<bar>i\<bar>"
proof
  have "i < 10 ^ 19" using assms by (simp add: int_ok_def)
  then show "integer_to_str i = (if i < 0 then CHR ''-'' # dec (nat \<bar>i\<bar>) else dec (nat \<bar>i\<bar>))"
    using integer_to_str_dec [of i] assms by (simp add: int_ok_def)
  show "\<forall>c\<in>set (dec (nat \<bar>i\<bar>)). numeric c" using dec_numeric by blast
  show "dec (nat \<bar>i\<bar>) \<noteq> []" by (rule dec_not_Nil)
  have "nat \<bar>i\<bar> < 10 ^ 19" using assms by (simp add: int_ok_def nat_less_iff abs_less_iff)
  then show "length (dec (nat \<bar>i\<bar>)) \<le> 19" by (rule length_dec) simp
  show "int (digits_val 0 (dec (nat \<bar>i\<bar>))) = \<bar>i\<bar>" by (simp add: dec_val)
qed

lemma check_integer_enc:
  assumes "int_ok i"
  shows "check_integer (integer_to_str i @ CHR ''e'' # rest) = (None, length (integer_to_str i))"
proof -
  obtain ds where ds: "integer_to_str i = (if i < 0 then CHR ''-'' # ds else ds)" "\<forall>c\<in>set ds. numeric c" "ds \<noteq> []"
    "length ds \<le> 19" using int_ok_str [OF assms] by metis
  then obtain c cs where c: "ds = c # cs" "numeric c" by (cases ds) auto
  then have "c \<noteq> CHR ''-''" by (auto simp: numeric_def)
  then show ?thesis using check_digits_enc [OF ds(2,3), of rest 0] ds c
    by (auto simp: check_integer_def Let_def split: if_splits)
qed

text \<open>A string is found by its header.\<close>

definition str_ok :: "string \<Rightarrow> bool" where
  "str_ok s \<longleftrightarrow> length s < 10 ^ 8"

lemma str_header:
  assumes "str_ok s"
  obtains c ds where "integer_to_str (int (length s)) = c # ds" "numeric c" "\<forall>c\<in>set ds. numeric c"
    "length ds \<le> 7" "digits_val 0 (c # ds) = length s"
proof -
  let ?ds = "dec (length s)"
  obtain c ds where d: "?ds = c # ds" using dec_not_Nil by (metis list.exhaust)
  have "length ?ds \<le> 8" using assms by (intro length_dec) (simp_all add: str_ok_def)
  moreover have "integer_to_str (int (length s)) = ?ds"
    using assms integer_to_str_dec [of "int (length s)"] by (simp add: str_ok_def)
  ultimately show thesis using that [of c ds] d dec_numeric [of _ "length s"] dec_val [of "length s"] by simp
qed

lemma bd_string_enc:
  assumes "buffer = pre @ bencode (String_t s) @ post" "str_ok s"
  shows "bd_string buffer (length pre) = Inr (token4 (length pre) 1 T_string (length (integer_to_str (int (length s))) + 1),
    length pre + length (bencode (String_t s)))"
proof -
  obtain c ds where h: "integer_to_str (int (length s)) = c # ds" "numeric c" "\<forall>c\<in>set ds. numeric c"
    "length ds \<le> 7" "digits_val 0 (c # ds) = length s" using str_header [OF assms(2)] by metis
  let ?v = "of_char c - 48 :: nat"
  have n: "48 \<le> (of_char c :: nat)" using h(2) by (simp add: numeric_def)
  have v: "int ?v = of_char c - 48" using n by (simp add: of_nat_diff of_nat_of_char)
  have "int (length s) \<le> INT64_MAX" using assms(2) by (simp add: str_ok_def INT64_MAX_def)
  then have p: "parse_int (ds @ CHR '':'' # s @ post) CHR '':'' (int ?v) = (None, length ds, int (length s))"
    using parse_int_digits [of ds "CHR '':''" ?v "s @ post"] h(3,5) by (simp add: numeric_def)
  have b: "buffer = pre @ c # ds @ CHR '':'' # s @ post" using assms(1) h(1) by simp
  have e: "buffer ! length pre = c" "drop (Suc (length pre)) buffer = ds @ CHR '':'' # s @ post"
    "length buffer = length pre + length ds + length s + length post + 2" by (simp_all add: b)
  show ?thesis
    unfolding bd_string_def Let_def e p [unfolded v] using h(1,4)
    by (simp add: max_header_def e(3) p [unfolded v])
qed

subsection \<open>What the decoder makes of an encoded value\<close>

text \<open>The values the decoder accepts: preformatted ones can be anything.\<close>

fun entry_ok :: "entry \<Rightarrow> bool" where
  "entry_ok (Int_t i) \<longleftrightarrow> int_ok i"
| "entry_ok (String_t s) \<longleftrightarrow> str_ok s"
| "entry_ok (List_t es) \<longleftrightarrow> list_all entry_ok es"
| "entry_ok (Dictionary_t kvs) \<longleftrightarrow> distinct (map fst kvs) \<and> list_all (\<lambda>(k, v). str_ok k \<and> entry_ok v) kvs"
| "entry_ok Undefined_t \<longleftrightarrow> True"
| "entry_ok (Preformatted_t s) \<longleftrightarrow> False"

text \<open>How deep the stack grows.\<close>

fun depth :: "entry \<Rightarrow> nat"
  and depth_list :: "entry list \<Rightarrow> nat"
  and depth_dict :: "(string \<times> entry) list \<Rightarrow> nat" where
  "depth (List_t es) = Suc (depth_list es)"
| "depth (Dictionary_t kvs) = Suc (depth_dict kvs)"
| "depth (Int_t i) = 0"
| "depth (String_t s) = 0"
| "depth Undefined_t = 0"
| "depth (Preformatted_t s) = 0"
| "depth_list [] = 0"
| "depth_list (e # es) = max (depth e) (depth_list es)"
| "depth_dict [] = 0"
| "depth_dict ((k, v) # kvs) = max (depth v) (depth_dict kvs)"

text \<open>The tokens of a value that starts at an offset.\<close>

definition str_token :: "nat \<Rightarrow> string \<Rightarrow> bdecode_token" where
  "str_token off s = token4 off 1 T_string (length (integer_to_str (int (length s))) + 1)"

definition box :: "nat \<Rightarrow> token_type \<Rightarrow> bdecode_token list \<Rightarrow> nat \<Rightarrow> bdecode_token list" where
  "box off ty ts off' = (token2 off ty)\<lparr>tk_next := length ts + 2\<rparr> # ts @ [token4 off' 1 T_end 0]"

fun toks_of :: "nat \<Rightarrow> entry \<Rightarrow> bdecode_token list"
  and toks_list :: "nat \<Rightarrow> entry list \<Rightarrow> bdecode_token list"
  and toks_dict :: "nat \<Rightarrow> (string \<times> entry) list \<Rightarrow> bdecode_token list" where
  "toks_of off (Int_t i) = [token4 off 1 T_integer 1]"
| "toks_of off (String_t s) = [str_token off s]"
| "toks_of off (List_t es) = box off T_list (toks_list (Suc off) es) (Suc off + length (bencode_list es))"
| "toks_of off (Dictionary_t kvs) = box off T_dict (toks_dict (Suc off) kvs) (Suc off + length (bencode_dict kvs))"
| "toks_of off Undefined_t = [str_token off []]"
| "toks_of off (Preformatted_t s) = []"
| "toks_list off [] = []"
| "toks_list off (e # es) = toks_of off e @ toks_list (off + length (bencode e)) es"
| "toks_dict off [] = []"
| "toks_dict off ((k, v) # kvs) =
     (let off1 = off + length (bencode (String_t k)) in
      str_token off k # toks_of off1 v @ toks_dict (off1 + length (bencode v)) kvs)"

lemma toks_le_length:
  "length (toks_of off e) \<le> length (bencode e)"
  "length (toks_list off es) \<le> length (bencode_list es)"
  "length (toks_dict off kvs) \<le> length (bencode_dict kvs)"
  by (induction e and es and kvs arbitrary: off and off and off rule: bencode_bencode_list_bencode_dict.induct)
    (simp_all add: box_def Let_def add_mono trans_le_add2)

text \<open>Going on after a value: the decoder stops when the stack is empty.\<close>

definition bd_go where
  "bd_go buffer d t stack toks start =
     (if stack = [] then (None, stack, toks, start) else bd_loop buffer d t stack toks start)"

definition flip_top :: "bdecode_token list \<Rightarrow> stack_frame list \<Rightarrow> stack_frame list" where
  "flip_top toks stack = flip_frame (length stack) toks stack"

definition stack_ok :: "bdecode_token list \<Rightarrow> stack_frame list \<Rightarrow> bool" where
  "stack_ok toks stack \<longleftrightarrow> (\<forall>(tp, b)\<in>set stack. tp < length toks)"

lemma flip_top_simps [simp]:
  "flip_top toks [] = []"
  "flip_top toks ((tp, b) # stack) = (if tk_type (toks ! tp) = T_dict then (tp, \<not> b) # stack else (tp, b) # stack)"
  "length (flip_top toks stack) = length stack"
  by (auto simp: flip_top_def flip_frame_def Let_def split: prod.splits)

lemma flip_top_append: "stack_ok toks stack \<Longrightarrow> flip_top (toks @ ts) stack = flip_top toks stack"
  by (cases stack) (auto simp: stack_ok_def nth_append)

lemma flip_frame_push:
  "stack_ok toks stack \<Longrightarrow> flip_frame (length stack) (toks @ ts) (f # stack) = f # flip_top toks stack"
  by (cases stack) (auto simp: flip_frame_def stack_ok_def nth_append)

lemma flip_frame_pop: "flip_frame (Suc (length stack)) toks stack = stack"
  by (simp add: flip_frame_def)

lemma stack_ok_append [simp]: "stack_ok toks stack \<Longrightarrow> stack_ok (toks @ ts) stack"
  by (fastforce simp: stack_ok_def)

lemma stack_ok_flip [simp]: "stack_ok toks (flip_top toks' stack) = stack_ok toks stack"
proof (cases stack)
  case (Cons f st)
  then show ?thesis by (cases f) (simp add: stack_ok_def)
qed simp

lemma stack_ok_Cons [simp]: "stack_ok toks ((tp, b) # stack) \<longleftrightarrow> tp < length toks \<and> stack_ok toks stack"
  by (simp add: stack_ok_def)

text \<open>One round of the loop.\<close>

lemma bd_round:
  assumes "start < length buffer" "length stack < d" "1 \<le> t" "bd_step buffer stack toks start = Inr (stack', toks', start')"
  shows "bd_loop buffer d t stack toks start
    = bd_go buffer d (t - 1) (flip_frame (length stack) toks' stack') toks' start'"
  using assms by (subst bd_loop.simps) (simp add: bd_go_def Let_def)

lemma string_round:
  assumes "buffer = pre @ bencode (String_t s) @ post" "str_ok s" "length stack < d" "1 \<le> t" "stack_ok toks stack"
  shows "bd_loop buffer d t stack toks (length pre)
    = bd_go buffer d (t - 1) (flip_top toks stack) (toks @ [str_token (length pre) s]) (length pre + length (bencode (String_t s)))"
proof -
  obtain c ds where h: "integer_to_str (int (length s)) = c # ds" "numeric c" using str_header [OF assms(2)] by metis
  have b: "buffer ! length pre = c" "length pre < length buffer" using assms(1) h(1) by simp_all
  have "c \<noteq> CHR ''d''" "c \<noteq> CHR ''l''" "c \<noteq> CHR ''i''" "c \<noteq> CHR ''e''" using h(2) by (auto simp: numeric_def)
  then have "bd_step buffer stack toks (length pre)
      = Inr (stack, toks @ [str_token (length pre) s], length pre + length (bencode (String_t s)))"
    using h(2) bd_string_enc [OF assms(1,2)] by (simp add: bd_step_def b(1) str_token_def del: bencode.simps)
  from bd_round [OF b(2) assms(3,4) this] show ?thesis
    using flip_top_append [OF assms(5)] by (simp add: flip_top_def)
qed

lemma int_round:
  assumes "buffer = pre @ bencode (Int_t i) @ post" "int_ok i" "length stack < d" "1 \<le> t" "stack_ok toks stack"
    and "parent_is_dict toks stack \<longrightarrow> snd (hd stack)"
  shows "bd_loop buffer d t stack toks (length pre)
    = bd_go buffer d (t - 1) (flip_top toks stack) (toks @ toks_of (length pre) (Int_t i)) (length pre + length (bencode (Int_t i)))"
proof -
  have b: "buffer ! length pre = CHR ''i''" "length pre < length buffer"
    "drop (Suc (length pre)) buffer = integer_to_str i @ CHR ''e'' # post" using assms(1) by simp_all
  have "bd_step buffer stack toks (length pre)
      = Inr (stack, toks @ toks_of (length pre) (Int_t i), length pre + length (bencode (Int_t i)))"
    unfolding bd_step_def Let_def b(1,3) using assms(6) by (simp add: check_integer_enc [OF assms(2)])
  from bd_round [OF b(2) assms(3,4) this] show ?thesis
    using flip_top_append [OF assms(5)] by (simp add: flip_top_def)
qed

lemma open_round:
  assumes "length pre < length buffer" "buffer ! length pre = (if ty = T_dict then CHR ''d'' else CHR ''l'')"
    and "ty = T_dict \<or> ty = T_list" "length stack < d" "1 \<le> t" "stack_ok toks stack"
    and "parent_is_dict toks stack \<longrightarrow> snd (hd stack)"
  shows "bd_loop buffer d t stack toks (length pre)
    = bd_loop buffer d (t - 1) ((length toks, False) # flip_top toks stack) (toks @ [token2 (length pre) ty]) (Suc (length pre))"
proof -
  have "bd_step buffer stack toks (length pre) = Inr ((length toks, False) # stack, toks @ [token2 (length pre) ty], Suc (length pre))"
    unfolding bd_step_def Let_def using assms(2,3,7) by auto
  from bd_round [OF assms(1,4,5) this] show ?thesis by (simp add: flip_frame_push [OF assms(6)] bd_go_def)
qed

lemma close_round:
  assumes "start < length buffer" "buffer ! start = CHR ''e''" "Suc (length stack) < d" "1 \<le> t"
    and "int (length ts + 2) \<le> max_next_item"
  shows "bd_loop buffer d t ((length toks, False) # stack) (toks @ token2 off ty # ts) start
    = bd_go buffer d (t - 1) stack (toks @ box off ty ts start) (Suc start)"
proof -
  let ?ts = "(toks @ token2 off ty # ts) @ [token4 start 1 T_end 0]"
  have u: "?ts[length toks := (?ts ! length toks)\<lparr>tk_next := length ?ts - length toks\<rparr>] = toks @ box off ty ts start"
    by (simp add: box_def)
  have "bd_step buffer ((length toks, False) # stack) (toks @ token2 off ty # ts) start
      = Inr (stack, toks @ box off ty ts start, Suc start)"
    unfolding bd_step_def Let_def using assms(2,5) u by (simp add: numeric_def del: append_assoc)
  from bd_round [OF assms(1) _ assms(4) this] show ?thesis using assms(3) flip_frame_pop by simp
qed

lemma undefined_string: "bencode Undefined_t = bencode (String_t [])" "toks_of off Undefined_t = toks_of off (String_t [])"
proof -
  have "digit 0 = CHR ''0''" by code_simp
  then show "bencode Undefined_t = bencode (String_t [])" by (simp add: integer_to_str_dec dec.simps [of 0])
qed simp

lemma empty_str_ok: "str_ok []"
  by (simp add: str_ok_def)

lemma next_in_range:
  assumes "int (length buffer) \<le> max_offset" "n + 2 \<le> length buffer"
  shows "int (n + 2) \<le> max_next_item"
  using assms by (simp add: max_offset_def max_next_item_def)

text \<open>A container: its opening, its contents, its end.\<close>

lemma container:
  assumes "buffer = pre @ c # body @ CHR ''e'' # post" "c = (if ty = T_dict then CHR ''d'' else CHR ''l'')"
    and "ty = T_dict \<or> ty = T_list" "Suc (length stack) < d" "int (length ts + 2) \<le> t" "stack_ok toks stack"
    and "parent_is_dict toks stack \<longrightarrow> snd (hd stack)" "length ts \<le> length body" "int (length buffer) \<le> max_offset"
    and inner: "bd_loop buffer d (t - 1) ((length toks, False) # flip_top toks stack) (toks @ [token2 (length pre) ty]) (Suc (length pre))
      = bd_loop buffer d (t - 1 - int (length ts)) ((length toks, False) # flip_top toks stack)
          (toks @ token2 (length pre) ty # ts) (Suc (length pre) + length body)"
  shows "bd_loop buffer d t stack toks (length pre)
    = bd_go buffer d (t - int (length (box (length pre) ty ts off))) (flip_top toks stack)
        (toks @ box (length pre) ty ts (Suc (length pre) + length body)) (length pre + length (c # body @ ''e''))"
proof -
  let ?n = "Suc (length pre) + length body"
  have "length pre < length buffer" "buffer ! length pre = c" using assms(1) by simp_all
  then have "bd_loop buffer d t stack toks (length pre)
      = bd_loop buffer d (t - 1) ((length toks, False) # flip_top toks stack) (toks @ [token2 (length pre) ty]) (Suc (length pre))"
    using assms(2,3,4,5,6,7) by (intro open_round) auto
  also note inner
  also have "bd_loop buffer d (t - 1 - int (length ts)) ((length toks, False) # flip_top toks stack) (toks @ token2 (length pre) ty # ts) ?n
      = bd_go buffer d (t - 1 - int (length ts) - 1) (flip_top toks stack) (toks @ box (length pre) ty ts ?n) (Suc ?n)"
  proof (rule close_round)
    have "drop ?n buffer = CHR ''e'' # post" using assms(1) by simp
    then show "?n < length buffer" "buffer ! ?n = CHR ''e''"
      by (metis drop_all linorder_not_less list.distinct(1), metis hd_drop_conv_nth drop_all linorder_not_less list.distinct(1) list.sel(1))
    have "length ts + 2 \<le> length buffer" using assms(1,8) by simp
    then show "int (length ts + 2) \<le> max_next_item" by (rule next_in_range [OF assms(9)])
  qed (use assms(4,5) in simp_all)
  finally show ?thesis by (simp add: box_def algebra_simps)
qed

lemma decode_value:
  "\<lbrakk>buffer = pre @ bencode e @ post; entry_ok e; length stack + depth e < d; int (length (toks_of (length pre) e)) \<le> t;
    int (length buffer) \<le> max_offset; stack_ok toks stack; parent_is_dict toks stack \<longrightarrow> snd (hd stack)\<rbrakk>
   \<Longrightarrow> bd_loop buffer d t stack toks (length pre)
     = bd_go buffer d (t - int (length (toks_of (length pre) e))) (flip_top toks stack) (toks @ toks_of (length pre) e)
         (length pre + length (bencode e))"
  "\<lbrakk>buffer = pre @ bencode_list es @ post; list_all entry_ok es; Suc (length stack) + depth_list es < d;
    int (length (toks_list (length pre) es)) \<le> t; int (length buffer) \<le> max_offset; stack_ok toks ((tp, False) # stack);
    tk_type (toks ! tp) = T_list\<rbrakk>
   \<Longrightarrow> bd_loop buffer d t ((tp, False) # stack) toks (length pre)
     = bd_loop buffer d (t - int (length (toks_list (length pre) es))) ((tp, False) # stack) (toks @ toks_list (length pre) es)
         (length pre + length (bencode_list es))"
  "\<lbrakk>buffer = pre @ bencode_dict kvs @ post; list_all (\<lambda>(k, v). str_ok k \<and> entry_ok v) kvs;
    Suc (length stack) + depth_dict kvs < d; int (length (toks_dict (length pre) kvs)) \<le> t; int (length buffer) \<le> max_offset;
    stack_ok toks ((tp, False) # stack); tk_type (toks ! tp) = T_dict\<rbrakk>
   \<Longrightarrow> bd_loop buffer d t ((tp, False) # stack) toks (length pre)
     = bd_loop buffer d (t - int (length (toks_dict (length pre) kvs))) ((tp, False) # stack) (toks @ toks_dict (length pre) kvs)
         (length pre + length (bencode_dict kvs))"
proof (induction e and es and kvs arbitrary: pre post stack toks t and pre post stack toks t tp and pre post stack toks t tp
    rule: bencode_bencode_list_bencode_dict.induct)
  case (1 i)
  then show ?case using int_round [of buffer pre i post stack d t toks] by simp
next
  case (2 s)
  then show ?case using string_round [of buffer pre s post stack d t toks] by simp
next
  case (3 es)
  have b: "buffer = (pre @ ''l'') @ bencode_list es @ CHR ''e'' # post" using "3.prems"(1) by simp
  have "bd_loop buffer d (t - 1) ((length toks, False) # flip_top toks stack) (toks @ [token2 (length pre) T_list]) (length (pre @ ''l''))
      = bd_loop buffer d (t - 1 - int (length (toks_list (length (pre @ ''l'')) es))) ((length toks, False) # flip_top toks stack)
          ((toks @ [token2 (length pre) T_list]) @ toks_list (length (pre @ ''l'')) es) (length (pre @ ''l'') + length (bencode_list es))"
    using "3.prems" by (intro "3.IH" [OF b]) (simp_all add: box_def token2_def)
  then show ?case
    using container [of buffer pre "CHR ''l''" "bencode_list es" post T_list stack d "toks_list (Suc (length pre)) es" t toks]
      "3.prems" toks_le_length(2) by (simp add: box_def)
next
  case (4 kvs)
  have b: "buffer = (pre @ ''d'') @ bencode_dict kvs @ CHR ''e'' # post" using "4.prems"(1) by simp
  have "bd_loop buffer d (t - 1) ((length toks, False) # flip_top toks stack) (toks @ [token2 (length pre) T_dict]) (length (pre @ ''d''))
      = bd_loop buffer d (t - 1 - int (length (toks_dict (length (pre @ ''d'')) kvs))) ((length toks, False) # flip_top toks stack)
          ((toks @ [token2 (length pre) T_dict]) @ toks_dict (length (pre @ ''d'')) kvs) (length (pre @ ''d'') + length (bencode_dict kvs))"
    using "4.prems" by (intro "4.IH" [OF b]) (simp_all add: box_def token2_def)
  then show ?case
    using container [of buffer pre "CHR ''d''" "bencode_dict kvs" post T_dict stack d "toks_dict (Suc (length pre)) kvs" t toks]
      "4.prems" toks_le_length(3) by (simp add: box_def)
next
  case (5 s)
  then show ?case by simp
next
  case 6
  then show ?case using string_round [of buffer pre "[]" post stack d t toks] empty_str_ok
    unfolding undefined_string by simp
next
  case 7
  then show ?case by simp
next
  case (8 e es)
  let ?l = "toks_of (length pre) e"
  have b: "buffer = pre @ bencode e @ (bencode_list es @ post)" "buffer = (pre @ bencode e) @ bencode_list es @ post"
    using "8.prems"(1) by simp_all
  have "bd_loop buffer d t ((tp, False) # stack) toks (length pre)
      = bd_go buffer d (t - int (length ?l)) (flip_top toks ((tp, False) # stack)) (toks @ ?l) (length pre + length (bencode e))"
    using "8.prems" by (intro "8.IH"(1) [OF b(1)]) (simp_all add: parent_is_dict_def)
  also have "\<dots> = bd_loop buffer d (t - int (length ?l)) ((tp, False) # stack) (toks @ ?l) (length (pre @ bencode e))"
    using "8.prems"(7) by (simp add: bd_go_def)
  also have "\<dots> = bd_loop buffer d (t - int (length ?l) - int (length (toks_list (length (pre @ bencode e)) es))) ((tp, False) # stack)
      ((toks @ ?l) @ toks_list (length (pre @ bencode e)) es) (length (pre @ bencode e) + length (bencode_list es))"
    using "8.prems" by (intro "8.IH"(2) [OF b(2)]) (simp_all add: nth_append)
  finally show ?case by (simp add: algebra_simps)
next
  case 9
  then show ?case by simp
next
  case (10 k v kvs)
  let ?pre1 = "pre @ bencode (String_t k)"
  let ?pre2 = "?pre1 @ bencode v"
  let ?k = "[str_token (length pre) k]" and ?v = "toks_of (length ?pre1) v" and ?r = "toks_dict (length ?pre2) kvs"
  have b: "buffer = pre @ bencode (String_t k) @ (bencode v @ bencode_dict kvs @ post)"
    "buffer = ?pre1 @ bencode v @ (bencode_dict kvs @ post)" "buffer = ?pre2 @ bencode_dict kvs @ post"
    using "10.prems"(1) by simp_all
  have l: "toks_dict (length pre) ((k, v) # kvs) = ?k @ ?v @ ?r" by (simp add: Let_def add.assoc)
  have t: "1 + int (length ?v) + int (length ?r) \<le> t" using "10.prems"(4) unfolding l by simp
  have "bd_loop buffer d t ((tp, False) # stack) toks (length pre)
      = bd_go buffer d (t - 1) (flip_top toks ((tp, False) # stack)) (toks @ ?k) (length pre + length (bencode (String_t k)))"
    using "10.prems" t by (intro string_round [OF b(1)]) simp_all
  also have "\<dots> = bd_loop buffer d (t - 1) ((tp, True) # stack) (toks @ ?k) (length ?pre1)"
    using "10.prems"(7) by (simp add: bd_go_def)
  also have "\<dots> = bd_go buffer d (t - 1 - int (length ?v)) (flip_top (toks @ ?k) ((tp, True) # stack)) ((toks @ ?k) @ ?v)
      (length ?pre1 + length (bencode v))"
    using "10.prems" t by (intro "10.IH"(1) [OF b(2)]) (simp_all del: bencode.simps)
  also have "\<dots> = bd_loop buffer d (t - 1 - int (length ?v)) ((tp, False) # stack) ((toks @ ?k) @ ?v) (length ?pre2)"
    using "10.prems"(6,7) by (simp add: bd_go_def nth_append add.assoc)
  also have "\<dots> = bd_loop buffer d (t - 1 - int (length ?v) - int (length ?r)) ((tp, False) # stack) (((toks @ ?k) @ ?v) @ ?r)
      (length ?pre2 + length (bencode_dict kvs))"
    using "10.prems" t by (intro "10.IH"(2) [OF b(3)]) (simp_all add: nth_append del: bencode.simps)
  finally show ?case unfolding l by (simp add: algebra_simps)
qed

lemma bdecode_bencode:
  assumes "entry_ok e" "depth e < d" "int (length (toks_of 0 e)) \<le> t" "int (length (bencode e)) \<le> max_offset"
  shows "bdecode (bencode e) d t
    = (None, \<lparr>bn_tokens = toks_of 0 e @ [token4 (length (bencode e)) 0 T_end 0], bn_buffer = bencode e, bn_idx = 0\<rparr>)"
proof -
  have "bd_loop (bencode e) d t [] [] 0
      = bd_go (bencode e) d (t - int (length (toks_of 0 e))) [] (toks_of 0 e) (length (bencode e))"
    using decode_value(1) [where buffer = "bencode e" and pre = "[]" and post = "[]" and stack = "[]" and toks = "[]"] assms
    by (simp add: stack_ok_def parent_is_dict_def)
  then show ?thesis using assms(4) by (simp add: bdecode_def bd_go_def)
qed

subsection \<open>The accessors\<close>

text \<open>
  A node in an array that holds the tokens of a value at a place, with the encoded value at their
  offset in the buffer and the next token starting behind it.
\<close>

definition holds :: "bdecode_node \<Rightarrow> nat \<Rightarrow> entry \<Rightarrow> bool" where
  "holds n i e \<longleftrightarrow> (\<exists>A B pre post.
     bn_tokens n = A @ toks_of (length pre) e @ B \<and> length A = i \<and> B \<noteq> [] \<and>
     tk_offset (hd B) = length pre + length (bencode e) \<and> bn_buffer n = pre @ bencode e @ post)"

lemma first_next:
  assumes "entry_ok e"
  shows "toks_of off e \<noteq> []" "tk_next (toks_of off e ! 0) = length (toks_of off e)" "tk_offset (toks_of off e ! 0) = off"
    "tk_type (toks_of off e ! 0) \<noteq> T_end"
  using assms by (cases e; simp add: str_token_def token4_def token2_def box_def)+

fun tok_type :: "entry \<Rightarrow> token_type" where
  "tok_type (Int_t i) = T_integer"
| "tok_type (String_t s) = T_string"
| "tok_type (List_t es) = T_list"
| "tok_type (Dictionary_t kvs) = T_dict"
| "tok_type Undefined_t = T_string"
| "tok_type (Preformatted_t s) = T_none"

lemma holds_type:
  assumes "holds n i e" "entry_ok e"
  shows "node_type (node_at n i) = tok_type e"
proof -
  obtain A B and pre :: string where n: "bn_tokens n = A @ toks_of (length pre) e @ B" "length A = i"
    using assms(1) unfolding holds_def by blast
  have "bn_tokens n ! i = toks_of (length pre) e ! 0"
    using first_next(1) [OF assms(2), of "length pre"] n by (simp add: nth_append)
  then show ?thesis using assms(2) by (cases e) (simp_all add: node_type_def node_at_def str_token_def token4_def token2_def box_def)
qed

lemma holds_string:
  assumes "holds n i (String_t s)" "str_ok s"
  shows "string_value (node_at n i) = s" "token_string n i = s"
proof -
  obtain A B pre post where n: "bn_tokens n = A @ str_token (length pre) s # B" "length A = i" "B \<noteq> []"
    "tk_offset (hd B) = length pre + length (bencode (String_t s))" "bn_buffer n = pre @ bencode (String_t s) @ post"
    using assms(1) by (auto simp: holds_def)
  let ?h = "length (integer_to_str (int (length s)))"
  have "0 < ?h" using str_header [OF assms(2)] by (metis length_greater_0_conv list.distinct(1))
  then have "start_offset (str_token (length pre) s) = ?h + 1" by (simp add: start_offset_def str_token_def token4_def)
  moreover have "tk_offset (str_token (length pre) s) = length pre" by (simp add: str_token_def token4_def)
  moreover have "bn_tokens n ! Suc i = hd B" using n(1-3) by (cases B) (simp_all add: nth_append)
  ultimately show t: "token_string n i = s"
    using n by (simp add: token_string_def token_source_span_def Let_def nth_append)
  then show "string_value (node_at n i) = s" by (simp add: string_value_def node_at_def token_string_def)
qed

lemma holds_int:
  assumes "holds n i (Int_t v)" "int_ok v"
  shows "int_value (node_at n i) = v"
proof -
  obtain A B pre post where n: "bn_tokens n = A @ token4 (length pre) 1 T_integer 1 # B" "length A = i" "B \<noteq> []"
    "tk_offset (hd B) = length pre + length (bencode (Int_t v))" "bn_buffer n = pre @ bencode (Int_t v) @ post"
    using assms(1) by (auto simp: holds_def)
  obtain ds where ds: "integer_to_str v = (if v < 0 then CHR ''-'' # ds else ds)" "\<forall>c\<in>set ds. numeric c" "ds \<noteq> []"
    "int (digits_val 0 ds) = \<bar>v\<bar>" using int_ok_str [OF assms(2)] by metis
  have "\<bar>v\<bar> \<le> INT64_MAX" using assms(2) by (simp add: int_ok_def INT64_MAX_def abs_le_iff)
  then have p: "parse_int (ds @ CHR ''e'' # rest) CHR ''e'' 0 = (None, length ds, \<bar>v\<bar>)" for rest
    using parse_int_digits [of ds "CHR ''e''" 0 rest] ds by (simp add: numeric_def)
  let ?l = "length (integer_to_str v)"
  have t: "bn_tokens n ! i = token4 (length pre) 1 T_integer 1" "bn_tokens n ! Suc i = hd B"
    using n(1-3) by (cases B; simp add: nth_append)+
  then have o: "tk_offset (bn_tokens n ! i) = length pre" "token_source_span (bn_tokens n) i = ?l + 2"
    using n(4) by (simp_all add: token_source_span_def token4_def)
  have c: "hd ds \<noteq> CHR ''-''" using ds(2,3) by (cases ds) (auto simp: numeric_def)
  have b: "drop (Suc (length pre)) (bn_buffer n) = integer_to_str v @ CHR ''e'' # post" using n(5) by simp
  have "bn_buffer n ! Suc (length pre) = hd (integer_to_str v @ CHR ''e'' # post)"
    using b by (metis hd_drop_conv_nth append_is_Nil_conv drop_all linorder_not_less list.distinct(1))
  then have neg: "bn_buffer n ! Suc (length pre) = CHR ''-'' \<longleftrightarrow> v < 0" using ds(1,3) c by simp
  show ?thesis
  proof (cases "v < 0")
    case True
    then have "drop (Suc (Suc (length pre))) (bn_buffer n) = ds @ CHR ''e'' # post"
      using b ds(1) by (metis drop_Suc tl_drop list.sel(3) append_Cons)
    then show ?thesis using True ds(1) p neg
      by (simp add: int_value_def node_at_def o Let_def)
  next
    case False
    then show ?thesis using ds(1) p neg b
      by (simp add: int_value_def node_at_def o Let_def)
  qed
qed

text \<open>The items of a list and of a dictionary, up to the end token behind them.\<close>

definition holds_items :: "bdecode_node \<Rightarrow> nat \<Rightarrow> entry list \<Rightarrow> bool" where
  "holds_items n i es \<longleftrightarrow> (\<exists>A B pre post.
     bn_tokens n = A @ toks_list (length pre) es @ B \<and> length A = i \<and> B \<noteq> [] \<and> tk_type (hd B) = T_end \<and>
     tk_offset (hd B) = length pre + length (bencode_list es) \<and> bn_buffer n = pre @ bencode_list es @ post)"

definition holds_pairs :: "bdecode_node \<Rightarrow> nat \<Rightarrow> (string \<times> entry) list \<Rightarrow> bool" where
  "holds_pairs n i kvs \<longleftrightarrow> (\<exists>A B pre post.
     bn_tokens n = A @ toks_dict (length pre) kvs @ B \<and> length A = i \<and> B \<noteq> [] \<and> tk_type (hd B) = T_end \<and>
     tk_offset (hd B) = length pre + length (bencode_dict kvs) \<and> bn_buffer n = pre @ bencode_dict kvs @ post)"

lemma holds_node_at [simp]:
  "holds (node_at n j) i e = holds n i e" "bn_tokens (node_at n j) = bn_tokens n" "bn_idx (node_at n j) = int j"
  "token_string (node_at n j) i = token_string n i" "node_at (node_at n j) k = node_at n k"
  "holds_items (node_at n j) i es = holds_items n i es" "holds_pairs (node_at n j) i kvs = holds_pairs n i kvs"
  by (simp_all add: holds_def holds_items_def holds_pairs_def node_at_def token_string_def)

lemma holds_intro:
  assumes "bn_tokens n = A @ toks_of (length pre) e @ B" "length A = i" "B \<noteq> []"
    "tk_offset (hd B) = length pre + length (bencode e)" "bn_buffer n = pre @ bencode e @ post"
  shows "holds n i e"
  using assms unfolding holds_def by blast

lemma toks_list_first:
  assumes "list_all entry_ok es" "es \<noteq> []"
  shows "toks_list off es \<noteq> []" "tk_offset (hd (toks_list off es)) = off"
proof -
  obtain e es' where e: "es = e # es'" "entry_ok e" using assms by (cases es) auto
  note f = first_next [OF e(2), of off]
  show "toks_list off es \<noteq> []" "tk_offset (hd (toks_list off es)) = off"
    using f e by (simp_all add: hd_append hd_conv_nth)
qed

lemma items_Cons:
  assumes "holds_items n i (e # es)" "entry_ok e" "list_all entry_ok es"
  shows "holds n i e" "holds_items n (i + tk_next (bn_tokens n ! i)) es" "tk_type (bn_tokens n ! i) \<noteq> T_end"
proof -
  obtain A B pre post where h: "bn_tokens n = A @ toks_of (length pre) e @ toks_list (length pre + length (bencode e)) es @ B"
    "length A = i" "B \<noteq> []" "tk_type (hd B) = T_end"
    "tk_offset (hd B) = length pre + length (bencode e) + length (bencode_list es)"
    "bn_buffer n = pre @ bencode e @ bencode_list es @ post"
    using assms(1) unfolding holds_items_def by (auto simp: add.assoc)
  let ?l = "toks_list (length pre + length (bencode e)) es"
  have "tk_offset (hd (?l @ B)) = length pre + length (bencode e)"
    using toks_list_first [OF assms(3)] h(5) by (cases "es = []") (simp_all add: hd_append)
  then show "holds n i e" using h by (intro holds_intro [of n A pre e "?l @ B" i "bencode_list es @ post"]) simp_all
  note f = first_next [OF assms(2), of "length pre"]
  have t: "bn_tokens n ! i = toks_of (length pre) e ! 0" using h(1,2) f(1) by (simp add: nth_append)
  then show "tk_type (bn_tokens n ! i) \<noteq> T_end" using f(4) by simp
  have "bn_tokens n = (A @ toks_of (length pre) e) @ toks_list (length (pre @ bencode e)) es @ B"
    "length (A @ toks_of (length pre) e) = i + tk_next (bn_tokens n ! i)"
    "bn_buffer n = (pre @ bencode e) @ bencode_list es @ post"
    "tk_offset (hd B) = length (pre @ bencode e) + length (bencode_list es)" using h t f(2) by simp_all
  then show "holds_items n (i + tk_next (bn_tokens n ! i)) es"
    unfolding holds_items_def using h(3,4) by blast
qed

lemma items_Nil:
  assumes "holds_items n i []"
  shows "tk_type (bn_tokens n ! i) = T_end"
  using assms by (auto simp: holds_items_def nth_append hd_conv_nth)

lemma items_skip:
  assumes "holds_items n i es" "list_all entry_ok es" "k < length es"
  shows "holds n (skip_items (bn_tokens n) i k) (es ! k)"
  using assms
proof (induction k arbitrary: i es)
  case 0
  then show ?case using items_Cons(1) by (cases es) auto
next
  case (Suc k)
  then obtain e es' where e: "es = e # es'" by (cases es) auto
  then show ?case using Suc.IH [of "i + tk_next (bn_tokens n ! i)" es'] items_Cons(2) [of n i e es'] Suc.prems by simp
qed

lemma items_count:
  assumes "holds_items n i es" "list_all entry_ok es" "length es \<le> fuel"
  shows "count_items fuel (bn_tokens n) i = length es"
  using assms
proof (induction fuel arbitrary: i es)
  case (Suc fuel)
  show ?case
  proof (cases es)
    case Nil
    then show ?thesis using items_Nil Suc.prems(1) by simp
  next
    case (Cons e es')
    then show ?thesis
      using Suc.IH [of "i + tk_next (bn_tokens n ! i)" es'] items_Cons(2,3) [of n i e es'] Suc.prems by simp
  qed
qed simp

lemma pairs_Cons:
  assumes "holds_pairs n i ((k, v) # kvs)" "str_ok k" "entry_ok v"
  shows "holds n i (String_t k)" "holds n (Suc i) v" "holds_pairs n (Suc i + tk_next (bn_tokens n ! Suc i)) kvs"
    "tk_next (bn_tokens n ! i) = 1" "tk_type (bn_tokens n ! i) \<noteq> T_end"
proof -
  let ?k = "bencode (String_t k)"
  obtain A B pre post where h0: "bn_tokens n = A @ toks_dict (length pre) ((k, v) # kvs) @ B"
    "length A = i" "B \<noteq> []" "tk_type (hd B) = T_end" "tk_offset (hd B) = length pre + length (bencode_dict ((k, v) # kvs))"
    "bn_buffer n = pre @ bencode_dict ((k, v) # kvs) @ post"
    using assms(1) unfolding holds_pairs_def by blast
  let ?v = "toks_of (length (pre @ ?k)) v" and ?r = "toks_dict (length ((pre @ ?k) @ bencode v)) kvs"
  have h: "bn_tokens n = A @ str_token (length pre) k # ?v @ ?r @ B" "bn_buffer n = pre @ ?k @ bencode v @ bencode_dict kvs @ post"
    "tk_offset (hd B) = length ((pre @ ?k) @ bencode v) + length (bencode_dict kvs)"
    using h0 by (simp_all add: Let_def add.assoc)
  note f = first_next [OF assms(3), of "length (pre @ ?k)"]
  have o: "tk_offset (hd (?r @ B)) = length (pre @ ?k) + length (bencode v)"
    using h(3) by (cases kvs) (auto simp: Let_def str_token_def token4_def)
  have "tk_offset (hd (?v @ ?r @ B)) = length pre + length ?k" using f(1,3) by (simp add: hd_append hd_conv_nth)
  then show "holds n i (String_t k)"
    using h h0(2,3) by (intro holds_intro [of n A pre _ "?v @ ?r @ B" i "bencode v @ bencode_dict kvs @ post"]) (simp_all del: bencode.simps)
  show "holds n (Suc i) v"
    using h h0(2,3) o
    by (intro holds_intro [of n "A @ [str_token (length pre) k]" "pre @ ?k" _ "?r @ B" _ "bencode_dict kvs @ post"]) (simp_all del: bencode.simps)
  have t: "bn_tokens n ! i = str_token (length pre) k" "bn_tokens n ! Suc i = ?v ! 0"
    using h(1) h0(2) f(1) by (simp_all add: nth_append del: bencode.simps)
  then show "tk_next (bn_tokens n ! i) = 1" "tk_type (bn_tokens n ! i) \<noteq> T_end" by (simp_all add: str_token_def token4_def)
  have "bn_tokens n = (A @ str_token (length pre) k # ?v) @ toks_dict (length ((pre @ ?k) @ bencode v)) kvs @ B"
    "length (A @ str_token (length pre) k # ?v) = Suc i + tk_next (bn_tokens n ! Suc i)"
    "bn_buffer n = ((pre @ ?k) @ bencode v) @ bencode_dict kvs @ post"
    using h h0(2) t f(2) by (simp_all del: bencode.simps)
  then show "holds_pairs n (Suc i + tk_next (bn_tokens n ! Suc i)) kvs"
    unfolding holds_pairs_def using h(3) h0(3,4) by blast
qed

lemma pairs_Nil:
  assumes "holds_pairs n i []"
  shows "tk_type (bn_tokens n ! i) = T_end"
  using assms by (auto simp: holds_pairs_def nth_append hd_conv_nth)

lemma pairs_find:
  assumes "holds_pairs n i kvs" "list_all (\<lambda>(k, v). str_ok k \<and> entry_ok v) kvs" "length kvs \<le> fuel"
  shows "case map_of kvs key of
      None \<Rightarrow> dict_find_loop fuel n key i = null_node
    | Some v \<Rightarrow> \<exists>j. dict_find_loop fuel n key i = node_at n j \<and> holds n j v"
  using assms
proof (induction fuel arbitrary: i kvs)
  case (Suc fuel)
  show ?case
  proof (cases kvs)
    case Nil
    then show ?thesis using pairs_Nil Suc.prems(1) by simp
  next
    case (Cons kv kvs')
    obtain k v where kv: "kv = (k, v)" by fastforce
    have ok: "str_ok k" "entry_ok v" "list_all (\<lambda>(k, v). str_ok k \<and> entry_ok v) kvs'" using Suc.prems(2) Cons kv by auto
    note p = pairs_Cons [OF Suc.prems(1) [unfolded Cons kv] ok(1,2)]
    have "token_string n i = k" using holds_string(2) [OF p(1) ok(1)] .
    then have e: "dict_find_loop (Suc fuel) n key i
        = (if k = key then node_at n (Suc i) else dict_find_loop fuel n key (Suc i + tk_next (bn_tokens n ! Suc i)))"
      using p(4,5) by (simp add: Let_def)
    have f: "length kvs' \<le> fuel" using Suc.prems(3) Cons by simp
    show ?thesis
    proof (cases "k = key")
      case True
      then show ?thesis using p(2) e Cons kv by auto
    next
      case False
      then show ?thesis using Suc.IH [OF p(3) ok(3) f] unfolding e Cons kv by simp
    qed
  qed
qed simp

lemma length_toks_items:
  "list_all entry_ok es \<Longrightarrow> length es \<le> length (toks_list off es)"
  "length kvs \<le> length (toks_dict off kvs)"
proof -
  show "list_all entry_ok es \<Longrightarrow> length es \<le> length (toks_list off es)"
  proof (induction es arbitrary: off)
    case (Cons e es)
    then have "0 < length (toks_of off e)" using first_next(1) by simp
    moreover have "length es \<le> length (toks_list (off + length (bencode e)) es)" using Cons by simp
    ultimately show ?case unfolding toks_list.simps length_append list.size by linarith
  qed simp
  show "length kvs \<le> length (toks_dict off kvs)"
    by (induction kvs arbitrary: off) (auto simp: Let_def trans_le_add2)
qed

lemma items_length:
  "holds_items n i es \<Longrightarrow> list_all entry_ok es \<Longrightarrow> length es \<le> length (bn_tokens n)"
  "holds_pairs n i kvs \<Longrightarrow> length kvs \<le> length (bn_tokens n)"
proof -
  show "length es \<le> length (bn_tokens n)" if h: "holds_items n i es" "list_all entry_ok es"
  proof -
    obtain A B and pre :: string where "bn_tokens n = A @ toks_list (length pre) es @ B"
      using h(1) unfolding holds_items_def by blast
    then show ?thesis using length_toks_items(1) [OF h(2), of "length pre"] by simp
  qed
  show "length kvs \<le> length (bn_tokens n)" if h: "holds_pairs n i kvs"
  proof -
    obtain A B and pre :: string where "bn_tokens n = A @ toks_dict (length pre) kvs @ B"
      using h unfolding holds_pairs_def by blast
    then show ?thesis using length_toks_items(2) [of kvs "length pre"] by simp
  qed
qed

lemma holds_box:
  assumes "holds n i (List_t es)"
  shows "holds_items n (Suc i) es"
proof -
  obtain A B pre post where h: "bn_tokens n = A @ toks_of (length pre) (List_t es) @ B" "length A = i"
    "bn_buffer n = pre @ bencode (List_t es) @ post" using assms unfolding holds_def by blast
  let ?e = "token4 (Suc (length pre) + length (bencode_list es)) 1 T_end 0"
  have "bn_tokens n = (A @ [hd (toks_of (length pre) (List_t es))]) @ toks_list (length (pre @ ''l'')) es @ (?e # B)"
    "length (A @ [hd (toks_of (length pre) (List_t es))]) = Suc i" "bn_buffer n = (pre @ ''l'') @ bencode_list es @ (CHR ''e'' # post)"
    "tk_type (hd (?e # B)) = T_end" "tk_offset (hd (?e # B)) = length (pre @ ''l'') + length (bencode_list es)" "?e # B \<noteq> []"
    using h by (simp_all add: box_def token4_def)
  then show ?thesis unfolding holds_items_def by blast
qed

lemma holds_box_dict:
  assumes "holds n i (Dictionary_t kvs)"
  shows "holds_pairs n (Suc i) kvs"
proof -
  obtain A B pre post where h: "bn_tokens n = A @ toks_of (length pre) (Dictionary_t kvs) @ B" "length A = i"
    "bn_buffer n = pre @ bencode (Dictionary_t kvs) @ post" using assms unfolding holds_def by blast
  let ?e = "token4 (Suc (length pre) + length (bencode_dict kvs)) 1 T_end 0"
  have "bn_tokens n = (A @ [hd (toks_of (length pre) (Dictionary_t kvs))]) @ toks_dict (length (pre @ ''d'')) kvs @ (?e # B)"
    "length (A @ [hd (toks_of (length pre) (Dictionary_t kvs))]) = Suc i"
    "bn_buffer n = (pre @ ''d'') @ bencode_dict kvs @ (CHR ''e'' # post)"
    "tk_type (hd (?e # B)) = T_end" "tk_offset (hd (?e # B)) = length (pre @ ''d'') + length (bencode_dict kvs)" "?e # B \<noteq> []"
    using h by (simp_all add: box_def token4_def)
  then show ?thesis unfolding holds_pairs_def by blast
qed

text \<open>Looking up a key of a dictionary.\<close>

lemma holds_dict_find:
  assumes "holds n i (Dictionary_t kvs)" "entry_ok (Dictionary_t kvs)"
  shows "case map_of kvs key of
      None \<Rightarrow> dict_find (node_at n i) key = null_node
    | Some v \<Rightarrow> \<exists>j. dict_find (node_at n i) key = node_at n j \<and> holds n j v"
proof -
  note p = holds_box_dict [OF assms(1)]
  have "length kvs \<le> length (bn_tokens n)" by (rule items_length(2) [OF p])
  then show ?thesis
    using pairs_find [of "node_at n i" "Suc i" kvs "length (bn_tokens n)" key] p assms(2)
    by (cases "map_of kvs key") (simp_all add: dict_find_def)
qed

subsection \<open>The round trip\<close>

text \<open>What the accessors tell of a node that stands for a value.\<close>

inductive decodes_to :: "bdecode_node \<Rightarrow> entry \<Rightarrow> bool" where
  Dec_int: "node_type n = T_integer \<Longrightarrow> int_value n = i \<Longrightarrow> decodes_to n (Int_t i)"
| Dec_string: "node_type n = T_string \<Longrightarrow> string_value n = s \<Longrightarrow> decodes_to n (String_t s)"
| Dec_undefined: "node_type n = T_string \<Longrightarrow> string_value n = [] \<Longrightarrow> decodes_to n Undefined_t"
| Dec_list: "node_type n = T_list \<Longrightarrow> list_size n = length es \<Longrightarrow> \<forall>k<length es. decodes_to (list_at n k) (es ! k)
    \<Longrightarrow> decodes_to n (List_t es)"
| Dec_dict: "node_type n = T_dict \<Longrightarrow> \<forall>(k, v)\<in>set kvs. decodes_to (dict_find n k) v
    \<Longrightarrow> \<forall>k. k \<notin> fst ` set kvs \<longrightarrow> dict_find n k = null_node \<Longrightarrow> decodes_to n (Dictionary_t kvs)"

lemma holds_decodes:
  "holds n i e \<Longrightarrow> entry_ok e \<Longrightarrow> decodes_to (node_at n i) e"
proof (induction e arbitrary: i)
  case (List_t es)
  have ok: "list_all entry_ok es" using List_t.prems(2) by simp
  have it: "holds_items n (Suc i) es" by (rule holds_box [OF List_t.prems(1)])
  have "length es \<le> length (bn_tokens n)" by (rule items_length(1) [OF it ok])
  then have "list_size (node_at n i) = length es" using items_count [OF it ok] by (simp add: list_size_def)
  moreover have "decodes_to (list_at (node_at n i) k) (es ! k)" if "k < length es" for k
  proof -
    have "holds n (skip_items (bn_tokens n) (Suc i) k) (es ! k)" by (rule items_skip [OF it ok that])
    moreover have "entry_ok (es ! k)" using ok that by (simp add: list_all_length)
    ultimately show ?thesis using List_t.IH [of "es ! k"] that by (simp add: list_at_def)
  qed
  ultimately show ?case using holds_type [OF List_t.prems] by (auto intro: decodes_to.Dec_list)
next
  case (Dictionary_t kvs)
  have ok: "list_all (\<lambda>(k, v). str_ok k \<and> entry_ok v) kvs" "distinct (map fst kvs)" using Dictionary_t.prems(2) by simp_all
  note f = holds_dict_find [OF Dictionary_t.prems]
  have "decodes_to (dict_find (node_at n i) k) v" if kv: "(k, v) \<in> set kvs" for k v
  proof -
    have "map_of kvs k = Some v" using ok(2) kv by simp
    then obtain j where "dict_find (node_at n i) k = node_at n j" "holds n j v" using f [of k] by auto
    moreover have "entry_ok v" using ok(1) kv by (auto simp: list_all_iff)
    ultimately show ?thesis using Dictionary_t.IH [OF kv, of v] by simp
  qed
  moreover have "dict_find (node_at n i) k = null_node" if "k \<notin> fst ` set kvs" for k
  proof -
    have "map_of kvs k = None" using that by (simp add: map_of_eq_None_iff)
    then show ?thesis using f [of k] by simp
  qed
  ultimately show ?case using holds_type [OF Dictionary_t.prems] by (auto intro: decodes_to.Dec_dict)
next
  case Undefined_t
  have "holds n i (String_t [])" using Undefined_t.prems(1) unfolding holds_def undefined_string .
  then show ?case using holds_string(1) empty_str_ok holds_type [OF Undefined_t.prems] by (auto intro: decodes_to.Dec_undefined)
next
  case (Int_t v)
  then show ?case using holds_type [OF Int_t.prems] holds_int by (auto intro: decodes_to.Dec_int)
next
  case (String_t s)
  then show ?case using holds_type [OF String_t.prems] holds_string(1) by (auto intro: decodes_to.Dec_string)
qed simp

lemma decoded_within:
  assumes "entry_ok e" "depth e < d" "int (length (toks_of 0 e)) \<le> t" "int (length (bencode e)) \<le> max_offset"
  shows "\<exists>n. bdecode (bencode e) d t = (None, n) \<and> decodes_to n e"
proof -
  let ?tail = "token4 (length (bencode e)) 0 T_end 0"
  let ?n = "\<lparr>bn_tokens = toks_of 0 e @ [?tail], bn_buffer = bencode e, bn_idx = 0\<rparr>"
  have "bdecode (bencode e) d t = (None, ?n)" using assms by (intro bdecode_bencode)
  moreover have "holds ?n 0 e"
    by (rule holds_intro [of _ "[]" "[]" _ "[?tail]" _ "[]"]) (simp_all add: token4_def)
  then have "decodes_to (node_at ?n 0) e" using assms(1) by (rule holds_decodes)
  then have "decodes_to ?n e" by (simp add: node_at_def)
  ultimately show ?thesis by blast
qed

text \<open>C11: the round trip. Whatever value is encoded (its integers are smaller than 2 ^ 63 and greater than
  -(10 ^ 18), its strings shorter than 10 ^ 8 bytes, it is less deep than the limit of the
  decoder and its encoding is not longer than the limits), decoding gives no error, and the accessors
  of the decoded node give back the value: types, numbers, strings, the elements of lists in order, and
  for a dictionary the value of every key and nothing for any other key.\<close>

theorem bdecode_inverts_bencode:
  assumes "entry_ok e" "depth e < d" "int (length (bencode e)) \<le> t" "int (length (bencode e)) \<le> max_offset"
  shows "\<exists>n. bdecode (bencode e) d t = (None, n) \<and> decodes_to n e"
proof -
  have "int (length (toks_of 0 e)) \<le> t" using toks_le_length(1) [of 0 e] assms(3) by linarith
  then show ?thesis using assms(1,2,4) by (intro decoded_within)
qed

theorem bdecode_inverts_bencode_witness:
  "\<exists>n. bdecode ''d5:peersld2:ip7:1.2.3.44:porti81eeee'' 100 2000000 = (None, n)
     \<and> decodes_to n (Dictionary_t [(''peers'', List_t [Dictionary_t [(''ip'', String_t ''1.2.3.4''), (''port'', Int_t 81)]])])"
proof -
  let ?e = "Dictionary_t [(''peers'', List_t [Dictionary_t [(''ip'', String_t ''1.2.3.4''), (''port'', Int_t 81)]])]"
  have b: "bencode ?e = ''d5:peersld2:ip7:1.2.3.44:porti81eeee''" by code_simp
  have "entry_ok ?e" "depth ?e < 100" by (simp_all add: int_ok_def str_ok_def)
  then show ?thesis using bdecode_inverts_bencode [of ?e 100 2000000] unfolding b by (simp add: max_offset_def)
qed

text \<open>C29: numbers. An integer is written with its sign and its decimal digits, except that a negative
  integer of 19 digits loses the first of them: the loop stops one character too early when it keeps
  a place for the sign.\<close>

theorem integer_to_str_digits:
  assumes "- (2 ^ 63) < i" "i < 2 ^ 63"
  shows "integer_to_str i =
    (if 0 \<le> i then dec (nat i)
     else if - (10 ^ 18) < i then CHR ''-'' # dec (nat (- i))
     else CHR ''-'' # tl (dec (nat (- i))))"
proof (cases "- (10 ^ 18) < i")
  case True
  then show ?thesis using integer_to_str_dec [of i] assms(2) by simp
next
  case False
  then have "10 ^ 18 \<le> nat (- i)" "nat (- i) < 10 ^ 19" using assms(1) by (simp_all add: nat_le_iff nat_less_iff le_nat_iff)
  then have "18 < length (dec (nat (- i)))" "length (dec (nat (- i))) \<le> 19"
    using length_dec_ge [of 18 "nat (- i)"] length_dec [of "nat (- i)" 19] by simp_all
  then have "length (dec (nat (- i))) = 19" by linarith
  then show ?thesis using False by (simp add: integer_to_str_def write_digits_dec Let_def drop_Suc)
qed

theorem integer_to_str_digits_witness:
  "integer_to_str (- 1234567890123456789) = ''-234567890123456789''"
proof -
  have "dec_int 1234567890123456789 = ''1234567890123456789''" by code_simp
  then have "dec 1234567890123456789 = ''1234567890123456789''" by (simp add: dec_int_def)
  then show ?thesis using integer_to_str_digits [of "- 1234567890123456789"] by simp
qed

end
