(* ===== verification/Torrent_Created.thy ===== *)
theory Torrent_Created
  imports Torrent_Load Bencode
begin

section \<open>Loading the torrent files that an encoder makes\<close>

text \<open>
  What \<open>Torrent_Load\<close> makes of the output of \<open>Bencode\<close>: a torrent file of a single file loads without
  an error, and the torrent has the name, the size, the pieces, the hashes and the tracker it was made
  with; and any torrent file that loads has the trackers of its announce list.
\<close>

subsection \<open>Nodes that stand for encoded values\<close>

lemma holds_first:
  assumes "holds n i e" "entry_ok e"
  obtains pre post where "tk_offset (bn_tokens n ! i) = length pre"
    "tk_offset (bn_tokens n ! (i + tk_next (bn_tokens n ! i))) = length pre + length (bencode e)"
    "bn_buffer n = pre @ bencode e @ post" "bn_tokens n ! i = toks_of (length pre) e ! 0"
proof -
  obtain A B pre post where h: "bn_tokens n = A @ toks_of (length pre) e @ B" "length A = i" "B \<noteq> []"
    "tk_offset (hd B) = length pre + length (bencode e)" "bn_buffer n = pre @ bencode e @ post"
    using assms(1) unfolding holds_def by blast
  note f = first_next [OF assms(2), of "length pre"]
  have t: "bn_tokens n ! i = toks_of (length pre) e ! 0" using f(1) h by (simp add: nth_append)
  moreover have "bn_tokens n ! (i + length (toks_of (length pre) e)) = hd B" using h by (simp add: nth_append hd_conv_nth)
  ultimately show thesis using that [of pre post] f h by simp
qed

lemma holds_section:
  assumes "holds n i e" "entry_ok e"
  shows "data_section (node_at n i) = bencode e"
proof -
  obtain pre post where h: "tk_offset (bn_tokens n ! i) = length pre"
    "tk_offset (bn_tokens n ! (i + tk_next (bn_tokens n ! i))) = length pre + length (bencode e)"
    "bn_buffer n = pre @ bencode e @ post" using holds_first [OF assms] by metis
  then show ?thesis by (simp add: data_section_def Let_def) (simp add: node_at_def)
qed

lemma holds_length: "holds n i e \<Longrightarrow> length (bencode e) \<le> length (bn_buffer n)"
  unfolding holds_def by (elim exE conjE) simp

lemma holds_string_length:
  assumes "holds n i (String_t s)" "str_ok s"
  shows "string_length (node_at n i) = int (length s)"
proof -
  have ok: "entry_ok (String_t s)" using assms(2) by simp
  obtain pre :: string where h: "tk_offset (bn_tokens n ! i) = length pre"
    "tk_offset (bn_tokens n ! (i + tk_next (bn_tokens n ! i))) = length pre + length (bencode (String_t s))"
    "bn_tokens n ! i = toks_of (length pre) (String_t s) ! 0" using holds_first [OF assms(1) ok] by metis
  let ?h = "length (integer_to_str (int (length s)))"
  have "0 < ?h" using str_header [OF assms(2)] by (metis length_greater_0_conv list.distinct(1))
  then have "start_offset (bn_tokens n ! i) = ?h + 1" "tk_next (bn_tokens n ! i) = 1"
    using h(3) by (simp_all add: start_offset_def str_token_def token4_def)
  then show ?thesis using h(1,2) by (simp add: string_length_def token_source_span_def)
qed

lemma node_simps [simp]: "node (node_at n j)" "\<not> node null_node" "node_type null_node = T_none"
  by (simp_all add: node_def node_at_def null_node_def node_type_def)

text \<open>The typed lookups in a dictionary.\<close>

lemma entry_ok_value: "entry_ok (Dictionary_t kvs) \<Longrightarrow> map_of kvs key = Some v \<Longrightarrow> entry_ok v"
  by (drule map_of_SomeD) (fastforce simp: list_all_iff)

lemma find_absent:
  assumes "holds n i (Dictionary_t kvs)" "entry_ok (Dictionary_t kvs)" "map_of kvs key = None"
  shows "dict_find_string (node_at n i) key = null_node" "dict_find_list (node_at n i) key = null_node"
  using holds_dict_find [OF assms(1,2), of key] assms(3) by (simp_all add: dict_find_string_def dict_find_list_def)

lemma find_string:
  assumes "holds n i (Dictionary_t kvs)" "entry_ok (Dictionary_t kvs)" "map_of kvs key = Some (String_t s)"
  obtains j where "dict_find_string (node_at n i) key = node_at n j" "string_value (node_at n j) = s"
    "string_length (node_at n j) = int (length s)" "dict_find_string_value (node_at n i) key = s"
proof -
  obtain j where j: "dict_find (node_at n i) key = node_at n j" "holds n j (String_t s)"
    using holds_dict_find [OF assms(1,2), of key] assms(3) by auto
  have ok: "str_ok s" using entry_ok_value [OF assms(2,3)] by simp
  then have "node_type (node_at n j) = T_string" using holds_type [OF j(2)] by simp
  then show thesis
    using that [of j] j holds_string(1) [OF j(2) ok] holds_string_length [OF j(2) ok]
    by (simp add: dict_find_string_def dict_find_string_value_def)
qed

lemma find_int:
  assumes "holds n i (Dictionary_t kvs)" "entry_ok (Dictionary_t kvs)" "map_of kvs key = Some (Int_t v)"
  shows "dict_find_int_or (node_at n i) key d = v"
proof -
  obtain j where j: "dict_find (node_at n i) key = node_at n j" "holds n j (Int_t v)"
    using holds_dict_find [OF assms(1,2), of key] assms(3) by auto
  have ok: "int_ok v" using entry_ok_value [OF assms(2,3)] by simp
  then have "node_type (node_at n j) = T_integer" using holds_type [OF j(2)] by simp
  then show ?thesis using j holds_int [OF j(2) ok] by (simp add: dict_find_int_or_def)
qed

lemma find_dict:
  assumes "holds n i (Dictionary_t kvs)" "entry_ok (Dictionary_t kvs)" "map_of kvs key = Some (Dictionary_t sub)"
  obtains j where "dict_find_dict (node_at n i) key = node_at n j" "holds n j (Dictionary_t sub)"
    "entry_ok (Dictionary_t sub)" "node_type (node_at n j) = T_dict"
proof -
  obtain j where j: "dict_find (node_at n i) key = node_at n j" "holds n j (Dictionary_t sub)"
    using holds_dict_find [OF assms(1,2), of key] assms(3) by auto
  have ok: "entry_ok (Dictionary_t sub)" by (rule entry_ok_value [OF assms(2,3)])
  then have "node_type (node_at n j) = T_dict" using holds_type [OF j(2)] by simp
  then show thesis using that [of j] j ok by (simp add: dict_find_dict_def)
qed

subsection \<open>Names the sanitizer keeps\<close>

definition portable_name :: "string \<Rightarrow> bool" where
  "portable_name s \<longleftrightarrow>
     s \<noteq> [] \<and> s \<noteq> ''.'' \<and> s \<noteq> ''..'' \<and> length s < 240 \<and>
     list_all (\<lambda>c. 32 \<le> code c \<and> code c < 127 \<and> c \<noteq> CHR ''/'' \<and> c \<noteq> CHR 0x5C) s"

lemma parse_utf8_ascii: "code c < 128 \<Longrightarrow> parse_utf8_codepoint (c # s) = (int (code c), 1)"
  by (simp add: parse_utf8_codepoint_def trailing_bytes_def is_legal_utf8_def Let_def utf8_offsets_def)

lemma sanitize_loop_portable:
  assumes "list_all (\<lambda>c. 32 \<le> code c \<and> code c < 127 \<and> c \<noteq> CHR ''/'' \<and> c \<noteq> CHR 0x5C) element"
    and "i \<le> length element" "added + (length element - i) < 240"
  shows "\<exists>d. sanitize_loop element i path added num_dots found = (path @ drop i element, added + (length element - i), d)
     \<and> (d = num_dots + of_nat (count_list (drop i element) CHR ''.''))"
  using assms(2,3)
proof (induction "length element - i" arbitrary: i path added num_dots)
  case 0
  then show ?case by (subst sanitize_loop.simps) simp
next
  case (Suc k)
  then have i: "i < length element" by simp
  define c where "c = element ! i"
  have d: "drop i element = c # drop (Suc i) element" using i by (simp add: c_def Cons_nth_drop_Suc)
  then have one: "take (Suc 0) (drop i element) = [c]" by simp
  have ok: "32 \<le> code c" "code c < 127" "c \<noteq> CHR ''/''" "c \<noteq> CHR 0x5C" using assms(1) i by (simp_all add: c_def list_all_length)
  then have cp: "parse_utf8_codepoint (drop i element) = (int (code c), 1)" unfolding d by (intro parse_utf8_ascii) simp
  have "\<not> filter_path_character (int (code c))" "valid_path_character (int (code c))"
    using ok by (simp_all add: filter_path_character_def valid_path_character_def bad_cp_def)
  moreover have "code c = code CHR ''.'' \<longleftrightarrow> c = CHR ''.''" by (rule of_char_eq_iff)
  moreover have "\<not> 240 \<le> Suc added" using i Suc.prems(2) by linarith
  ultimately have step: "sanitize_loop element i path added num_dots found
      = sanitize_loop element (Suc i) (path @ [c]) (Suc added) (if c = CHR ''.'' then num_dots + 1 else num_dots) found"
    using i by (subst sanitize_loop.simps) (simp add: cp one Let_def)
  show ?case
    using Suc.hyps(1) [of "Suc i" "Suc added" "path @ [c]" "if c = CHR ''.'' then num_dots + 1 else num_dots"] Suc.hyps(2) Suc.prems i
    unfolding step d by (auto simp: algebra_simps)
qed

lemma sanitize_portable:
  assumes "portable_name s"
  shows "sanitize_append_path_element [] s = s"
proof -
  have s: "s \<noteq> []" "s \<noteq> ''.''" "s \<noteq> ''..''" using assms by (simp_all add: portable_name_def)
  let ?d = "of_nat (count_list s CHR ''.'') :: 8 word"
  have l: "sanitize_loop s 0 [] 0 0 False = (s, length s, ?d)"
    using sanitize_loop_portable [of s 0 0 "[]" 0 False] assms by (simp add: portable_name_def)
  have "int (length s) \<noteq> sint ?d" if le: "length s \<le> 2"
  proof -
    obtain a t where a: "s = a # t" using s(1) by (cases s) auto
    have "t = [] \<or> (\<exists>b. t = [b])" using le a by (cases t) auto
    then have "count_list s CHR ''.'' < length s" using s a by (auto split: if_splits)
    moreover from this have "count_list s CHR ''.'' = 0 \<or> count_list s CHR ''.'' = 1" using le by linarith
    ultimately show ?thesis by (elim disjE) simp_all
  qed
  then show ?thesis using s l by (auto simp: sanitize_append_path_element_def)
qed

lemma portable_no_sep:
  assumes "portable_name s"
  shows "sep \<notin> set s" "CHR 0x5C \<notin> set s" "strip_separators s = s" "rsplit_path s = ([], s)"
    "\<not> is_complete s" "\<not> has_parent_path s"
proof -
  show h: "sep \<notin> set s" "CHR 0x5C \<notin> set s" using assms by (auto simp: portable_name_def list_all_iff)
  have s: "s \<noteq> []" using assms by (simp add: portable_name_def)
  then have c: "hd s \<noteq> sep" "last s \<noteq> sep" "last s \<noteq> CHR 0x5C" using h by (metis hd_in_set last_in_set)+
  show "strip_separators s = s" using c s by (cases s) (simp_all add: strip_separators_def)
  show "\<not> is_complete s" using c by (simp add: is_complete_def)
  have t: "takeWhile (\<lambda>c. c \<noteq> sep) (rev s) = rev s" using h(1) by (intro takeWhile_not_in) simp
  show "rsplit_path s = ([], s)" unfolding rsplit_path_def Let_def using c s by (simp add: t)
  show "\<not> has_parent_path s" using c s h by (auto simp: has_parent_path_def is_root_path_def Let_def list_ex_iff)
qed

subsection \<open>A single file\<close>

definition single_storage :: "string \<Rightarrow> int \<Rightarrow> int \<Rightarrow> file_storage" where
  "single_storage name len L =
     \<lparr>fs_name = name, fs_paths = [],
      fs_files = [\<lparr>fe_offset = 0, fe_size = len, fe_no_root_dir = False, fe_path_index = -1, fe_name = name,
                   fe_pad_file = has_infix ''_____padding_file_'' name\<rparr>],
      fs_total_size = len, fs_num_pieces = (len + L - 1) div L, fs_piece_length = L\<rparr>"

lemma add_single_file:
  assumes "portable_name name" "0 \<le> len" "len < 2 ^ 48"
  shows "(add_file_borrow name name len (has_infix ''_____padding_file_'' name) (empty_storage\<lparr>fs_piece_length := L\<rparr>))
    \<lparr>fs_num_pieces := (len + L - 1) div L\<rparr> = single_storage name len L"
proof -
  note p = portable_no_sep [OF assms(1)]
  have s: "name \<noteq> []" "\<not> name_is_owned \<le> length name" using assms(1) by (simp_all add: portable_name_def name_is_owned_def)
  show ?thesis using s p assms(2,3)
    by (simp add: add_file_borrow_def added_name_def update_path_index_def set_name_borrowed internal_file_entry_def
        single_storage_def empty_storage_def)
qed

text \<open>The keys of an info section that matter: a single file, with any other keys beside them.\<close>

definition single_file_info :: "(string \<times> entry) list \<Rightarrow> string \<Rightarrow> int \<Rightarrow> int \<Rightarrow> string \<Rightarrow> bool" where
  "single_file_info kvs name len L hashes \<longleftrightarrow>
     map_of kvs ''length'' = Some (Int_t len) \<and> map_of kvs ''name'' = Some (String_t name) \<and>
     map_of kvs ''piece length'' = Some (Int_t L) \<and> map_of kvs ''pieces'' = Some (String_t hashes) \<and>
     map_of kvs ''name.utf-8'' = None \<and> map_of kvs ''files'' = None \<and> map_of kvs ''attr'' = None"

definition single_ok :: "string \<Rightarrow> int \<Rightarrow> int \<Rightarrow> string \<Rightarrow> bool" where
  "single_ok name len L hashes \<longleftrightarrow>
     portable_name name \<and> 0 \<le> len \<and> len < 2 ^ 48 \<and> 0 < L \<and> L < 2 ^ 30 \<and> (len + L - 1) div L \<le> 2 ^ 20 \<and>
     int (length hashes) = 20 * ((len + L - 1) div L)"

lemma single_pieces:
  assumes "single_ok name len L hashes"
  shows "len < (int_max - L) * L" "cint (cdiv (len + L - 1) L) = (len + L - 1) div L" "0 \<le> (len + L - 1) div L"
proof -
  let ?n = "(len + L - 1) div L"
  have ok: "0 \<le> len" "0 < L" "L < 2 ^ 30" "?n \<le> 2 ^ 20" using assms by (simp_all add: single_ok_def)
  show n: "0 \<le> ?n" using ok by (simp add: pos_imp_zdiv_nonneg_iff)
  then show "cint (cdiv (len + L - 1) L) = ?n" using ok by (simp add: cdiv_def)
  have "len + L - 1 = ?n * L + (len + L - 1) mod L" by simp
  moreover have "(len + L - 1) mod L < L" using ok by simp
  moreover have "?n * L \<le> 2 ^ 20 * L" using ok by (intro mult_right_mono) simp_all
  ultimately have "len \<le> 2 ^ 20 * L" by linarith
  also have "\<dots> < (int_max - L) * L" using ok by (intro mult_strict_right_mono) (simp_all add: int_max_def)
  finally show "len < (int_max - L) * L" .
qed

lemma single_file_extracted:
  assumes "holds n i (Dictionary_t kvs)" "entry_ok (Dictionary_t kvs)"
    and "single_file_info kvs name len L hashes" "single_ok name len L hashes"
  shows "info_files (node_at n i) h L = Inr (single_storage name len L)"
proof -
  let ?info = "node_at n i" and ?fs = "empty_storage\<lparr>fs_piece_length := L\<rparr>"
  let ?added = "add_file_borrow name name len (has_infix ''_____padding_file_'' name) ?fs"
  note k = assms(3) [unfolded single_file_info_def] and ok = assms(4) [unfolded single_ok_def]
  note a = find_absent [OF assms(1,2)]
  obtain j where j: "dict_find_string ?info ''name'' = node_at n j" "string_value (node_at n j) = name"
    "string_length (node_at n j) = int (length name)"
    by (rule find_string [OF assms(1,2) conjunct1 [OF conjunct2 [OF k]]])
  have name: "first_node (dict_find_string ?info ''name.utf-8'') (dict_find_string ?info ''name'') = node_at n j"
    using a(1) [of "''name.utf-8''"] k j(1) by (simp add: first_node_def)
  have ne: "name \<noteq> []" using ok by (simp add: portable_name_def)
  have p: "sanitize_append_path_element [] name = name" "strip_separators name = name"
    using ok sanitize_portable portable_no_sep(3) by blast+
  have "top_level_path ?info [] = Inr (name, name)"
    unfolding top_level_path_def Let_def name using j(2,3) ne p by simp
  moreover have "get_file_attributes ?info = \<lparr>flag_symlink = False, flag_executable = False, flag_hidden = False, flag_pad_file = False\<rparr>"
    using a(1) [of "''attr''"] k by (simp add: get_file_attributes_def)
  moreover have "dict_find_int_or ?info ''length'' (-1) = len" using find_int [OF assms(1,2)] k by blast
  moreover have "node_type ?info = T_dict" using holds_type [OF assms(1,2)] by simp
  ultimately have x: "extract_single_file ?info ?fs [] True 0 = Inr (?added, 0)"
    using ok by (simp add: extract_single_file_def)
  have s: "?added\<lparr>fs_num_pieces := (len + L - 1) div L\<rparr> = single_storage name len L"
    using add_single_file ok by blast
  have f: "fs_files ?added \<noteq> []" "fs_name ?added = name" "fs_total_size ?added = len" "fs_piece_length ?added = L"
    using arg_cong [OF s, of fs_files] arg_cong [OF s, of fs_name] arg_cong [OF s, of fs_total_size] arg_cong [OF s, of fs_piece_length]
    by (simp_all add: single_storage_def)
  have small: "len < (int_max - L) * L" "cint (cdiv (len + L - 1) L) = (len + L - 1) div L"
    using single_pieces [OF assms(4)] by simp_all
  have "dict_find_list ?info ''files'' = null_node" using a(2) k by blast
  then show ?thesis
    unfolding info_files_def Let_def name using x f small s ne by simp
qed

lemma single_file_hashes:
  assumes "holds n i (Dictionary_t kvs)" "entry_ok (Dictionary_t kvs)"
    and "single_file_info kvs name len L hashes" "single_ok name len L hashes"
  shows "info_hashes (node_at n i) (single_storage name len L) default_piece_limit = Inr (bytes_of hashes, [], 0)"
proof -
  have k: "map_of kvs ''pieces'' = Some (String_t hashes)" using assms(3) by (simp add: single_file_info_def)
  obtain j where j: "dict_find_string (node_at n i) ''pieces'' = node_at n j" "string_value (node_at n j) = hashes"
    "string_length (node_at n j) = int (length hashes)" by (rule find_string [OF assms(1,2) k])
  have "fs_num_pieces (single_storage name len L) = (len + L - 1) div L" by (simp add: single_storage_def)
  then show ?thesis using j assms(4) single_pieces(3) [OF assms(4)]
    by (simp add: info_hashes_def single_ok_def int_max_def default_piece_limit_def)
qed

text \<open>What loading the torrent file gives.\<close>

definition single_torrent :: "load_env \<Rightarrow> (string \<times> entry) list \<Rightarrow> string \<Rightarrow> int \<Rightarrow> int \<Rightarrow> string \<Rightarrow> string \<Rightarrow> torrent" where
  "single_torrent E kvs name len L hashes url =
     \<lparr>to_files = single_storage name len L, to_info_hash = le_sha1 E (bytes_of (bencode (Dictionary_t kvs))),
      to_piece_hashes = bytes_of hashes, to_merkle_tree = [], to_merkle_first_leaf = 0, to_urls = [(url, 0)]\<rparr>"

lemma single_section_parsed:
  assumes "holds n i (Dictionary_t kvs)" "entry_ok (Dictionary_t kvs)"
    and "single_file_info kvs name len L hashes" "single_ok name len L hashes"
    and "int (length (bencode (Dictionary_t kvs))) < int_max"
  shows "parse_info_section (le_sha1 E) (node_at n i) default_piece_limit empty_torrent
    = (None, True, (single_torrent E kvs name len L hashes url)\<lparr>to_urls := []\<rparr>)"
proof -
  have "map_of kvs ''piece length'' = Some (Int_t L)" using assms(3) by (simp add: single_file_info_def)
  then have L: "dict_find_int_or (node_at n i) ''piece length'' (-1) = L" by (rule find_int [OF assms(1,2)])
  have "0 < L" "L \<le> int_max" using assms(4) by (simp_all add: single_ok_def int_max_def)
  then show ?thesis
    using holds_type [OF assms(1,2)] holds_section [OF assms(1,2)] assms(5)
    by (simp add: parse_info_section_def L single_file_extracted [OF assms(1-4)] single_file_hashes [OF assms(1-4)]
        single_torrent_def empty_torrent_def Let_def)
qed

lemma single_no_duplicates:
  "resolve_duplicate_filenames crc ord fuel (single_storage name len L) = Some (single_storage name len L)"
  by (simp add: resolve_duplicate_filenames_def single_storage_def file_range_def all_path_hashes_def)

lemma single_announce:
  assumes "holds n i (Dictionary_t tkvs)" "entry_ok (Dictionary_t tkvs)"
    and "map_of tkvs ''announce'' = Some (String_t url)" "map_of tkvs ''announce-list'' = None" "url \<noteq> []" "\<not> is_space (hd url)"
  shows "announce_urls shuffle (node_at n i) = [(url, 0)]"
proof -
  have "dict_find_string_value (node_at n i) ''announce'' = url" using find_string [OF assms(1-3)] by metis
  moreover have "trim url = url" using assms(5,6) by (cases url) (simp_all add: trim_def)
  ultimately show ?thesis using find_absent(2) [OF assms(1,2,4)] assms(5) by (simp add: announce_urls_def)
qed

lemma created_parsed:
  assumes "holds n i (Dictionary_t tkvs)" "entry_ok (Dictionary_t tkvs)" "int (length (bn_buffer n)) \<le> max_offset"
    and "map_of tkvs ''info'' = Some (Dictionary_t kvs)" "single_file_info kvs name len L hashes" "single_ok name len L hashes"
    and "map_of tkvs ''announce'' = Some (String_t url)" "map_of tkvs ''announce-list'' = None" "url \<noteq> []" "\<not> is_space (hd url)"
  shows "parse_torrent_file E (node_at n i) default_piece_limit empty_torrent
    = Some (None, True, single_torrent E kvs name len L hashes url)"
proof -
  let ?t = "single_torrent E kvs name len L hashes url"
  obtain j where j: "dict_find_dict (node_at n i) ''info'' = node_at n j" "holds n j (Dictionary_t kvs)" "entry_ok (Dictionary_t kvs)"
    by (rule find_dict [OF assms(1,2,4)])
  have "int (length (bencode (Dictionary_t kvs))) < int_max"
    using holds_length [OF j(2)] assms(3) by (simp add: max_offset_def int_max_def)
  note p = single_section_parsed [OF j(2,3) assms(5,6) this, of E url]
  have t: "to_files (?t\<lparr>to_urls := []\<rparr>) = single_storage name len L"
    "?t\<lparr>to_urls := [], to_files := single_storage name len L, to_urls := [(url, 0)]\<rparr> = ?t" by (simp_all add: single_torrent_def)
  have d: "node_type (node_at n i) = T_dict" using holds_type [OF assms(1,2)] by simp
  show ?thesis
    unfolding parse_torrent_file_def Let_def j(1) p single_announce [OF assms(1,2,7-10)]
    by (simp only: d node_simps if_False simp_thms prod.case bool.case t(1) single_no_duplicates option.case t(2))
qed

text \<open>C7: loading is complete for torrent files of a single file with one tracker. Encode a dictionary, within
  the limits of the decoder, with an announce URL that is not empty and starts with no space, no
  announce list, and an info section with a name, a length, a piece length and hashes, and without the
  keys \<open>name.utf-8\<close>, \<open>files\<close> and \<open>attr\<close>; any other keys are allowed in both dictionaries. The name is plain
  ASCII of less than 240 characters, the length is below 2 ^ 48, the piece length below 2 ^ 30, and there
  are at most 2 ^ 20 pieces with a hash each. Loading the encoded string gives no error and
  exactly the torrent that was described: one file of that name and length, the hashes of its
  pieces, the tracker, and as info hash the hash of the encoded info section.\<close>

theorem created_torrent_loads:
  assumes "entry_ok (Dictionary_t tkvs)" "depth (Dictionary_t tkvs) < 100"
    and "length (toks_of 0 (Dictionary_t tkvs)) \<le> 2000000" "int (length (bencode (Dictionary_t tkvs))) \<le> max_offset"
    and "map_of tkvs ''info'' = Some (Dictionary_t kvs)" "single_file_info kvs name len L hashes" "single_ok name len L hashes"
    and "map_of tkvs ''announce'' = Some (String_t url)" "map_of tkvs ''announce-list'' = None" "url \<noteq> []" "\<not> is_space (hd url)"
  shows "load_torrent E (bencode (Dictionary_t tkvs)) = Some (None, single_torrent E kvs name len L hashes url)"
proof -
  let ?e = "Dictionary_t tkvs" and ?t = "single_torrent E kvs name len L hashes url"
  let ?tail = "token4 (length (bencode ?e)) 0 T_end 0"
  let ?n = "\<lparr>bn_tokens = toks_of 0 ?e @ [?tail], bn_buffer = bencode ?e, bn_idx = 0\<rparr>"
  have d: "bdecode (bencode ?e) 100 2000000 = (None, ?n)" using assms(1-4) by (intro bdecode_bencode) simp_all
  have h: "holds ?n 0 ?e" by (rule holds_intro [of _ "[]" "[]" _ "[?tail]" _ "[]"]) (simp_all add: token4_def)
  have n: "?n = node_at ?n 0" by (simp add: node_at_def)
  have "parse_torrent_file E (node_at ?n 0) default_piece_limit empty_torrent = Some (None, True, ?t)"
    using created_parsed [OF h] assms by simp
  then show ?thesis unfolding load_torrent_def d using n by simp
qed

theorem created_torrent_loads_witness:
  "load_torrent small_env (''d8:announce10:http://t/a7:comment2:hi4:infod6:lengthi5e4:name5:a.txt12:piece lengthi4e6:pieces40:''
       @ replicate 40 CHR ''x'' @ ''7:privatei1eee'')
     = Some (None, single_torrent small_env
         [(''length'', Int_t 5), (''name'', String_t ''a.txt''), (''piece length'', Int_t 4),
          (''pieces'', String_t (replicate 40 CHR ''x'')), (''private'', Int_t 1)]
         ''a.txt'' 5 4 (replicate 40 CHR ''x'') ''http://t/a'')"
proof -
  let ?h = "replicate 40 CHR ''x''"
  let ?kvs = "[(''length'', Int_t 5), (''name'', String_t ''a.txt''), (''piece length'', Int_t 4),
    (''pieces'', String_t ?h), (''private'', Int_t 1)]"
  let ?tkvs = "[(''announce'', String_t ''http://t/a''), (''comment'', String_t ''hi''), (''info'', Dictionary_t ?kvs)]"
  have b: "bencode (Dictionary_t ?tkvs) = ''d8:announce10:http://t/a7:comment2:hi4:infod6:lengthi5e4:name5:a.txt12:piece lengthi4e6:pieces40:''
       @ ?h @ ''7:privatei1eee''" by code_simp
  have e: "entry_ok (Dictionary_t ?tkvs)" "depth (Dictionary_t ?tkvs) < 100" by (simp_all add: int_ok_def str_ok_def)
  have t: "length (toks_of 0 (Dictionary_t ?tkvs)) \<le> 2000000" by (simp add: box_def Let_def)
  have l: "int (length (bencode (Dictionary_t ?tkvs))) \<le> max_offset" unfolding b by (simp add: max_offset_def)
  have i: "map_of ?tkvs ''info'' = Some (Dictionary_t ?kvs)" "single_file_info ?kvs ''a.txt'' 5 4 ?h"
    by (simp_all add: single_file_info_def)
  have "portable_name ''a.txt''" by code_simp
  then have o: "single_ok ''a.txt'' 5 4 ?h" by (simp add: single_ok_def)
  have u: "map_of ?tkvs ''announce'' = Some (String_t ''http://t/a'')" "map_of ?tkvs ''announce-list'' = None"
    "\<not> is_space (hd ''http://t/a'')" by (simp_all add: is_space_def)
  show ?thesis using created_torrent_loads [OF e t l i o u(1,2) _ u(3), of small_env] unfolding b by simp
qed

subsection \<open>The announce list\<close>

text \<open>
  The trackers that a torrent file declares, read off the encoded values: the strings of the lists in
  the announce list that are not blank, without their leading spaces, with the number of their
  tier, which the program keeps in a byte; if there is no such string, the one of the announce key.
\<close>

fun url_item :: "byte \<Rightarrow> entry \<Rightarrow> (string \<times> byte) list" where
  "url_item tier (String_t u) = (if list_all is_space u then [] else [(dropWhile is_space u, tier)])"
| "url_item tier _ = []"

fun tier_items :: "nat \<Rightarrow> entry \<Rightarrow> (string \<times> byte) list" where
  "tier_items j (List_t es) = concat (map (url_item (word_of_nat j)) es)"
| "tier_items j _ = []"

definition listed_trackers :: "entry option \<Rightarrow> (string \<times> byte) list" where
  "listed_trackers e =
     (case e of Some (List_t tiers) \<Rightarrow> concat (map (\<lambda>(j, tier). tier_items j tier) (enumerate 0 tiers)) | _ \<Rightarrow> [])"

definition single_tracker :: "entry option \<Rightarrow> (string \<times> byte) list" where
  "single_tracker e = (case e of Some u \<Rightarrow> url_item 0 u | None \<Rightarrow> [])"

inductive_cases decodes_stringE: "decodes_to n (String_t s)"
inductive_cases decodes_listE: "decodes_to n (List_t es)"
inductive_cases decodes_dictE: "decodes_to n (Dictionary_t kvs)"

lemma trim_Nil: "trim u = [] \<longleftrightarrow> list_all is_space u"
  by (simp add: trim_def list_all_iff)

lemma decodes_string_value:
  assumes "decodes_to n e" "s = (if node_type n \<noteq> T_string then [] else string_value n)"
  shows "(let url = trim s in if url \<noteq> [] then [(url, b)] else []) = url_item b e"
  using assms(1) unfolding assms(2) by (cases rule: decodes_to.cases) (simp_all add: trim_Nil, simp_all add: trim_def)

lemma urls_concat: "map (\<lambda>url. (url, b)) (filter (\<lambda>url. url \<noteq> []) (map f ks))
    = concat (map (\<lambda>k. let url = f k in if url \<noteq> [] then [(url, b)] else []) ks)"
  by (induction ks) simp_all

lemma tier_urls_decodes:
  assumes "decodes_to (list_at n j) tier"
  shows "tier_urls n j = tier_items j tier"
proof (cases "\<exists>es. tier = List_t es")
  case True
  then obtain es where es: "tier = List_t es" by blast
  let ?t = "list_at n j"
  have t: "node_type ?t = T_list" "list_size ?t = length es" "\<forall>k<length es. decodes_to (list_at ?t k) (es ! k)"
    using assms unfolding es by (auto elim: decodes_listE)
  have "(let url = trim (list_string_value_at ?t k) in if url \<noteq> [] then [(url, word_of_nat j)] else [])
      = url_item (word_of_nat j) (es ! k)" if "k < length es" for k
    using t(3) that by (intro decodes_string_value) (auto simp: list_string_value_at_def Let_def)
  then have "map (\<lambda>k. let url = trim (list_string_value_at ?t k) in if url \<noteq> [] then [(url, word_of_nat j)] else [])
      [0..<length es] = map (url_item (word_of_nat j)) es"
    by - (rule nth_equalityI, simp_all)
  then show ?thesis using t(1,2) unfolding tier_urls_def urls_concat es by simp
next
  case False
  then have "node_type (list_at n j) \<noteq> T_list" using assms by (auto elim: decodes_to.cases)
  then show ?thesis using False by (cases tier) (simp_all add: tier_urls_def)
qed

lemma tiers_decode:
  assumes "decodes_to n (List_t tiers)"
  shows "concat (map (tier_urls n) [0..<list_size n]) = listed_trackers (Some (List_t tiers))"
proof -
  have t: "list_size n = length tiers" "\<forall>k<length tiers. decodes_to (list_at n k) (tiers ! k)"
    using assms by (auto elim: decodes_listE)
  then have "map (tier_urls n) [0..<list_size n] = map (\<lambda>(j, tier). tier_items j tier) (enumerate 0 tiers)"
    by - (rule nth_equalityI, simp_all add: nth_enumerate_eq tier_urls_decodes)
  then show ?thesis by (simp add: listed_trackers_def)
qed

lemma announce_list_decodes:
  assumes "decodes_to n (List_t tiers)" "\<And>xs. mset (shuffle xs) = mset xs"
  shows "mset (announce_list shuffle n) = mset (listed_trackers (Some (List_t tiers)))"
    "sorted (map (\<lambda>e. unat (snd e)) (announce_list shuffle n))"
  using assms(2) unfolding announce_list_def Let_def tiers_decode [OF assms(1)]
  by (cases "listed_trackers (Some (List_t tiers)) = []"; simp)+

lemma announce_urls_decodes:
  assumes "decodes_to n (Dictionary_t kvs)" "distinct (map fst kvs)" "\<And>xs. mset (shuffle xs) = mset xs"
  shows "if listed_trackers (map_of kvs ''announce-list'') = []
    then announce_urls shuffle n = single_tracker (map_of kvs ''announce'')
    else mset (announce_urls shuffle n) = mset (listed_trackers (map_of kvs ''announce-list''))
      \<and> sorted (map (\<lambda>e. unat (snd e)) (announce_urls shuffle n))"
proof -
  have f: "case map_of kvs k of None \<Rightarrow> dict_find n k = null_node | Some v \<Rightarrow> decodes_to (dict_find n k) v" for k
    using assms(1) by (auto elim!: decodes_dictE split: option.splits simp: map_of_eq_None_iff dest: map_of_SomeD)
  let ?l = "dict_find_list n ''announce-list''"
  let ?urls = "if node ?l then announce_list shuffle ?l else []"
  have l: "mset ?urls = mset (listed_trackers (map_of kvs ''announce-list''))" "sorted (map (\<lambda>e. unat (snd e)) ?urls)"
  proof -
    consider tiers where "map_of kvs ''announce-list'' = Some (List_t tiers)" "decodes_to (dict_find n ''announce-list'') (List_t tiers)"
      | "listed_trackers (map_of kvs ''announce-list'') = []" "node_type (dict_find n ''announce-list'') \<noteq> T_list"
      using f [of "''announce-list''"]
      by (cases "map_of kvs ''announce-list''"; cases "the (map_of kvs ''announce-list'')")
        (auto simp: listed_trackers_def elim: decodes_to.cases)
    then have "mset ?urls = mset (listed_trackers (map_of kvs ''announce-list'')) \<and> sorted (map (\<lambda>e. unat (snd e)) ?urls)"
    proof cases
      case 1
      then have "?l = dict_find n ''announce-list''" "node ?l"
        by (auto simp: dict_find_list_def node_def node_type_def elim!: decodes_listE)
      then show ?thesis using announce_list_decodes [OF 1(2) assms(3)] 1(1) by simp
    next
      case 2
      then show ?thesis by (simp add: dict_find_list_def)
    qed
    then show "mset ?urls = mset (listed_trackers (map_of kvs ''announce-list''))" "sorted (map (\<lambda>e. unat (snd e)) ?urls)"
      by simp_all
  qed
  have a: "(let url = trim (dict_find_string_value n ''announce'') in if url \<noteq> [] then [(url, 0)] else [])
      = single_tracker (map_of kvs ''announce'')"
  proof (cases "map_of kvs ''announce''")
    case None
    then show ?thesis using f [of "''announce''"] by (simp add: dict_find_string_value_def single_tracker_def trim_def)
  next
    case (Some v)
    then have "decodes_to (dict_find n ''announce'') v" using f [of "''announce''"] by simp
    then have "(let url = trim (dict_find_string_value n ''announce'') in if url \<noteq> [] then [(url, 0)] else []) = url_item 0 v"
      by (rule decodes_string_value) (simp add: dict_find_string_value_def Let_def)
    then show ?thesis using Some by (simp add: single_tracker_def)
  qed
  have e: "?urls = [] \<longleftrightarrow> listed_trackers (map_of kvs ''announce-list'') = []" 
    using arg_cong [OF l(1), of "\<lambda>m. m = {#}"] by (simp only: mset_zero_iff)
  have u: "announce_urls shuffle n = (if ?urls = [] then single_tracker (map_of kvs ''announce'') else ?urls)"
    unfolding announce_urls_def Let_def a [unfolded Let_def] by (rule HOL.refl)
  show ?thesis using l e unfolding u by simp
qed

lemma loaded_urls:
  assumes "load_torrent E buffer = Some (None, t)" "fs_files (to_files t) \<noteq> []"
    and "bdecode buffer 100 2000000 = (None, n)"
  shows "to_urls t = announce_urls (le_shuffle E) n"
proof -
  obtain b where p: "parse_torrent_file E n default_piece_limit empty_torrent = Some (None, b, t)"
    using assms(1,3) by (auto simp: load_torrent_def)
  have empty: "fs_files (to_files empty_torrent) = []" by (simp add: empty_torrent_def empty_storage_def)
  show ?thesis
    using p assms(2) empty
    by (auto simp: parse_torrent_file_def parse_info_section_def Let_def split: if_splits sum.splits prod.splits option.splits bool.splits)
qed

text \<open>C28: the trackers of a torrent. Encode any dictionary within the limits of the decoder; if
  loading it gives no error and a torrent that has files, then the trackers of the torrent are exactly
  the strings in the lists of its announce list that are not blank, without their leading spaces, each
  with the number of its tier modulo 256, and ordered by it, whatever permutation the random
  shuffle is; and if the announce list has no such string or there is none, the tracker is the
  one of the announce key, if that is a string that is not blank.\<close>

theorem loaded_trackers:
  assumes "entry_ok (Dictionary_t tkvs)" "depth (Dictionary_t tkvs) < 100"
    and "length (toks_of 0 (Dictionary_t tkvs)) \<le> 2000000" "int (length (bencode (Dictionary_t tkvs))) \<le> max_offset"
    and "load_torrent E (bencode (Dictionary_t tkvs)) = Some (None, t)" "fs_files (to_files t) \<noteq> []"
    and "\<And>xs. mset (le_shuffle E xs) = mset xs"
  shows "if listed_trackers (map_of tkvs ''announce-list'') = []
    then to_urls t = single_tracker (map_of tkvs ''announce'')
    else mset (to_urls t) = mset (listed_trackers (map_of tkvs ''announce-list''))
      \<and> sorted (map (\<lambda>e. unat (snd e)) (to_urls t))"
proof -
  obtain n where n: "bdecode (bencode (Dictionary_t tkvs)) 100 2000000 = (None, n)" "decodes_to n (Dictionary_t tkvs)"
    using decoded_within [OF assms(1,2) _ assms(4), of 2000000] assms(3) by auto
  have "distinct (map fst tkvs)" using assms(1) by simp
  then show ?thesis
    using announce_urls_decodes [OF n(2) _ assms(7)] unfolding loaded_urls [OF assms(5,6) n(1)] by simp
qed

theorem loaded_trackers_witness:
  "\<exists>t. load_torrent small_env ''d13:announce-listll3:u:c1: e1:xl4: u:aee4:infod6:lengthi0e4:name1:a12:piece lengthi4e6:pieces0:ee''
         = Some (None, t) \<and> mset (to_urls t) = {#(''u:c'', 0), (''u:a'', 2)#} \<and> sorted (map (\<lambda>e. unat (snd e)) (to_urls t))"
proof -
  let ?l = "List_t [List_t [String_t ''u:c'', String_t '' ''], String_t ''x'', List_t [String_t '' u:a'']]"
  let ?d = "[(''announce-list'', ?l), (''info'', Dictionary_t [(''length'', Int_t 0), (''name'', String_t ''a''),
    (''piece length'', Int_t 4), (''pieces'', String_t [])])]"
  have b: "bencode (Dictionary_t ?d)
      = ''d13:announce-listll3:u:c1: e1:xl4: u:aee4:infod6:lengthi0e4:name1:a12:piece lengthi4e6:pieces0:ee''" by code_simp
  have e: "entry_ok (Dictionary_t ?d)" "depth (Dictionary_t ?d) < 100" by (simp_all add: int_ok_def str_ok_def)
  have k: "length (toks_of 0 (Dictionary_t ?d)) \<le> 2000000" by (simp add: box_def Let_def)
  have m: "int (length (bencode (Dictionary_t ?d))) \<le> max_offset" unfolding b by (simp add: max_offset_def)
  have "case load_torrent small_env (bencode (Dictionary_t ?d)) of Some (None, t) \<Rightarrow> fs_files (to_files t) \<noteq> [] | _ \<Rightarrow> False"
    by code_simp
  then obtain t where t: "load_torrent small_env (bencode (Dictionary_t ?d)) = Some (None, t)" "fs_files (to_files t) \<noteq> []"
    by (auto split: option.splits prod.splits)
  have l: "listed_trackers (map_of ?d ''announce-list'') = [(''u:c'', 0), (''u:a'', 2)]"
    by (simp add: listed_trackers_def is_space_def)
  have "mset (le_shuffle small_env xs) = mset xs" for xs by (simp add: small_env_def)
  then show ?thesis using loaded_trackers [OF e k m t] t(1) unfolding l b by auto
qed

end
