(* ===== verification/Session_Progress.thy ===== *)
theory Session_Progress
  imports Session_Threads Complex_Main
begin

section \<open>The progress bar\<close>

text \<open>
  \<open>completed\<close> and \<open>print_progress\<close> of \<open>src/session.cpp\<close>, and what the main thread of
  \<open>Session_Threads\<close> prints. The percentage is computed in single precision: \<open>f32\<close> rounds a
  non-negative rational number to the nearest number with 24 significant bits, ties to even. The
  values are between 2 ^ -20 and 2 ^ 27, so that exponents never leave the range of the format.
  Shown is when the percentage reaches 100, and that the bar fits its line.
\<close>

subsection \<open>Single precision\<close>

definition round_even :: "rat \<Rightarrow> int" where
  "round_even x =
     (let q = \<lfloor>x\<rfloor>; r = x - of_int q in if r > 1 / 2 \<or> (r = 1 / 2 \<and> odd q) then q + 1 else q)"

text \<open>The exponent of the largest power of two that is not above a positive number.\<close>

definition floor_log2 :: "rat \<Rightarrow> int" where
  "floor_log2 x =
     (if 1 \<le> x then int (bitlen (nat \<lfloor>x\<rfloor>)) - 1 else - int (bitlen (nat (\<lceil>1 / x\<rceil> - 1))))"

definition f32 :: "rat \<Rightarrow> rat" where
  "f32 x =
     (if x = 0 then 0
      else let ulp = 2 powi (floor_log2 x - 23) in of_int (round_even (x / ulp)) * ulp)"

subsection \<open>The session\<close>

definition completed :: "int \<Rightarrow> int \<Rightarrow> rat" where
  "completed written num_pieces =
     f32 (f32 (100 * f32 (of_int written)) / f32 (of_int num_pieces))"

text \<open>
  A number written with \<open>std::fixed\<close> and two decimals, and a string behind spaces that fill
  \<open>std::setw\<close>; the width \<open>101 - progress_str.size()\<close> wraps around and becomes a negative \<open>int\<close>
  for bars of more than 101 characters, which fills nothing.
\<close>

definition fixed2 :: "rat \<Rightarrow> string" where
  "fixed2 x =
     (let c = round_even (x * 100)
      in dec_int (c div 100) @ ''.'' @ [digit (nat (c div 10 mod 10)), digit (nat (c mod 10))])"

definition setw :: "int \<Rightarrow> string \<Rightarrow> string" where
  "setw width str = replicate (nat width - length str) CHR '' '' @ str"

text \<open>The bar and what is printed.\<close>

definition print_progress :: "int \<Rightarrow> int \<Rightarrow> string \<Rightarrow> string \<times> string" where
  "print_progress written num_pieces progress_str =
     (let progress_percentage = completed written num_pieces;
          is_done = (progress_percentage \<ge> 100)
      in if is_done \<or> progress_percentage > f32 (of_nat (length progress_str))
         then
           let progress_str = progress_str @ ''#''
           in (progress_str,
               [CHR 0x0D] @ fixed2 progress_percentage @ ''% completed ['' @ progress_str
               @ setw (101 - int (length progress_str)) '']'' @ (if is_done then [CHR 0x0A] else []))
         else (progress_str, []))"

text \<open>The threads together with \<open>progress_str\<close> and all output so far.\<close>

type_synonym ('b, 'w) display = "('b, 'w) threads \<times> string \<times> string"

definition pieces_written :: "('b, 'w) threads \<Rightarrow> int" where
  "pieces_written t = ph_written (sh_pieces (ss_shared (th_sess t)))"

inductive display_step :: "('b, 'w) env \<Rightarrow> ('b, 'w) display \<Rightarrow> ('b, 'w) display \<Rightarrow> bool" for V where
  prints: "thread_step V Main_step t t' \<Longrightarrow> th_main t = M_print \<Longrightarrow>
    print_progress (pieces_written t) (fs_num_pieces (ti_files (en_ti V))) bar = (bar', line) \<Longrightarrow>
    display_step V (t, bar, out) (t', bar', out @ line)"
| silent: "thread_step V c t t' \<Longrightarrow> \<not> (c = Main_step \<and> th_main t = M_print) \<Longrightarrow>
    display_step V (t, bar, out) (t', bar, out)"

inductive display_reach :: "('b, 'w) env \<Rightarrow> ('b, 'w) display \<Rightarrow> ('b, 'w) display \<Rightarrow> bool" for V where
  display_refl: "display_reach V d d"
| display_trans: "display_reach V d e \<Longrightarrow> display_step V e f \<Longrightarrow> display_reach V d f"

subsection \<open>Rounding\<close>

lemma round_even_cases:
  obtains (up) "round_even x = \<lfloor>x\<rfloor> + 1" "1 / 2 \<le> x - of_int \<lfloor>x\<rfloor>"
  | (down) "round_even x = \<lfloor>x\<rfloor>" "x - of_int \<lfloor>x\<rfloor> \<le> 1 / 2"
  unfolding round_even_def Let_def by (metis linorder_not_less order_less_imp_le order_refl)

lemma round_even_bounds: "x - 1 / 2 \<le> of_int (round_even x)" "of_int (round_even x) \<le> x + 1 / 2"
proof -
  have f: "of_int \<lfloor>x\<rfloor> \<le> x" "x < of_int \<lfloor>x\<rfloor> + 1" by linarith+
  have "x - 1 / 2 \<le> of_int (round_even x) \<and> of_int (round_even x) \<le> x + 1 / 2"
  proof (cases x rule: round_even_cases)
    case up
    then have "(of_int (round_even x) :: rat) = of_int \<lfloor>x\<rfloor> + 1" by simp
    then show ?thesis using f up(2) by linarith
  next
    case down
    then have "(of_int (round_even x) :: rat) = of_int \<lfloor>x\<rfloor>" by simp
    then show ?thesis using f down(2) by linarith
  qed
  then show "x - 1 / 2 \<le> of_int (round_even x)" "of_int (round_even x) \<le> x + 1 / 2" by simp_all
qed

lemma round_even_int [simp]: "round_even (of_int k) = k"
  by (simp add: round_even_def)

lemma round_even_half: "round_even (of_int q + 1 / 2) = (if odd q then q + 1 else q)"
proof -
  have "\<lfloor>of_int q + 1 / 2 :: rat\<rfloor> = q" by (simp add: floor_eq_iff)
  then show ?thesis by (simp add: round_even_def)
qed

text \<open>Half a unit below an even number is rounded up.\<close>

lemma round_even_ge:
  assumes "even k"
  shows "k \<le> round_even x \<longleftrightarrow> of_int k - 1 / 2 \<le> x"
proof
  assume "k \<le> round_even x"
  then have "of_int k \<le> (of_int (round_even x) :: rat)" by simp
  then show "of_int k - 1 / 2 \<le> x" using round_even_bounds(2) [of x] by linarith
next
  assume h: "of_int k - 1 / 2 \<le> x"
  show "k \<le> round_even x"
  proof (cases "x = of_int k - 1 / 2")
    case True
    then have "\<lfloor>x\<rfloor> = k - 1" by (simp add: floor_eq_iff)
    then show ?thesis using True assms by (simp add: round_even_def)
  next
    case False
    then have "of_int (k - 1) < (of_int (round_even x) :: rat)" using h round_even_bounds(1) [of x] by simp
    then show ?thesis by simp
  qed
qed

lemma bitlen_between: "2 ^ m \<le> n \<Longrightarrow> n < 2 ^ Suc m \<Longrightarrow> bitlen n = Suc m"
proof (induction m arbitrary: n)
  case 0
  then have "n = 1" by simp
  then show ?case by (simp add: bitlen.simps)
next
  case (Suc m)
  then have "2 ^ m \<le> n div 2" "n div 2 < 2 ^ Suc m" by auto
  then have "bitlen (n div 2) = Suc m" by (rule Suc.IH)
  moreover have "n \<noteq> 0" using Suc.prems(1) by (cases n) simp_all
  ultimately show ?case by (subst bitlen.simps) simp
qed

lemma bitlen_nat:
  assumes "2 ^ m \<le> z" "z < 2 ^ Suc m"
  shows "bitlen (nat z) = Suc m"
proof -
  have "nat (2 ^ m) \<le> nat z" using assms(1) by (rule nat_mono)
  moreover have "nat z < nat (2 ^ Suc m)" using assms(2) by (intro nat_mono_iff [THEN iffD2]) simp_all
  ultimately show ?thesis by (intro bitlen_between) (simp_all add: nat_power_eq nat_mult_distrib)
qed

lemma floor_log2_nonneg:
  assumes "2 ^ m \<le> x" "x < 2 ^ Suc m"
  shows "floor_log2 x = int m"
proof -
  have "(1 :: rat) \<le> 2 ^ m" by simp
  then have x: "1 \<le> x" using assms(1) by linarith
  have "(2 :: int) ^ m \<le> \<lfloor>x\<rfloor>" "\<lfloor>x\<rfloor> < 2 ^ Suc m" using assms by (simp_all add: le_floor_iff floor_less_iff)
  then have "bitlen (nat \<lfloor>x\<rfloor>) = Suc m" by (rule bitlen_nat)
  then show ?thesis using x by (simp add: floor_log2_def)
qed

lemma floor_log2_neg:
  assumes "1 / 2 ^ Suc m \<le> x" "x < 1 / 2 ^ m"
  shows "floor_log2 x = - int (Suc m)"
proof -
  have "0 < x" using assms(1) by (smt (verit) divide_pos_pos zero_less_numeral zero_less_one zero_less_power order_less_le_trans)
  then have y: "1 / x \<le> 2 ^ Suc m" "2 ^ m < 1 / x" using assms by (simp_all add: field_simps)
  have "(1 :: rat) \<le> 2 ^ m" by simp
  then have "1 < 1 / x" using y(2) by linarith
  then have x: "\<not> 1 \<le> x" using \<open>0 < x\<close> by (simp add: field_simps)
  have "\<lceil>1 / x\<rceil> \<le> 2 ^ Suc m" "2 ^ m < \<lceil>1 / x\<rceil>" using y by (simp_all add: ceiling_le_iff less_ceiling_iff)
  then have "bitlen (nat (\<lceil>1 / x\<rceil> - 1)) = Suc m" by (intro bitlen_nat) simp_all
  then show ?thesis using x by (simp add: floor_log2_def)
qed

lemma floor_log2_eq:
  assumes "2 powi k \<le> x" "x < 2 powi (k + 1)"
  shows "floor_log2 x = k"
proof (cases "0 \<le> k")
  case True
  then obtain m where k: "k = int m" by (metis nonneg_int_cases)
  have e: "2 powi k = (2 ^ m :: rat)" "2 powi (k + 1) = (2 ^ Suc m :: rat)"
    unfolding k by (simp_all only: power_int_of_nat flip: of_nat_Suc) (simp add: power_int_def nat_add_distrib)
  show ?thesis using floor_log2_nonneg [of m x] assms unfolding e by (simp add: k)
next
  case False
  define m where "m = nat (- k - 1)"
  have k: "k = - int (Suc m)" "k + 1 = - int m" using False by (simp_all add: m_def)
  have e: "2 powi k = (1 / 2 ^ Suc m :: rat)" "2 powi (k + 1) = (1 / 2 ^ m :: rat)"
    unfolding k(2) unfolding k(1) by (simp_all only: power_int_minus power_int_of_nat inverse_eq_divide)
  show ?thesis using floor_log2_neg [of m x] assms unfolding e by (simp add: k)
qed

lemma floor_log2_bounds:
  assumes "0 < x"
  shows "2 powi floor_log2 x \<le> x" "x < 2 powi (floor_log2 x + 1)"
proof -
  have "\<exists>k. 2 powi k \<le> x \<and> x < 2 powi (k + 1)"
  proof (cases "1 \<le> x")
    case True
    then have "1 \<le> nat \<lfloor>x\<rfloor>" by (simp add: le_nat_iff le_floor_iff)
    then obtain m where "2 ^ m \<le> nat \<lfloor>x\<rfloor>" "nat \<lfloor>x\<rfloor> < 2 ^ (m + 1)" using ex_power_ivl1 [of 2 "nat \<lfloor>x\<rfloor>"] by auto
    then have "2 ^ m \<le> \<lfloor>x\<rfloor>" "\<lfloor>x\<rfloor> < 2 ^ (m + 1)" using True by (simp_all add: le_nat_iff nat_less_iff)
    then have "2 powi int m \<le> x \<and> x < 2 powi (int (m + 1))"
      unfolding power_int_of_nat by (simp add: le_floor_iff floor_less_iff)
    then show ?thesis by (intro exI [of _ "int m"]) (simp add: add.commute)
  next
    case False
    then have "1 < 1 / x" using assms by simp
    then have "2 \<le> nat \<lceil>1 / x\<rceil>" by (simp add: le_nat_iff le_ceiling_iff)
    then obtain m where "2 ^ m < nat \<lceil>1 / x\<rceil>" "nat \<lceil>1 / x\<rceil> \<le> 2 ^ (m + 1)" using ex_power_ivl2 [of 2 "nat \<lceil>1 / x\<rceil>"] by auto
    then have "2 ^ m < \<lceil>1 / x\<rceil>" "\<lceil>1 / x\<rceil> \<le> 2 ^ (m + 1)" by (simp_all add: nat_le_iff zless_nat_eq_int_zless)
    then have "2 ^ m < 1 / x" "1 / x \<le> 2 ^ (m + 1)" by (simp_all add: ceiling_le_iff less_ceiling_iff)
    then have "1 / 2 ^ (m + 1) \<le> x \<and> x < 1 / 2 ^ m" using assms by (simp add: field_simps)
    then have "2 powi (- int (m + 1)) \<le> x \<and> x < 2 powi (- int m)"
      unfolding power_int_minus power_int_of_nat inverse_eq_divide .
    then show ?thesis by (intro exI [of _ "- int (m + 1)"]) simp
  qed
  then show "2 powi floor_log2 x \<le> x" "x < 2 powi (floor_log2 x + 1)" using floor_log2_eq by auto
qed

text \<open>Numbers of at most 24 bits are exact, and rounding does not leave the range between two powers of two.\<close>

lemma f32_exact:
  assumes "0 \<le> m" "m \<le> 2 ^ 24"
  shows "f32 (of_int m * 2 ^ k) = of_int m * 2 ^ k"
proof (cases "m = 0")
  case False
  let ?x = "of_int m * 2 ^ k :: rat"
  let ?u = "2 powi (floor_log2 ?x - 23) :: rat"
  have x: "0 < ?x" using False assms(1) by simp
  have "\<exists>z. ?x / ?u = of_int z"
  proof (cases "floor_log2 ?x - 23 \<le> int k")
    case True
    then have "2 ^ k = 2 ^ nat (int k - (floor_log2 ?x - 23)) * ?u"
      by (simp add: power_int_add [symmetric] flip: power_int_of_nat)
    then have "of_int m * 2 ^ k = of_int (m * 2 ^ nat (int k - (floor_log2 ?x - 23))) * ?u" by simp
    then have "?x / ?u = of_int (m * 2 ^ nat (int k - (floor_log2 ?x - 23)))"
      by (subst nonzero_divide_eq_eq) simp_all
    then show ?thesis ..
  next
    case False
    then have "2 powi (int (k + 24)) \<le> (2 powi floor_log2 ?x :: rat)" by (intro power_int_increasing) simp_all
    then have le: "2 ^ (k + 24) \<le> ?x" using floor_log2_bounds(1) [OF x] unfolding power_int_of_nat by linarith
    have "of_int m \<le> (2 ^ 24 :: rat)" using assms(2) by (metis of_int_le_iff of_int_numeral of_int_power)
    then have "?x \<le> 2 ^ 24 * 2 ^ k" by (intro mult_right_mono) simp_all
    then have e: "?x = 2 powi (int (k + 24))" using le unfolding power_int_of_nat power_add by simp
    then have "floor_log2 ?x = int (k + 24)" by (intro floor_log2_eq) (simp_all add: power_int_add)
    then have "?x / ?u = 2 powi 23" unfolding e by (simp flip: power_int_diff)
    then show ?thesis by (intro exI [of _ "2 ^ 23"]) simp
  qed
  then obtain z where z: "?x / ?u = of_int z" ..
  have "f32 ?x = of_int (round_even (?x / ?u)) * ?u" using False by (simp add: f32_def Let_def)
  also have "\<dots> = ?x" unfolding z round_even_int unfolding z [symmetric] by simp
  finally show ?thesis .
qed (simp add: f32_def)

lemma f32_int [simp]: "0 \<le> m \<Longrightarrow> m \<le> 2 ^ 24 \<Longrightarrow> f32 (of_int m) = of_int m"
  using f32_exact [of m 0] by simp

lemma f32_upper:
  assumes "0 < x" "x < 2 powi k"
  shows "f32 x \<le> 2 powi k"
proof -
  let ?l = "floor_log2 x"
  let ?u = "2 powi (?l - 23) :: rat"
  have "?l < k" using floor_log2_bounds(1) [OF assms(1)] assms(2)
    by (metis power_int_increasing linorder_not_less order_less_le_trans one_le_numeral order.asym)
  have u: "2 ^ 24 * ?u = 2 powi (?l + 1)" by (simp add: power_int_diff power_int_add)
  then have "x / ?u < 2 ^ 24" using floor_log2_bounds(2) [OF assms(1)] by (simp add: divide_less_eq)
  then have "of_int (round_even (x / ?u)) < (of_int (2 ^ 24 + 1) :: rat)" using round_even_bounds(2) [of "x / ?u"] by simp
  then have "round_even (x / ?u) \<le> 2 ^ 24" unfolding of_int_less_iff by simp
  then have "of_int (round_even (x / ?u)) * ?u \<le> of_int (2 ^ 24) * ?u" by (intro mult_right_mono) simp_all
  also have "\<dots> = 2 powi (?l + 1)" using u by simp
  also have "\<dots> \<le> 2 powi k" using \<open>?l < k\<close> by (intro power_int_increasing) simp_all
  finally show ?thesis using assms(1) by (simp add: f32_def Let_def)
qed

text \<open>Between 64 and 128 the numbers lie 2 ^ -17 apart, between 2 ^ 26 and 2 ^ 27 they lie 8 apart.\<close>

lemma f32_percent:
  assumes "64 \<le> x" "x < 128"
  shows "f32 x = of_int (round_even (x * 2 ^ 17)) / 2 ^ 17"
proof -
  have "floor_log2 x = 6" using assms by (intro floor_log2_eq) simp_all
  moreover have "2 powi (6 - 23) = (1 / 2 ^ 17 :: rat)" by (simp add: power_int_def power_one_over)
  ultimately show ?thesis using assms(1) unfolding f32_def Let_def by simp
qed

lemma f32_eights:
  assumes "2 ^ 26 \<le> x" "x < 2 ^ 27"
  shows "f32 x = of_int (round_even (x / 8)) * 8"
proof -
  have "floor_log2 x = 26" using assms by (intro floor_log2_eq) simp_all
  then show ?thesis using assms(1) by (simp add: f32_def)
qed

lemma f32_ge_100:
  assumes "0 \<le> x" "x < 128"
  shows "100 \<le> f32 x \<longleftrightarrow> 100 - 1 / 2 ^ 18 \<le> x"
proof (cases "64 \<le> x")
  case True
  have "100 \<le> f32 x \<longleftrightarrow> of_int (100 * 2 ^ 17) \<le> (of_int (round_even (x * 2 ^ 17)) :: rat)"
    by (simp add: f32_percent [OF True assms(2)] field_simps)
  also have "\<dots> \<longleftrightarrow> 100 * 2 ^ 17 \<le> round_even (x * 2 ^ 17)" by (rule of_int_le_iff)
  also have "\<dots> \<longleftrightarrow> of_int (100 * 2 ^ 17) - 1 / 2 \<le> x * 2 ^ 17" by (rule round_even_ge) simp
  also have "\<dots> \<longleftrightarrow> 100 - 1 / 2 ^ 18 \<le> x" by (simp add: field_simps)
  finally show ?thesis .
next
  case False
  then have "f32 x \<le> 64" using f32_upper [of x 6] assms by (cases "x = 0") (simp_all add: f32_def)
  then show ?thesis using False by simp
qed

subsection \<open>The percentage\<close>

text \<open>A hundred times the number of pieces: more than 671088 pieces need more than 24 bits.\<close>

lemma hundred_small:
  assumes "0 \<le> w" "w \<le> 671088"
  shows "f32 (100 * f32 (of_int w)) = 100 * of_int w"
proof -
  have "f32 (of_int w) = (of_int w :: rat)" using assms by (intro f32_int) simp_all
  moreover have "f32 (of_int (25 * w) * 2 ^ 2) = of_int (25 * w) * 2 ^ 2" using assms by (intro f32_exact) simp_all
  ultimately show ?thesis by simp
qed

lemma hundred_large:
  assumes "671088 < w" "w \<le> 2 ^ 20"
  shows "f32 (100 * f32 (of_int w)) = (if even w then 100 * of_int w else if w mod 4 = 1 then 100 * of_int w - 4 else 100 * of_int w + 4)"
proof -
  have "f32 (of_int w) = (of_int w :: rat)" using assms by (intro f32_int) simp_all
  moreover have b: "2 ^ 26 \<le> (100 * of_int w :: rat)" "100 * of_int w < (2 ^ 27 :: rat)"
  proof -
    have "of_int 671089 \<le> (of_int w :: rat)" "of_int w \<le> (of_int (2 ^ 20) :: rat)"
      using assms unfolding of_int_le_iff by simp_all
    then show "2 ^ 26 \<le> (100 * of_int w :: rat)" "100 * of_int w < (2 ^ 27 :: rat)" by simp_all
  qed
  moreover have "(100 * of_int w :: rat) / 8 = of_int (25 * w) / 2" by simp
  ultimately have e: "f32 (100 * f32 (of_int w)) = of_int (round_even (of_int (25 * w) / 2)) * 8"
    using f32_eights by simp
  have "w = 2 * (w div 2) \<or> w = 4 * (w div 4) + 1 \<or> w = 4 * (w div 4) + 3" by presburger
  then consider (even) v where "w = 2 * v" | (one) v where "w = 4 * v + 1" | (three) v where "w = 4 * v + 3" by blast
  then show ?thesis
  proof cases
    case even
    then have r: "(of_int (25 * w) / 2 :: rat) = of_int (25 * v)" by simp
    show ?thesis unfolding e r round_even_int using even by simp
  next
    case one
    then have r: "(of_int (25 * w) / 2 :: rat) = of_int (50 * v + 12) + 1 / 2" by simp
    then show ?thesis unfolding e r round_even_half using one by simp
  next
    case three
    then have r: "(of_int (25 * w) / 2 :: rat) = of_int (50 * v + 37) + 1 / 2" by simp
    then show ?thesis unfolding e r round_even_half using three by simp
  qed
qed

lemma hundred_bounds:
  assumes "0 \<le> w" "w \<le> 2 ^ 20"
  shows "0 \<le> f32 (100 * f32 (of_int w))" "f32 (100 * f32 (of_int w)) \<le> 100 * of_int w + 4"
proof -
  have "0 \<le> (of_int w :: rat)" "671088 < w \<Longrightarrow> of_int 671088 < (of_int w :: rat)" using assms(1) by simp_all
  then show "0 \<le> f32 (100 * f32 (of_int w))" "f32 (100 * f32 (of_int w)) \<le> 100 * of_int w + 4"
    using hundred_small [of w] hundred_large [of w] assms by (cases "w \<le> 671088"; simp)+
qed

lemma completed_ge_100:
  assumes "0 \<le> w" "w \<le> n" "0 < n" "n \<le> 2 ^ 20"
  shows "100 \<le> completed w n \<longleftrightarrow> (100 - 1 / 2 ^ 18) * of_int n \<le> f32 (100 * f32 (of_int w))"
proof -
  let ?p = "f32 (100 * f32 (of_int w))"
  have n: "f32 (of_int n) = (of_int n :: rat)" using assms by (intro f32_int) simp_all
  have "(1 :: rat) \<le> of_int n" "(of_int w :: rat) \<le> of_int n" using assms by simp_all
  then have "?p < 128 * of_int n" using hundred_bounds(2) [of w] assms by simp
  then have "0 \<le> ?p / of_int n" "?p / of_int n < 128"
    using hundred_bounds(1) [of w] assms by (simp_all add: divide_less_eq)
  then show ?thesis unfolding completed_def n using assms(3) by (simp add: f32_ge_100 le_divide_eq)
qed

lemma completed_below:
  assumes "0 \<le> w" "w < n" "n \<le> 2 ^ 20"
  shows "\<not> 100 \<le> completed w n"
proof -
  have "of_int w \<le> (of_int (n - 1) :: rat)" using assms(2) unfolding of_int_le_iff by simp
  then have "f32 (100 * f32 (of_int w)) \<le> 100 * of_int n - 96" using hundred_bounds(2) [of w] assms by simp
  moreover have "of_int n \<le> (of_int (2 ^ 20) :: rat)" using assms(3) unfolding of_int_le_iff .
  ultimately show ?thesis using completed_ge_100 [of w n] assms by (simp add: algebra_simps)
qed

text \<open>C30: the percentage reaches 100, and with it the line is ended, exactly when all pieces are written,
  unless the torrent has more than 671088 pieces and their number is 1 more than a multiple of 4:
  then a hundred times that number is rounded down and the percentage stays below 100 for good.\<close>

theorem completed_iff_all_written:
  assumes "0 \<le> w" "w \<le> n" "0 < n" "n \<le> 2 ^ 20"
  shows "100 \<le> completed w n \<longleftrightarrow> w = n \<and> \<not> (671088 < n \<and> n mod 4 = 1)"
proof (cases "w = n")
  case False
  then show ?thesis using completed_below [of w n] assms by simp
next
  case True
  show ?thesis
  proof (cases "n \<le> 671088")
    case small: True
    then show ?thesis using True completed_ge_100 [OF assms] hundred_small [of n] assms(3) by (simp add: algebra_simps)
  next
    case False
    then have n: "of_int 671088 < (of_int n :: rat)" unfolding of_int_less_iff by simp
    then have pos: "0 < of_int n / (2 ^ 18 :: rat)" by simp
    note c = completed_ge_100 [OF assms, unfolded left_diff_distrib] hundred_large [of n]
    show ?thesis
    proof (cases "n mod 4 = 1")
      case one: True
      then have "odd n" by presburger
      moreover from this have "n < 2 ^ 20" using assms(4) by (cases "n = 2 ^ 20") simp_all
      then have "of_int n < (of_int (2 ^ 20) :: rat)" unfolding of_int_less_iff .
      ultimately show ?thesis using True False one c assms(4) by simp
    next
      case other: False
      then have "100 * of_int n \<le> f32 (100 * f32 (of_int n))" using False c(2) assms(4) by simp
      then show ?thesis using True False other c(1) pos by simp
    qed
  qed
qed

theorem completed_iff_all_written_witness:
  "100 \<le> completed 671088 671088 \<and> \<not> 100 \<le> completed 671089 671089 \<and> \<not> 100 \<le> completed 999 1000"
  using completed_iff_all_written [of 671088 671088] completed_iff_all_written [of 671089 671089]
    completed_iff_all_written [of 999 1000] by simp

subsection \<open>The bar\<close>

text \<open>While pieces are missing the session runs on.\<close>

lemma write_blocks_written: "ph_written (fold (write_block E ti i) ks ph) = ph_written ph"
proof -
  have "ph_written (fold (write_slice E ti key) sls ph) = ph_written ph" for key sls ph
    by (induction sls arbitrary: ph) (auto simp: write_slice_def Let_def split: option.splits prod.splits)
  then have "ph_written (write_block E ti i k ph) = ph_written ph" for k ph by (simp add: write_block_def Let_def)
  then show ?thesis by (induction ks arbitrary: ph) simp_all
qed

lemma received_written:
  assumes "received E ti pc ph = (halt, ph')"
  shows "ph_written ph' = ph_written ph \<or> ph_written ph' = ph_written ph + 1 \<and> (halt \<longleftrightarrow> is_done ti ph')"
proof -
  obtain i pc1 b pc2 where r: "bb_read_32 (ex_bb E) pc = (i, pc1)" "bb_read_32 (ex_bb E) pc1 = (b, pc2)" by (metis prod.exhaust)
  let ?ph = "store_block E i b (rd (ex_bb E) pc2) ph"
  show ?thesis
  proof (cases "rcvd (ph_received ph) (i, b)")
    case True
    then show ?thesis using assms by (auto simp: received_eq [OF r])
  next
    case False
    obtain ok q where w: "write_if_valid E ti i ?ph = (ok, q)" by fastforce
    then have h: "ph' = q" "halt \<longleftrightarrow> ok \<and> is_done ti q" using assms False by (auto simp: received_eq [OF r])
    show ?thesis using w
    proof (cases rule: write_if_valid_cases)
      case invalid
      then show ?thesis by (simp add: h quiet_def)
    next
      case (valid ph1)
      then show ?thesis by (simp add: h Let_def write_blocks_written quiet_def)
    qed
  qed
qed

definition pieces_missing :: "torrent_info \<Rightarrow> 'b piece_handler \<Rightarrow> bool" where
  "pieces_missing ti ph \<longleftrightarrow> 0 \<le> ph_written ph \<and> ph_written ph < fs_num_pieces (ti_files ti)"

lemma ph_run_missing:
  assumes "bb_laws (ex_bb E)" "ph_run E ti ops (st, ph) = (False, ph')" "pieces_missing ti ph"
  shows "pieces_missing ti ph'"
  using assms(2,3)
proof (induction ops arbitrary: st ph)
  case (Cons op ops)
  obtain halt ph1 where op: "ph_step E ti op ph = (halt, ph1)" by fastforce
  have run: "ph_run E ti ops (st \<or> halt, ph1) = (False, ph')" using Cons.prems(1) op by simp
  have mono: "ph_run E ti xs (True, q) \<noteq> (False, q')" for xs q q'
    by (induction xs arbitrary: q) (auto split: prod.splits)
  then have h: "\<not> halt" using run by (cases halt) auto
  have "pieces_missing ti ph1"
  proof (cases "\<exists>pc. op = Op_received pc")
    case True
    then have "ph_written ph1 = ph_written ph \<or> ph_written ph1 = ph_written ph + 1 \<and> \<not> is_done ti ph1"
      using received_written [of E ti _ ph halt ph1] op h by auto
    then show ?thesis using Cons.prems(2) by (auto simp: pieces_missing_def is_done_def)
  next
    case False
    then show ?thesis using quiet_step(1) [OF assms(1) op] Cons.prems(2) by (simp add: quiet_def pieces_missing_def)
  qed
  then show ?case using Cons.IH [OF run] by blast
qed simp

lemma running_missing:
  assumes "bb_laws (ex_bb (en_ext V))" "sess_inv V (False, ph, l) s" "pieces_missing (en_ti V) ph" "sh_running (ss_shared s)"
  shows "pieces_missing (en_ti V) (sh_pieces (ss_shared s))"
  using assms ph_run_missing [OF assms(1)] unfolding sess_inv_def ph_runs_def by auto

text \<open>What one call prints.\<close>

lemma digit_not_newline: "digit d = CHR 0x0A \<Longrightarrow> \<not> d < 10"
proof -
  assume "digit d = CHR 0x0A"
  then have "(of_char (digit d) :: nat) = 10" by simp
  then show ?thesis by (auto simp: of_char_digit)
qed

lemma fixed2_no_newline: "CHR 0x0A \<notin> set (fixed2 x)"
proof -
  have "digit d \<noteq> CHR 0x0A" if "d < 10" for d using digit_not_newline that by blast
  moreover from this have "CHR 0x0A \<notin> set (dec_int c)" for c using dec_digits_only unfolding dec_int_def by metis
  moreover have "nat (c mod 10) < 10" for c :: int by (simp add: nat_less_iff)
  ultimately show ?thesis unfolding fixed2_def Let_def by (auto dest: sym)
qed

lemma print_any:
  assumes "print_progress w n bar = (bar', line)" "CHR 0x0A \<notin> set bar"
  shows "bar' = bar \<or> bar' = bar @ ''#''" "count_list line CHR 0x0A \<le> 1"
    and "\<not> 100 \<le> completed w n \<Longrightarrow> CHR 0x0A \<notin> set line"
  using assms fixed2_no_newline
  by (auto simp: print_progress_def Let_def setw_def count_list_append count_list_0_iff split: if_splits)

lemma print_missing:
  assumes "print_progress w n bar = (bar', line)" "0 \<le> w" "w < n" "n \<le> 2 ^ 20" "length bar \<le> 100"
  shows "length bar' \<le> 100"
proof -
  have c: "\<not> 100 \<le> completed w n" using completed_below [of w n] assms by simp
  have "f32 (of_nat (length bar)) = of_nat (length bar)" using f32_int [of "int (length bar)"] assms(5) by simp
  then have "bar' = bar @ ''#'' \<Longrightarrow> of_nat (length bar) < (100 :: rat)"
    using assms(1) c by (auto simp: print_progress_def Let_def split: if_splits)
  then show ?thesis using assms(1,5) by (auto simp: print_progress_def Let_def split: if_splits)
qed

text \<open>Only the last call, after the session has been stopped, can go beyond 100 marks or end the line.\<close>

definition display_inv :: "('b, 'w) env \<Rightarrow> 'b piece_handler \<Rightarrow> 'b list \<Rightarrow> ('b, 'w) display \<Rightarrow> bool" where
  "display_inv V ph l d \<longleftrightarrow>
     (case d of (t, bar, out) \<Rightarrow>
        thread_inv t \<and> (running t \<longrightarrow> sess_inv V (False, ph, l) (th_sess t)) \<and> set bar \<subseteq> {CHR ''#''} \<and>
        (if \<not> running t \<and> th_main t \<in> {M_test, M_join, M_done}
         then length bar \<le> 101 \<and> count_list out CHR 0x0A \<le> 1
         else length bar \<le> 100 \<and> CHR 0x0A \<notin> set out))"

lemma thread_step_sess_inv:
  assumes "thread_step V c t t'" "thread_inv t" "running t \<Longrightarrow> sess_inv V p (th_sess t)" "running t'"
  shows "sess_inv V p (th_sess t')"
  using assms
proof (induction rule: thread_step.induct)
  case (main_print t)
  then show ?case using sess_inv_frame [of V p "th_sess t" "clear_notified (th_sess t)"]
    by (simp add: clear_notified_def)
next
  case (engine_runs t s)
  then have "sess_inv V p (th_sess t)" by (simp add: thread_inv_def)
  note r = engine_round_inv [OF engine_runs.hyps(2) this]
  then show ?case using engine_runs.prems(3) by (cases "poll_fails V (th_sess t)") simp_all
qed simp_all

lemma display_inv_step:
  assumes "display_step V d d'" "display_inv V ph l d" "bb_laws (ex_bb (en_ext V))"
    and "pieces_missing (en_ti V) ph" "fs_num_pieces (ti_files (en_ti V)) \<le> 2 ^ 20"
  shows "display_inv V ph l d'"
  using assms(1,2)
proof (induction rule: display_step.induct)
  case (prints t t' bar bar' line out)
  let ?n = "fs_num_pieces (ti_files (en_ti V))"
  have inv: "thread_inv t" "running t \<Longrightarrow> sess_inv V (False, ph, l) (th_sess t)" "set bar \<subseteq> {CHR ''#''}"
    "length bar \<le> 100" "CHR 0x0A \<notin> set out"
    using prints.prems prints.hyps(2) by (simp_all add: display_inv_def split: if_splits)
  have nl: "CHR 0x0A \<notin> set bar" using inv(3) by auto
  note pr = print_any [OF prints.hyps(3) nl]
  have t': "th_main t' = M_test" "running t' = running t"
    using prints.hyps(1,2) by (auto elim!: thread_stepE)
  have "set bar' \<subseteq> {CHR ''#''}" "length bar' \<le> 101" using pr(1) inv(3,4) by auto
  moreover have "count_list (out @ line) CHR 0x0A \<le> 1" using pr(2) inv(5) by (simp add: count_list_append count_notin)
  moreover have "length bar' \<le> 100 \<and> CHR 0x0A \<notin> set line" if "running t"
  proof -
    have w: "0 \<le> pieces_written t" "pieces_written t < ?n"
      using running_missing [OF assms(3) inv(2) assms(4) that] that by (simp_all add: pieces_missing_def pieces_written_def)
    have "\<not> 100 \<le> completed (pieces_written t) ?n" using completed_below w assms(5) by simp
    then show ?thesis using print_missing [OF prints.hyps(3) w assms(5) inv(4)] pr(3) by simp
  qed
  ultimately show ?case
    using t' inv(5) thread_inv_step [OF prints.hyps(1) inv(1)] thread_step_sess_inv [OF prints.hyps(1) inv(1,2)]
    by (simp add: display_inv_def)
next
  case (silent c t t' bar out)
  have inv: "thread_inv t" "running t \<Longrightarrow> sess_inv V (False, ph, l) (th_sess t)"
    using silent.prems by (simp_all add: display_inv_def)
  have "\<not> running t' \<and> th_main t' \<in> {M_test, M_join, M_done}" if "\<not> running t" "th_main t \<in> {M_test, M_join, M_done}"
    using stopped_step [OF silent.hyps(1) inv(1) that(1)] silent.hyps(1) that by (auto elim!: thread_stepE)
  then show ?case
    using silent.prems thread_inv_step [OF silent.hyps(1) inv(1)] thread_step_sess_inv [OF silent.hyps(1) inv]
    by (auto simp: display_inv_def count_notin split: if_splits)
qed

lemma display_inv_reach:
  assumes "display_reach V d d'" "display_inv V ph l d" "bb_laws (ex_bb (en_ext V))"
    and "pieces_missing (en_ti V) ph" "fs_num_pieces (ti_files (en_ti V)) \<le> 2 ^ 20"
  shows "display_inv V ph l d'"
  using assms(1,2) by (induction rule: display_reach.induct) (auto intro: display_inv_step [OF _ _ assms(3-5)])

text \<open>A round of the engine that the main thread waits for.\<close>

lemma display_silent:
  assumes "display_reach V d (t, bar, out)" "thread_step V c t t'" "th_main t \<noteq> M_print"
  shows "display_reach V d (t', bar, out)"
  using display_trans [OF assms(1) silent [OF assms(2)]] assms(3) by blast

lemma first_print:
  assumes "sh_running (ss_shared s)" "\<not> sh_notified (ss_shared s)" "engine_round V s = Inr s'"
    and "print_progress (ph_written (sh_pieces (ss_shared s'))) (fs_num_pieces (ti_files (en_ti V))) [] = (bar, line)"
  shows "display_reach V (threads_start s, [], [])
    (\<lparr>th_main = M_test, th_engine = E_test, th_owner = Some Main_thread, th_sess = clear_notified s'\<rparr>, bar, line)"
proof -
  let ?d = "(threads_start s, [], [])"
  let ?T = "\<lambda>m e o' x. \<lparr>th_main = m, th_engine = e, th_owner = o', th_sess = x\<rparr>"
  have n: "sh_notified (ss_shared s')" by (rule engine_round_notifies [OF assms(3)])
  have "display_reach V ?d (?T M_lock E_test None s, [], [])" by (simp add: threads_start_def display_refl)
  from display_silent [OF this main_lock] have "display_reach V ?d (?T M_test E_test (Some Main_thread) s, [], [])" by simp
  from display_silent [OF this main_test] have "display_reach V ?d (?T M_pred E_test (Some Main_thread) s, [], [])" using assms(1) by simp
  from display_silent [OF this main_wait] have "display_reach V ?d (?T M_wait E_test None s, [], [])" using assms(2) by simp
  from display_silent [OF this engine_test] have "display_reach V ?d (?T M_wait E_acquire None s, [], [])" using assms(1) by simp
  from display_silent [OF this engine_lock] have "display_reach V ?d (?T M_wait E_round (Some Engine_thread) s, [], [])" by simp
  from display_silent [OF this engine_runs] have "display_reach V ?d (?T M_wait E_notify (Some Engine_thread) s', [], [])" using assms(3) by simp
  from display_silent [OF this engine_notify] have "display_reach V ?d (?T M_wake E_release (Some Engine_thread) s', [], [])" by simp
  from display_silent [OF this engine_release] have "display_reach V ?d (?T M_wake E_test None s', [], [])" by simp
  from display_silent [OF this main_relock] have "display_reach V ?d (?T M_pred E_test (Some Main_thread) s', [], [])" by simp
  from display_silent [OF this main_ready] have r: "display_reach V ?d (?T M_print E_test (Some Main_thread) s', [], [])" using n by simp
  from main_print [of "?T M_print E_test (Some Main_thread) s'" V]
  have "thread_step V Main_step (?T M_print E_test (Some Main_thread) s') (?T M_test E_test (Some Main_thread) (clear_notified s'))" by simp
  from display_trans [OF r prints [OF this]] show ?thesis using assms(4) by (simp add: pieces_written_def)
qed

text \<open>C17: whatever the two threads do, the progress bar of a session of at most 2 ^ 20 pieces that starts
  running with nothing written consists of at most 101 marks, so that the width that is left for the
  closing bracket never wraps around; while the session runs there are at most 100 and the line is
  not ended, and it is ended at most once in all.\<close>

theorem progress_bar_fits:
  assumes "sh_running (ss_shared s)" "registrations_ok s" "timers_ok s" "ph_written (sh_pieces (ss_shared s)) = 0"
    and "0 < fs_num_pieces (ti_files (en_ti V))" "fs_num_pieces (ti_files (en_ti V)) \<le> 2 ^ 20"
    and "bb_laws (ex_bb (en_ext V))" "display_reach V (threads_start s, [], []) (t, bar, out)"
  shows "set bar \<subseteq> {CHR ''#''} \<and> length bar \<le> 101 \<and> count_list out CHR 0x0A \<le> 1
     \<and> (running t \<longrightarrow> length bar \<le> 100 \<and> CHR 0x0A \<notin> set out)"
proof -
  let ?ph = "sh_pieces (ss_shared s)" and ?l = "sh_blocks (ss_shared s)"
  have "sess_inv V (False, ?ph, ?l) s" using sess_inv_here [OF assms(2,3), of V] assms(1) by simp
  then have "display_inv V ?ph ?l (threads_start s, [], [])"
    using thread_inv_start [OF assms(1)] by (simp add: display_inv_def) (simp add: threads_start_def)
  moreover have "pieces_missing (en_ti V) ?ph" using assms(4,5) by (simp add: pieces_missing_def)
  ultimately have "display_inv V ?ph ?l (t, bar, out)" using display_inv_reach assms(6-8) by blast
  then show ?thesis by (auto simp: display_inv_def count_notin split: if_splits)
qed

theorem progress_bar_fits_witness:
  "\<exists>t. display_reach small_V (threads_start (small_sess [] [[(5, EPOLLIN)]]
       [frame BITFIELD [0x80] @ frame PIECE [0, 0, 0, 0, 0, 0, 0, 0, 1, 2, 3]] 0), [], [])
       (t, ''#'', [CHR 0x0D] @ ''100.00% completed [#'' @ replicate 99 CHR '' '' @ '']'' @ [CHR 0x0A])
     \<and> \<not> running t"
proof -
  let ?s = "small_sess [] [[(5, EPOLLIN)]] [frame BITFIELD [0x80] @ frame PIECE [0, 0, 0, 0, 0, 0, 0, 0, 1, 2, 3]] 0"
  let ?line = "[CHR 0x0D] @ ''100.00% completed [#'' @ replicate 99 CHR '' '' @ '']'' @ [CHR 0x0A]"
  have run: "sh_running (ss_shared ?s)" "\<not> sh_notified (ss_shared ?s)" "ph_written (sh_pieces (ss_shared ?s)) = 0" by code_simp+
  have "\<not> isl (engine_round small_V ?s)" "ph_written (sh_pieces (ss_shared (projr (engine_round small_V ?s)))) = 1" by code_simp+
  then obtain s' where s': "engine_round small_V ?s = Inr s'" "ph_written (sh_pieces (ss_shared s')) = 1"
    by (metis not_isl_Inr sum.sel(2))
  have n: "fs_num_pieces (ti_files (en_ti small_V)) = 1" by code_simp
  have "print_progress 1 1 [] = (''#'', ?line)" by code_simp
  then have r: "display_reach small_V (threads_start ?s, [], [])
      (\<lparr>th_main = M_test, th_engine = E_test, th_owner = Some Main_thread, th_sess = clear_notified s'\<rparr>, ''#'', ?line)"
    using first_print [OF run(1,2) s'(1), of "''#''" ?line] by (simp only: s'(2) n)
  have w: "bb_laws (ex_bb (en_ext small_V))" by (simp add: small_V_def small_E_def list_buffer_laws)
  show ?thesis
    using progress_bar_fits [OF run(1) small_sess_ok run(3) _ _ w r] r n by auto
qed

end
