(* ===== verification/Spec2Isabelle.thy ===== *)
theory Spec2Isabelle
  imports Main_Program Piece_Hash Torrent_Created Session_Progress
begin

section \<open>A verification of the tent BitTorrent client\<close>

text \<open>
  \<^bold>\<open>The program.\<close> tent (\<open>app/main.cpp\<close>, \<open>src/\<close>, \<open>include/\<close>) downloads the files of one torrent and ends. It
  loads the torrent file with libtorrent (\<open>extern/libtorrent\<close>), asks the trackers of the torrent for
  peers, makes one agent for every peer, and runs an engine thread that waits for socket events and
  timeouts and lets the agents handle them. The agents share a piece handler, which decides what to
  request, keeps the blocks received, checks pieces against their hashes and writes them to the files.
  When all pieces are written the piece handler's answer makes an agent stop the session, and the
  program ends.

  \<^bold>\<open>The shape of the model.\<close> Every function of the code is a function of the same name (with a prefix
  where C++ overloads it or HOL has it); objects are records, passed and returned explicitly. Integers
  are words of their width or unbounded integers where they are bounded by what they count. Exceptions,
  the use of invalidated iterators and loops that run out of fuel are values of \<open>exn\<close>. Code that is not
  part of the sources is a parameter: \<open>mul::byte_buffer\<close> (a git submodule; a record of operations with
  the laws \<open>bb_laws\<close>), the system calls (a record \<open>os_api\<close> over an unknown type of worlds), curl, name
  resolution, random numbers, the order in which unordered containers are walked, the CRC of boost, and
  memory behind the end of an object. One field of the state is not in the code: \<open>sh_blocks\<close> in \<open>shared\<close> is a
  history of the blocks that were passed to the piece handler. No guard reads it; it lets the theorems
  on whole runs say what the peers sent.

  \<^bold>\<open>The theories, from the bottom up.\<close>

  \<^item> \<open>Prelude\<close>: words, big-endian encodings, exceptions, shared collections of rules. \<open>Byte_Buffer\<close>: the
    interface of the buffer, its laws and an instance.
  \<^item> \<open>Libtorrent\<close>: \<open>file_storage\<close> (piece sizes, \<open>map_block\<close>, paths), hexadecimal numbers.
    \<open>Bdecode\<close>: the decoder of bencoded data into a token array and the accessors of nodes;
    \<open>Bdecode_Tokens\<close>: the invariant of that array (C10); \<open>Bencode\<close>: the encoder, and that the
    accessors give back any value that was encoded (C11, C29).
  \<^item> \<open>Torrent_Paths\<close> (the sanitizer of path elements, UTF-8, splitting of paths; C9),
    \<open>Torrent_Storage\<close> (building a file storage; C26), \<open>Torrent_Duplicates\<close> (renaming files with equal
    paths; C8, C27) and \<open>Torrent_Load\<close> (the constructor of \<open>torrent_info\<close>; C6): what
    \<open>main\<close> does with a torrent file of any bytes. \<open>Torrent_Created\<close> is the converse: a torrent file of a
    single file that an encoder makes loads to exactly what it describes (C7), and the trackers of
    a loaded torrent are those of its announce list (C28).
  \<^item> \<open>Sha1\<close>: libtorrent's own SHA-1 and its hasher class, proved equal to FIPS 180 for either byte order
    and any way to cut the data into chunks (C12), and what its bit count is, which can be wrong for
    chunks of half a gigabyte (C31). The interface \<open>stream_hash\<close> is interpreted on the hasher; \<open>Piece_Hash\<close> shows that the
    piece handler's check with a hasher object is the one of the model (C13).
  \<^item> \<open>Msg_Factory\<close>, \<open>Session_SM\<close>, \<open>Net\<close>, \<open>Sockets\<close>, \<open>Net_Reactor\<close>, \<open>Timer\<close>, \<open>File_Handler\<close>, \<open>Http\<close>: one theory for
    each class of these names in \<open>src/\<close>. The locales \<open>reactor_clients\<close> and \<open>timer_clients\<close> state what the
    reactor and the timer require of their clients and prove what one \<open>poll\<close> and one \<open>tock\<close> keep; they
    are interpreted on the agents of a session in \<open>Session_Invariant\<close>.
  \<^item> \<open>Piece_Handler\<close>: \<open>src/piece_handler.cpp\<close>. \<open>Piece_Requests\<close> proves what is requested (with the
    interface \<open>request_source\<close> the agents use), \<open>Piece_Writes\<close> that writing a piece through \<open>map_block\<close> and
    the file streams is overwriting a place of one big array, and \<open>Download\<close> puts both together for any
    sequence of operations: C1, C4, C15, C36.
  \<^item> \<open>Torrent_Agent\<close>: \<open>src/torrent_agent.cpp\<close>. \<open>Agent_Stream\<close> is about the bytes received (C5, C19, C23, C37),
    \<open>Agent_Calls\<close> about what is sent, requested and kept over a reconnect (C20,
    C21, C22, C38).
  \<^item> \<open>Tracker\<close>: both tracker clients; \<open>Tracker_Peers\<close>: the peers they find (C24, C25, C32, C33, C39).
  \<^item> \<open>Session\<close>, \<open>Session_Invariant\<close>, \<open>Session_Run\<close>: \<open>src/session.cpp\<close>, the invariant of its registrations, and
    the simulation of a whole run by operations of the piece handler (C3, C18, C35).
    \<open>Session_Threads\<close>: the main thread and the engine thread as a step relation with the mutex and the
    condition variable (C14, C16, C34). \<open>Session_Progress\<close>: the
    percentage in single precision and the bar the main thread prints (C17, C30).
  \<^item> \<open>Main_Program\<close>: \<open>main\<close>, the signal handler, reading the file, and the end-to-end theorem C2.

  \<^bold>\<open>The abstract specifications.\<close> A torrent is one array of bytes; a valid piece overwrites its place in it
  (\<open>Piece_Writes\<close>). A session is a sequence of operations of the piece handler (\<open>Session_Run\<close>). A peer is a
  stream of bytes, cut into messages independently of how TCP delivers it (\<open>Agent_Stream\<close>). A tracker's
  answer is a list of addresses merged into a list without repetition (\<open>Tracker_Peers\<close>). A hash is a
  function of the bytes (\<open>Sha1\<close>).

  \<^bold>\<open>Fuel.\<close> Loops that may not end have fuel and yield \<open>Out_of_fuel\<close> or \<open>None\<close> when it is used up: the
  message loop of \<open>on_read\<close> (C19 says when as much fuel as there are bytes is enough, C37 when none is),
  \<open>send\<close>, the engine and the polling of a UDP tracker (only the operating system ends them), the
  search for a free file name (C27), and the padding loop of SHA-1 (64 rounds, always enough: C12).
  All other loops are structural or have a termination proof.

  \<^bold>\<open>Faults of the code\<close> that the theorems show: a length prefix that hangs the client (C37), messages lost on
  a partial write (C20), bytes of an old connection read as new ones (\<open>reconnect_keeps_stale_bytes\<close>), undefined behaviour on
  every timeout (C35), a corrupt piece that is never asked for again (C36), a peer id that is never
  stored (C38), an exception for a peer without an IPv4 address (C39), a file called by an unsanitized
  name (\<open>loaded_name_not_sanitized\<close>), a torrent rejected without an error (\<open>rejected_without_error\<close>), path elements of any length (\<open>sanitize_replaced_unbounded\<close>), a wrong
  hash of a large chunk (C31), a negative number that loses a digit
  (C29) and a percentage that never reaches 100 for some torrents of many pieces (C30).

  \<^bold>\<open>Not modelled.\<close> \<open>print_left\<close> and the log (\<open>log_ctrl.cpp\<close>), which only produce output; the text of log
  messages; \<open>errno\<close>. Of libtorrent everything the client never calls: sessions,
  peers, trackers, DHT, disk threads and the rest; of the loading of torrents what the client never
  reads (web seeds, nodes, comments, similar torrents, symbolic links, file hashes, attributes other than
  the one of pad files), and the parser of magnet links, which a file with pieces does not reach. curlpp
  and spdlog are called and not verified.
\<close>

end
